theory Spec2Isabelle
  imports Complex_Main
begin

section \<open>Dense vectors and matrices over exact scalars\<close>

text \<open>
  The scalar type \<open>Real\<close> of the solvers is modelled by the exact reals and
  \<open>Complex<Real>\<close> by the complex numbers over them, so the statements about them
  are statements in exact arithmetic. A \<open>Matrix<T>\<close> is its height, its width and its
  entries \<open>Get(i,j)\<close>. The column vectors of the interior-point solver (matrices of
  width 1) are lists of their entries.
\<close>

record 'a Matrix =
  Height :: nat
  Width :: nat
  Get :: "nat \<Rightarrow> nat \<Rightarrow> 'a"

type_synonym Vec = "real list"

section \<open>SafeScale (include/El/blas\_like/level1/SafeScale.hpp)\<close>

text \<open>
  \<open>SafeScaleStep\<close> and \<open>SafeScale\<close> are templates over the scalar type \<open>Real\<close>, and
  so is the model: \<open>Real\<close> is a type with the operations the code uses. At the type
  of the reals the model is the code in exact arithmetic. The type \<open>fpreal\<close> has the
  operands that a floating-point \<open>Real\<close> has besides: the two infinities and NaN.
  Its arithmetic is exact on finite values (no rounding, no overflow, no underflow, no
  signed zero) and follows IEEE 754 on the special values.
\<close>

datatype fpreal = Finite real | PInf | MInf | NaN

fun fp_times :: "fpreal \<Rightarrow> fpreal \<Rightarrow> fpreal" where
  "fp_times (Finite a) (Finite b) = Finite (a * b)"
| "fp_times NaN b = NaN"
| "fp_times a NaN = NaN"
| "fp_times PInf (Finite b) = (if b > 0 then PInf else if b < 0 then MInf else NaN)"
| "fp_times MInf (Finite b) = (if b > 0 then MInf else if b < 0 then PInf else NaN)"
| "fp_times (Finite a) PInf = (if a > 0 then PInf else if a < 0 then MInf else NaN)"
| "fp_times (Finite a) MInf = (if a > 0 then MInf else if a < 0 then PInf else NaN)"
| "fp_times PInf PInf = PInf"
| "fp_times PInf MInf = MInf"
| "fp_times MInf PInf = MInf"
| "fp_times MInf MInf = PInf"

fun fp_divide :: "fpreal \<Rightarrow> fpreal \<Rightarrow> fpreal" where
  "fp_divide (Finite a) (Finite b) =
     (if b \<noteq> 0 then Finite (a / b)
      else if a > 0 then PInf else if a < 0 then MInf else NaN)"
| "fp_divide NaN b = NaN"
| "fp_divide a NaN = NaN"
| "fp_divide PInf (Finite b) = (if b \<ge> 0 then PInf else MInf)"
| "fp_divide MInf (Finite b) = (if b \<ge> 0 then MInf else PInf)"
| "fp_divide (Finite a) PInf = Finite 0"
| "fp_divide (Finite a) MInf = Finite 0"
| "fp_divide PInf PInf = NaN"
| "fp_divide PInf MInf = NaN"
| "fp_divide MInf PInf = NaN"
| "fp_divide MInf MInf = NaN"

fun fp_abs :: "fpreal \<Rightarrow> fpreal" where
  "fp_abs (Finite a) = Finite \<bar>a\<bar>"
| "fp_abs PInf = PInf"
| "fp_abs MInf = PInf"
| "fp_abs NaN = NaN"

fun fp_less :: "fpreal \<Rightarrow> fpreal \<Rightarrow> bool" where
  "fp_less (Finite a) (Finite b) = (a < b)"
| "fp_less NaN b = False"
| "fp_less a NaN = False"
| "fp_less MInf (Finite b) = True"
| "fp_less MInf PInf = True"
| "fp_less (Finite a) PInf = True"
| "fp_less a MInf = False"
| "fp_less PInf b = False"

instantiation fpreal :: "{zero, one, times, inverse, abs, ord}"
begin

definition zero_fpreal :: fpreal where "0 = Finite 0"

definition one_fpreal :: fpreal where "1 = Finite 1"

definition times_fpreal :: "fpreal \<Rightarrow> fpreal \<Rightarrow> fpreal" where "a * b = fp_times a b"

definition divide_fpreal :: "fpreal \<Rightarrow> fpreal \<Rightarrow> fpreal" where "a div b = fp_divide a b"

definition inverse_fpreal :: "fpreal \<Rightarrow> fpreal" where "inverse a = fp_divide (Finite 1) a"

definition abs_fpreal :: "fpreal \<Rightarrow> fpreal" where "\<bar>a\<bar> = fp_abs a"

definition less_fpreal :: "fpreal \<Rightarrow> fpreal \<Rightarrow> bool" where "a < b \<longleftrightarrow> fp_less a b"

definition less_eq_fpreal :: "fpreal \<Rightarrow> fpreal \<Rightarrow> bool" where
  "a \<le> b \<longleftrightarrow> fp_less a b \<or> (a = b \<and> a \<noteq> NaN)"

instance ..

end

text \<open>
  \<open>SafeScaleStep\<close> updates \<open>numerator\<close>, \<open>denominator\<close> and \<open>alpha\<close> through
  references and returns the flag \<open>done\<close>; the model returns
  \<open>(done, numerator, denominator, alpha)\<close>.
\<close>

definition SafeScaleStep ::
  "'r::{times, inverse, abs, ord} \<Rightarrow> 'r \<Rightarrow> 'r \<Rightarrow> 'r \<Rightarrow> 'r \<Rightarrow> bool \<times> 'r \<times> 'r \<times> 'r" where
  "SafeScaleStep numerator denominator zero smallNum bigNum =
     (let shrunkDenominator = denominator * smallNum in
      if \<bar>shrunkDenominator\<bar> > \<bar>numerator\<bar> \<and> numerator \<noteq> zero
      then (False, numerator, shrunkDenominator, smallNum)
      else
        let shrunkNumerator = numerator / bigNum in
        if \<bar>shrunkNumerator\<bar> > \<bar>denominator\<bar>
        then (False, shrunkNumerator, denominator, bigNum)
        else (True, numerator, denominator, numerator / denominator))"

text \<open>\<open>A *= alpha\<close>: every entry of the target is multiplied by \<open>alpha\<close>.\<close>

definition scale_by :: "'r::times Matrix \<Rightarrow> 'r \<Rightarrow> 'r Matrix" where
  "scale_by A alpha = A\<lparr>Get := (\<lambda>i j. Get A i j * alpha)\<rparr>"

text \<open>
  The \<open>while( !done )\<close> loop of \<open>SafeScale\<close>. Besides the target it returns the
  list of the factors \<open>alpha\<close> that were applied to the target, in order (the
  argument \<open>alphas\<close> holds the factors applied so far). The loop need not end
  (a zero denominator with a nonzero numerator shrinks the numerator for ever),
  so it is a partial function: \<open>None\<close> means that it does not return.
\<close>

partial_function (option) SafeScale_loop ::
  "'r::{times, inverse, abs, ord} \<Rightarrow> 'r \<Rightarrow> 'r \<Rightarrow> 'r \<Rightarrow> 'r \<Rightarrow> 'r list \<Rightarrow> 'r Matrix
   \<Rightarrow> ('r list \<times> 'r Matrix) option" where
  [code]: "SafeScale_loop numerator denominator zero smallNum bigNum alphas A =
     (case SafeScaleStep numerator denominator zero smallNum bigNum of
        (done, numerator', denominator', alpha) \<Rightarrow>
          if done then Some (alphas @ [alpha], scale_by A alpha)
          else SafeScale_loop numerator' denominator' zero smallNum bigNum
                 (alphas @ [alpha]) (scale_by A alpha))"

text \<open>
  \<open>SafeScale\<close> for a \<open>Matrix\<close>. The constant \<open>limits::SafeMin<Real>()\<close> is not
  part of the sources at hand and is the parameter \<open>smallNum\<close>.
\<close>

definition SafeScale ::
  "'r::{zero, one, times, inverse, abs, ord} \<Rightarrow> 'r \<Rightarrow> 'r \<Rightarrow> 'r Matrix
   \<Rightarrow> ('r list \<times> 'r Matrix) option" where
  "SafeScale smallNum numerator denominator A =
     (let zero = 0; bigNum = 1 / smallNum
      in SafeScale_loop numerator denominator zero smallNum bigNum [] A)"

section \<open>Kernels used by the interior-point solver\<close>

text \<open>
  The dense kernels below are collaborators of the solver whose code is outside the
  sources at hand.

  Modelled from the spec: \<open>Dot\<close>, \<open>Nrm2\<close>, \<open>Gemv\<close>, \<open>Axpy\<close>, \<open>DiagonalScale\<close>,
  \<open>DiagonalSolve\<close>, \<open>Shift\<close>, \<open>Ones\<close> and \<open>NumNonPositive\<close>, following their
  documented contracts: \<open>Gemv(orientation, alpha, A, x, beta, y)\<close> computes
  \<open>y := alpha op(A) x + beta y\<close>, \<open>Dot\<close> is the inner product, \<open>Nrm2\<close> the
  2-norm, \<open>Axpy(alpha, x, y)\<close> computes \<open>y += alpha x\<close>, and
  \<open>DiagonalScale\<close> / \<open>DiagonalSolve\<close> apply / invert a diagonal scaling.
  The kernels expect conformal operands.
\<close>

datatype Orientation = NORMAL | TRANSPOSE

definition Dot :: "Vec \<Rightarrow> Vec \<Rightarrow> real" where
  "Dot a b = sum_list (map2 (\<lambda>ai bi. ai * bi) a b)"

definition Nrm2 :: "Vec \<Rightarrow> real" where
  "Nrm2 v = sqrt (sum_list (map (\<lambda>a. a * a) v))"

definition row :: "real Matrix \<Rightarrow> nat \<Rightarrow> Vec" where
  "row A i = map (\<lambda>j. Get A i j) [0..<Width A]"

definition col :: "real Matrix \<Rightarrow> nat \<Rightarrow> Vec" where
  "col A j = map (\<lambda>i. Get A i j) [0..<Height A]"

fun Gemv :: "Orientation \<Rightarrow> real \<Rightarrow> real Matrix \<Rightarrow> Vec \<Rightarrow> real \<Rightarrow> Vec \<Rightarrow> Vec" where
  "Gemv NORMAL alpha A x beta y =
     map2 (\<lambda>i yi. alpha * Dot (row A i) x + beta * yi) [0..<Height A] y"
| "Gemv TRANSPOSE alpha A x beta y =
     map2 (\<lambda>j yj. alpha * Dot (col A j) x + beta * yj) [0..<Width A] y"

definition Axpy :: "real \<Rightarrow> Vec \<Rightarrow> Vec \<Rightarrow> Vec" where
  "Axpy alpha X Y = map2 (\<lambda>xi yi. alpha * xi + yi) X Y"

definition DiagonalScale :: "Vec \<Rightarrow> Vec \<Rightarrow> Vec" where
  "DiagonalScale d X = map2 (\<lambda>di xi. di * xi) d X"

definition DiagonalSolve :: "Vec \<Rightarrow> Vec \<Rightarrow> Vec" where
  "DiagonalSolve d X = map2 (\<lambda>di xi. xi / di) d X"

definition Shift :: "Vec \<Rightarrow> real \<Rightarrow> Vec" where
  "Shift v alpha = map (\<lambda>vi. vi + alpha) v"

definition Ones :: "nat \<Rightarrow> Vec" where
  "Ones k = replicate k 1"

definition NumNonPositive :: "Vec \<Rightarrow> nat" where
  "NumNonPositive v = length (filter (\<lambda>vi. vi \<le> 0) v)"

text \<open>\<open>v *= alpha\<close> and \<open>v -= w\<close> on vectors.\<close>

definition vscale :: "Vec \<Rightarrow> real \<Rightarrow> Vec" where
  "vscale v alpha = map (\<lambda>vi. vi * alpha) v"

definition vsub :: "Vec \<Rightarrow> Vec \<Rightarrow> Vec" where
  "vsub v w = map2 (\<lambda>vi wi. vi - wi) v w"

section \<open>The infeasible path-following solver (src/optimization/solvers/LP/direct/IPM/IPF.cpp)\<close>

datatype KKTSystem = FULL_KKT | AUGMENTED_KKT | NORMAL_KKT

text \<open>
  The fields of \<open>IPFCtrl\<close> that the solver itself reads (\<open>regPrimal\<close> and
  \<open>regDual\<close> are \<open>qsdCtrl.regPrimal\<close> and \<open>qsdCtrl.regDual\<close>). The flag \<open>print\<close>
  only produces output; the rest of \<open>qsdCtrl\<close> and \<open>lineSearchCtrl\<close> are handed
  on to the collaborators and are part of them here.
\<close>

record IPFCtrl =
  primalInit :: bool
  dualInit :: bool
  centering :: real
  system :: KKTSystem
  maxIts :: int
  targetTol :: real
  minTol :: real
  equilibrate :: bool
  regPrimal :: real
  regDual :: real

text \<open>
  The errors that \<open>IPF\<close> raises: the \<open>LogicError\<close> of the cone guard with its two
  counts, the \<open>RuntimeError\<close> of the exhausted iteration budget, and the
  \<open>RuntimeError\<close> "Could not achieve minimum tolerance". The branch
  \<open>LogicError("Invalid KKT system choice")\<close> needs a value outside the enumeration
  and has no counterpart.
\<close>

datatype error =
    NonPositiveEntries nat nat
  | MaxItsExceeded
  | MinTolNotAchieved

text \<open>
  The collaborators whose code is outside the sources at hand are parameters of the
  model. \<open>symm_solve_Overwrite\<close> returns \<open>None\<close> when the factorization or the
  solve throws.
\<close>

record Collab =
  GeomEquil :: "real Matrix \<Rightarrow> real Matrix \<times> Vec \<times> Vec"
  Initialize :: "real Matrix \<Rightarrow> Vec \<Rightarrow> Vec \<Rightarrow> Vec \<Rightarrow> Vec \<Rightarrow> Vec \<Rightarrow> bool \<Rightarrow> bool \<Rightarrow> bool
                 \<Rightarrow> Vec \<times> Vec \<times> Vec"
  KKT :: "real Matrix \<Rightarrow> Vec \<Rightarrow> Vec \<Rightarrow> real Matrix"
  KKTRHS :: "Vec \<Rightarrow> Vec \<Rightarrow> Vec \<Rightarrow> Vec \<Rightarrow> Vec"
  ExpandSolution :: "nat \<Rightarrow> nat \<Rightarrow> Vec \<Rightarrow> Vec \<times> Vec \<times> Vec"
  AugmentedKKT :: "real Matrix \<Rightarrow> Vec \<Rightarrow> Vec \<Rightarrow> real Matrix"
  AugmentedKKTRHS :: "Vec \<Rightarrow> Vec \<Rightarrow> Vec \<Rightarrow> Vec \<Rightarrow> Vec"
  ExpandAugmentedSolution :: "Vec \<Rightarrow> Vec \<Rightarrow> Vec \<Rightarrow> Vec \<Rightarrow> Vec \<times> Vec \<times> Vec"
  NormalKKT :: "real Matrix \<Rightarrow> Vec \<Rightarrow> Vec \<Rightarrow> real Matrix"
  NormalKKTRHS :: "real Matrix \<Rightarrow> Vec \<Rightarrow> Vec \<Rightarrow> Vec \<Rightarrow> Vec \<Rightarrow> Vec \<Rightarrow> Vec"
  ExpandNormalSolution :: "real Matrix \<Rightarrow> Vec \<Rightarrow> Vec \<Rightarrow> Vec \<Rightarrow> Vec \<Rightarrow> Vec \<Rightarrow> Vec
                           \<Rightarrow> Vec \<times> Vec \<times> Vec"
  symm_solve_Overwrite :: "real Matrix \<Rightarrow> Vec \<Rightarrow> Vec option"
  MaxStepInPositiveCone :: "Vec \<Rightarrow> Vec \<Rightarrow> real \<Rightarrow> real"
  IPFLineSearch :: "real Matrix \<Rightarrow> Vec \<Rightarrow> Vec \<Rightarrow> Vec \<Rightarrow> Vec \<Rightarrow> Vec \<Rightarrow> Vec \<Rightarrow> Vec \<Rightarrow> Vec
                    \<Rightarrow> real \<Rightarrow> real \<Rightarrow> real \<Rightarrow> real"

type_synonym Iterate = "Vec \<times> Vec \<times> Vec"

text \<open>
  What one pass through the loop body does to the loop: go on with the next
  iteration, leave the loop through \<open>break\<close>, or throw. All three carry the state
  of the loop at that point (the values of \<open>x\<close>, \<open>y\<close>, \<open>z\<close>; in the sparse
  regime also the symbolic analysis): \<open>x\<close>, \<open>y\<close> and \<open>z\<close> are references to the
  caller's vectors and are updated in place, so that an exception leaves the caller
  with their values at the throw.
\<close>

datatype 's LoopStep = Continue 's | Break 's | Throw error 's

text \<open>
  The convergence test of an iteration (the block "Check for convergence"): the
  residuals \<open>rb\<close> and \<open>rc\<close> and the relative error.
\<close>

definition IPF_relError ::
  "real Matrix \<Rightarrow> Vec \<Rightarrow> Vec \<Rightarrow> real \<Rightarrow> real \<Rightarrow> Iterate \<Rightarrow> Vec \<times> Vec \<times> real" where
  "IPF_relError A b c bNrm2 cNrm2 it =
     (case it of (x, y, z) \<Rightarrow>
        let primObj = Dot c x;
            dualObj = - Dot b y;
            objConv = \<bar>primObj - dualObj\<bar> / (1 + \<bar>primObj\<bar>);
            rb = Gemv NORMAL 1 A x 1 (vscale b (- 1));
            rbNrm2 = Nrm2 rb;
            rbConv = rbNrm2 / (1 + bNrm2);
            rc = vsub (Gemv TRANSPOSE 1 A y 1 c) z;
            rcNrm2 = Nrm2 rc;
            rcConv = rcNrm2 / (1 + cNrm2);
            relError = max (max objConv rbConv) rcConv
        in (rb, rc, relError))"

text \<open>
  The block "Take a step in the computed direction", with the test of
  \<open>alpha == 0\<close> that follows the three updates.
\<close>

definition IPF_takeStep ::
  "'k Collab_scheme \<Rightarrow> IPFCtrl \<Rightarrow> real Matrix \<Rightarrow> Vec \<Rightarrow> Vec \<Rightarrow> real \<Rightarrow> real \<Rightarrow> real \<Rightarrow> Iterate
   \<Rightarrow> Vec \<times> Vec \<times> Vec \<Rightarrow> Iterate LoopStep" where
  "IPF_takeStep K ctrl A b c bNrm2 cNrm2 relError it dir =
     (case it of (x, y, z) \<Rightarrow> (case dir of (dx, dy, dz) \<Rightarrow>
        let alphaPrimal = MaxStepInPositiveCone K x dx 1;
            alphaDual = MaxStepInPositiveCone K z dz 1;
            alphaMax = min alphaPrimal alphaDual;
            alpha = IPFLineSearch K A b c x y z dx dy dz
                      (0.99 * alphaMax)
                      (targetTol ctrl * (1 + bNrm2))
                      (targetTol ctrl * (1 + cNrm2));
            x' = Axpy alpha dx x;
            y' = Axpy alpha dy y;
            z' = Axpy alpha dz z
        in if alpha = 0
           then (if relError \<le> minTol ctrl then Break (x', y', z')
                 else Throw MinTolNotAchieved (x', y', z'))
           else Continue (x', y', z')))"

text \<open>The body of the loop of the sequential dense \<open>IPF\<close>.\<close>

definition IPF_iteration ::
  "'k Collab_scheme \<Rightarrow> IPFCtrl \<Rightarrow> real Matrix \<Rightarrow> Vec \<Rightarrow> Vec \<Rightarrow> real \<Rightarrow> real \<Rightarrow> nat \<Rightarrow> nat \<Rightarrow> int
   \<Rightarrow> Iterate \<Rightarrow> Iterate LoopStep" where
  "IPF_iteration K ctrl A b c bNrm2 cNrm2 m n numIts it =
     (case it of (x, y, z) \<Rightarrow>
        let xNumNonPos = NumNonPositive x;
            zNumNonPos = NumNonPositive z
        in if xNumNonPos > 0 \<or> zNumNonPos > 0
           then Throw (NonPositiveEntries xNumNonPos zNumNonPos) (x, y, z)
           else
             let mu = Dot x z / real n
             in case IPF_relError A b c bNrm2 cNrm2 (x, y, z) of (rb, rc, relError) \<Rightarrow>
               (if relError \<le> targetTol ctrl then Break (x, y, z)
               else if numIts = maxIts ctrl \<and> relError > minTol ctrl
               then Throw MaxItsExceeded (x, y, z)
               else
                 let rmu = Shift (DiagonalScale x z) (- centering ctrl * mu)
                 in (case system ctrl of
                   FULL_KKT \<Rightarrow>
                     (let J = KKT K A x z;
                          d = KKTRHS K rc rb rmu z
                      in case symm_solve_Overwrite K J d of
                           None \<Rightarrow>
                             if relError \<le> minTol ctrl then Break (x, y, z)
                             else Throw MinTolNotAchieved (x, y, z)
                         | Some d' \<Rightarrow>
                             IPF_takeStep K ctrl A b c bNrm2 cNrm2 relError (x, y, z)
                               (ExpandSolution K m n d'))
                 | AUGMENTED_KKT \<Rightarrow>
                     (let J = AugmentedKKT K A x z;
                          d = AugmentedKKTRHS K x rc rb rmu
                      in case symm_solve_Overwrite K J d of
                           None \<Rightarrow>
                             if relError \<le> minTol ctrl then Break (x, y, z)
                             else Throw MinTolNotAchieved (x, y, z)
                         | Some d' \<Rightarrow>
                             IPF_takeStep K ctrl A b c bNrm2 cNrm2 relError (x, y, z)
                               (ExpandAugmentedSolution K x z rmu d'))
                 | NORMAL_KKT \<Rightarrow>
                     (let J = NormalKKT K A x z;
                          dy = NormalKKTRHS K A x z rc rb rmu
                      in case symm_solve_Overwrite K J dy of
                           None \<Rightarrow>
                             if relError \<le> minTol ctrl then Break (x, y, z)
                             else Throw MinTolNotAchieved (x, y, z)
                         | Some dy' \<Rightarrow>
                             IPF_takeStep K ctrl A b c bNrm2 cNrm2 relError (x, y, z)
                               (ExpandNormalSolution K A c x z rc rmu dy')))))"

text \<open>
  The loop \<open>for( Int numIts=0; numIts<=ctrl.maxIts; ++numIts )\<close>, entered with the
  counter at \<open>numIts\<close>. An exception leaves \<open>IPF\<close> at once: \<open>Inl\<close> carries the
  error and the values that \<open>x\<close>, \<open>y\<close>, \<open>z\<close> have at the throw. Otherwise the
  values of \<open>x\<close>, \<open>y\<close>, \<open>z\<close> after the loop are returned.
\<close>

function IPF_loop ::
  "'k Collab_scheme \<Rightarrow> IPFCtrl \<Rightarrow> real Matrix \<Rightarrow> Vec \<Rightarrow> Vec \<Rightarrow> real \<Rightarrow> real \<Rightarrow> nat \<Rightarrow> nat \<Rightarrow> int \<Rightarrow> Iterate
   \<Rightarrow> error \<times> Iterate + Iterate" where
  "IPF_loop K ctrl A b c bNrm2 cNrm2 m n numIts it =
     (if numIts \<le> maxIts ctrl
      then (case IPF_iteration K ctrl A b c bNrm2 cNrm2 m n numIts it of
              Throw e it' \<Rightarrow> Inl (e, it')
            | Break it' \<Rightarrow> Inr it'
            | Continue it' \<Rightarrow> IPF_loop K ctrl A b c bNrm2 cNrm2 m n (numIts + 1) it')
      else Inr it)"
  by pat_completeness auto
termination
  by (relation "measure (\<lambda>(K, ctrl, A, b, c, bNrm2, cNrm2, m, n, numIts, it).
                   nat (maxIts ctrl + 1 - numIts))") auto

declare IPF_loop.simps [simp del]

text \<open>
  The scaling of the caller's \<open>x\<close>, \<open>y\<close>, \<open>z\<close> before the loop and the block
  "Unequilibrate the LP" after it.
\<close>

definition equilibrate_iterate :: "IPFCtrl \<Rightarrow> Vec \<Rightarrow> Vec \<Rightarrow> Iterate \<Rightarrow> Iterate" where
  "equilibrate_iterate ctrl dRow dCol it =
     (case it of (x, y, z) \<Rightarrow>
        let x' = (if primalInit ctrl then DiagonalScale dCol x else x);
            y' = (if dualInit ctrl then DiagonalScale dRow y else y);
            z' = (if dualInit ctrl then DiagonalSolve dCol z else z)
        in (x', y', z'))"

definition unequilibrate_iterate :: "Vec \<Rightarrow> Vec \<Rightarrow> Iterate \<Rightarrow> Iterate" where
  "unequilibrate_iterate dRow dCol it =
     (case it of (x, y, z) \<Rightarrow>
        (DiagonalSolve dCol x, DiagonalSolve dRow y, DiagonalScale dCol z))"

text \<open>
  The sequential dense \<open>IPF\<close>. What it returns is what the caller finds in \<open>x\<close>,
  \<open>y\<close>, \<open>z\<close> afterwards: after a normal exit of the loop the result of the block
  "Unequilibrate the LP"; after an exception, which skips that block, the values at
  the throw together with the error.
\<close>

definition IPF ::
  "'k Collab_scheme \<Rightarrow> real Matrix \<Rightarrow> Vec \<Rightarrow> Vec \<Rightarrow> Iterate \<Rightarrow> IPFCtrl \<Rightarrow> error \<times> Iterate + Iterate" where
  "IPF K APre bPre cPre it ctrl =
     (let m = Height APre;
          n = Width APre;
          (A, b, c, it0, dRow, dCol) =
            (if equilibrate ctrl
             then (case GeomEquil K APre of (A, dRow, dCol) \<Rightarrow>
                     (A, DiagonalSolve dRow bPre, DiagonalSolve dCol cPre,
                      equilibrate_iterate ctrl dRow dCol it, dRow, dCol))
             else (APre, bPre, cPre, it, Ones m, Ones n));
          bNrm2 = Nrm2 b;
          cNrm2 = Nrm2 c;
          standardShift = True;
          it1 = (case it0 of (x, y, z) \<Rightarrow>
                   Initialize K A b c x y z (primalInit ctrl) (dualInit ctrl) standardShift)
      in case IPF_loop K ctrl A b c bNrm2 cNrm2 m n 0 it1 of
           Inl (e, it2) \<Rightarrow> Inl (e, it2)
         | Inr it2 \<Rightarrow>
             Inr (if equilibrate ctrl then unequilibrate_iterate dRow dCol it2 else it2))"

subsection \<open>The sequential sparse regime\<close>

text \<open>
  The symbolic analysis of the sparse factorization: the variables \<open>map\<close>,
  \<open>invMap\<close>, \<open>rootSep\<close> and \<open>info\<close> of \<open>IPF\<close>. Separator trees, node
  information and fronts belong to the factorization subsystem and stay abstract.
\<close>

type_synonym ('sep, 'info) Symbolic = "nat list \<times> nat list \<times> 'sep \<times> 'info"

text \<open>
  The collaborators of the sparse regime. \<open>NestedDissection\<close> reads the graph of
  the matrix it is given; \<open>LDL\<close>, \<open>SolveAfter\<close> and
  \<open>SolveWithIterativeRefinement\<close> return \<open>None\<close> when they throw;
  \<open>emptySymbolic\<close> is the default-constructed analysis; \<open>PullDist\<close> is the
  \<open>Pull\<close> of a distributed front, which also takes the separator tree. \<open>Multiply\<close>, the sparse
  analogue of \<open>Gemv\<close>, shares the model of \<open>Gemv\<close>.
\<close>

record ('sep, 'info, 'front) SparseCollab = Collab +
  NestedDissection :: "real Matrix \<Rightarrow> nat list \<times> 'sep \<times> 'info"
  InvertMap :: "nat list \<Rightarrow> nat list"
  SymmetricGeomEquil :: "real Matrix \<Rightarrow> real Matrix \<times> Vec"
  UpdateRealPartOfDiagonal :: "real Matrix \<Rightarrow> real \<Rightarrow> Vec \<Rightarrow> real Matrix"
  Pull :: "real Matrix \<Rightarrow> nat list \<Rightarrow> 'info \<Rightarrow> 'front"
  PullDist :: "real Matrix \<Rightarrow> nat list \<Rightarrow> 'sep \<Rightarrow> 'info \<Rightarrow> 'front"
  LDL :: "'info \<Rightarrow> 'front \<Rightarrow> 'front option"
  SolveAfter :: "real Matrix \<Rightarrow> Vec \<Rightarrow> Vec \<Rightarrow> nat list \<Rightarrow> 'info \<Rightarrow> 'front \<Rightarrow> Vec \<Rightarrow> Vec option"
  SolveWithIterativeRefinement :: "real Matrix \<Rightarrow> nat list \<Rightarrow> 'info \<Rightarrow> 'front \<Rightarrow> Vec \<Rightarrow> Vec option"
  InitializeSparse :: "real Matrix \<Rightarrow> Vec \<Rightarrow> Vec \<Rightarrow> Iterate \<Rightarrow> ('sep, 'info) Symbolic
                       \<Rightarrow> bool \<Rightarrow> bool \<Rightarrow> bool \<Rightarrow> Iterate \<times> ('sep, 'info) Symbolic"
  emptySymbolic :: "('sep, 'info) Symbolic"

text \<open>\<open>NestedDissection\<close> followed by \<open>InvertMap\<close>.\<close>

definition analyse ::
  "('sep, 'info, 'front, 'k) SparseCollab_scheme \<Rightarrow> real Matrix \<Rightarrow> ('sep, 'info) Symbolic" where
  "analyse K J =
     (case NestedDissection K J of (map', rootSep, info) \<Rightarrow>
        (map', InvertMap K map', rootSep, info))"

text \<open>The step of the iterate, with the symbolic analysis carried along.\<close>

definition with_sym :: "'y \<Rightarrow> Iterate LoopStep \<Rightarrow> (Iterate \<times> 'y) LoopStep" where
  "with_sym symb step =
     (case step of
        Continue it \<Rightarrow> Continue (it, symb)
      | Break it \<Rightarrow> Break (it, symb)
      | Throw e it \<Rightarrow> Throw e (it, symb))"

text \<open>The body of the loop of the sequential sparse \<open>IPF\<close>.\<close>

definition IPF_sparse_iteration ::
  "('sep, 'info, 'front, 'k) SparseCollab_scheme \<Rightarrow> IPFCtrl \<Rightarrow> real Matrix \<Rightarrow> Vec \<Rightarrow> Vec
   \<Rightarrow> real \<Rightarrow> real \<Rightarrow> nat \<Rightarrow> nat \<Rightarrow> Vec \<Rightarrow> int \<Rightarrow> Iterate \<times> ('sep, 'info) Symbolic
   \<Rightarrow> (Iterate \<times> ('sep, 'info) Symbolic) LoopStep" where
  "IPF_sparse_iteration K ctrl A b c bNrm2 cNrm2 m n reg numIts st =
     (case st of ((x, y, z), symb) \<Rightarrow>
        let xNumNonPos = NumNonPositive x;
            zNumNonPos = NumNonPositive z
        in if xNumNonPos > 0 \<or> zNumNonPos > 0
           then Throw (NonPositiveEntries xNumNonPos zNumNonPos) ((x, y, z), symb)
           else
             let mu = Dot x z / real n
             in case IPF_relError A b c bNrm2 cNrm2 (x, y, z) of (rb, rc, relError) \<Rightarrow>
               (if relError \<le> targetTol ctrl then Break ((x, y, z), symb)
               else if numIts = maxIts ctrl \<and> relError > minTol ctrl
               then Throw MaxItsExceeded ((x, y, z), symb)
               else
                 let rmu = Shift (DiagonalScale x z) (- centering ctrl * mu)
                 in (case system ctrl of
                   FULL_KKT \<Rightarrow>
                     (let JOrig = KKT K A x z;
                          (J, dInner) = SymmetricGeomEquil K JOrig;
                          J = UpdateRealPartOfDiagonal K J 1 reg;
                          symb = (if numIts = 0 then analyse K J else symb)
                      in case symb of (map', invMap, rootSep, info) \<Rightarrow>
                        (let JFront = Pull K J map' info;
                             d = KKTRHS K rc rb rmu z
                         in case Option.bind (LDL K info JFront)
                                   (\<lambda>JFront. SolveAfter K JOrig reg dInner invMap info JFront d) of
                              None \<Rightarrow>
                                if relError \<le> minTol ctrl then Break ((x, y, z), symb)
                                else Throw MinTolNotAchieved ((x, y, z), symb)
                            | Some d' \<Rightarrow>
                                with_sym symb
                                  (IPF_takeStep K ctrl A b c bNrm2 cNrm2 relError (x, y, z)
                                     (ExpandSolution K m n d'))))
                 | AUGMENTED_KKT \<Rightarrow>
                     (let JOrig = AugmentedKKT K A x z;
                          (J, dInner) = SymmetricGeomEquil K JOrig;
                          J = UpdateRealPartOfDiagonal K J 1 reg;
                          symb = (if primalInit ctrl \<and> dualInit ctrl \<and> numIts = 0
                                 then analyse K J else symb)
                      in case symb of (map', invMap, rootSep, info) \<Rightarrow>
                        (let JFront = Pull K J map' info;
                             d = AugmentedKKTRHS K x rc rb rmu
                         in case Option.bind (LDL K info JFront)
                                   (\<lambda>JFront. SolveAfter K JOrig reg dInner invMap info JFront d) of
                              None \<Rightarrow>
                                if relError \<le> minTol ctrl then Break ((x, y, z), symb)
                                else Throw MinTolNotAchieved ((x, y, z), symb)
                            | Some d' \<Rightarrow>
                                with_sym symb
                                  (IPF_takeStep K ctrl A b c bNrm2 cNrm2 relError (x, y, z)
                                     (ExpandAugmentedSolution K x z rmu d'))))
                 | NORMAL_KKT \<Rightarrow>
                     (let J = NormalKKT K A x z;
                          symb = (if numIts = 0 then analyse K J else symb)
                      in case symb of (map', invMap, rootSep, info) \<Rightarrow>
                        (let JFront = Pull K J map' info;
                             dy = NormalKKTRHS K A x z rc rb rmu
                         in case Option.bind (LDL K info JFront)
                                   (\<lambda>JFront. SolveWithIterativeRefinement K J invMap info JFront dy) of
                              None \<Rightarrow>
                                if relError \<le> minTol ctrl then Break ((x, y, z), symb)
                                else Throw MinTolNotAchieved ((x, y, z), symb)
                            | Some dy' \<Rightarrow>
                                with_sym symb
                                  (IPF_takeStep K ctrl A b c bNrm2 cNrm2 relError (x, y, z)
                                     (ExpandNormalSolution K A c x z rc rmu dy')))))))"

function IPF_sparse_loop ::
  "('sep, 'info, 'front, 'k) SparseCollab_scheme \<Rightarrow> IPFCtrl \<Rightarrow> real Matrix \<Rightarrow> Vec \<Rightarrow> Vec
   \<Rightarrow> real \<Rightarrow> real \<Rightarrow> nat \<Rightarrow> nat \<Rightarrow> Vec \<Rightarrow> int \<Rightarrow> Iterate \<times> ('sep, 'info) Symbolic
   \<Rightarrow> error \<times> (Iterate \<times> ('sep, 'info) Symbolic) + Iterate \<times> ('sep, 'info) Symbolic" where
  "IPF_sparse_loop K ctrl A b c bNrm2 cNrm2 m n reg numIts st =
     (if numIts \<le> maxIts ctrl
      then (case IPF_sparse_iteration K ctrl A b c bNrm2 cNrm2 m n reg numIts st of
              Throw e st' \<Rightarrow> Inl (e, st')
            | Break st' \<Rightarrow> Inr st'
            | Continue st' \<Rightarrow>
                IPF_sparse_loop K ctrl A b c bNrm2 cNrm2 m n reg (numIts + 1) st')
      else Inr st)"
  by pat_completeness auto
termination
  by (relation "measure (\<lambda>(K, ctrl, A, b, c, bNrm2, cNrm2, m, n, reg, numIts, st).
                   nat (maxIts ctrl + 1 - numIts))") auto

declare IPF_sparse_loop.simps [simp del]

text \<open>
  The sequential sparse \<open>IPF\<close>. The analysis that \<open>Initialize\<close> computes is kept
  only for \<open>AUGMENTED_KKT\<close>; otherwise it goes to local variables of their own and
  the loop starts from the default-constructed analysis.
\<close>

definition IPF_sparse ::
  "('sep, 'info, 'front, 'k) SparseCollab_scheme \<Rightarrow> real Matrix \<Rightarrow> Vec \<Rightarrow> Vec \<Rightarrow> Iterate
   \<Rightarrow> IPFCtrl \<Rightarrow> error \<times> Iterate + Iterate" where
  "IPF_sparse K APre bPre cPre it ctrl =
     (let m = Height APre;
          n = Width APre;
          (A, b, c, it0, dRow, dCol) =
            (if equilibrate ctrl
             then (case GeomEquil K APre of (A, dRow, dCol) \<Rightarrow>
                     (A, DiagonalSolve dRow bPre, DiagonalSolve dCol cPre,
                      equilibrate_iterate ctrl dRow dCol it, dRow, dCol))
             else (APre, bPre, cPre, it, Ones m, Ones n));
          bNrm2 = Nrm2 b;
          cNrm2 = Nrm2 c;
          standardShift = True;
          (it1, symb) =
            (if system ctrl = AUGMENTED_KKT
             then InitializeSparse K A b c it0 (emptySymbolic K)
                    (primalInit ctrl) (dualInit ctrl) standardShift
             else (fst (InitializeSparse K A b c it0 (emptySymbolic K)
                          (primalInit ctrl) (dualInit ctrl) standardShift),
                   emptySymbolic K));
          reg = (case system ctrl of
                   FULL_KKT \<Rightarrow>
                     map (\<lambda>i. if i < n then regPrimal ctrl else - regDual ctrl) [0..<m + 2 * n]
                 | AUGMENTED_KKT \<Rightarrow>
                     map (\<lambda>i. if i < n then regPrimal ctrl else - regDual ctrl) [0..<n + m]
                 | NORMAL_KKT \<Rightarrow> [])
      in case IPF_sparse_loop K ctrl A b c bNrm2 cNrm2 m n reg 0 (it1, symb) of
           Inl (e, (it2, symb')) \<Rightarrow> Inl (e, it2)
         | Inr (it2, symb') \<Rightarrow>
             Inr (if equilibrate ctrl then unequilibrate_iterate dRow dCol it2 else it2))"

subsection \<open>The distributed sparse regime\<close>

text \<open>
  The body of the loop of the distributed sparse \<open>IPF\<close>, with the collaborators of
  the distributed types. The metadata of the sparse multiplication that the code
  caches in the first iteration (\<open>metaOrig\<close>, \<open>meta\<close>) serves \<open>Multiply\<close> only and
  is left out.
\<close>

definition IPF_dist_sparse_iteration ::
  "('sep, 'info, 'front, 'k) SparseCollab_scheme \<Rightarrow> IPFCtrl \<Rightarrow> real Matrix \<Rightarrow> Vec \<Rightarrow> Vec
   \<Rightarrow> real \<Rightarrow> real \<Rightarrow> nat \<Rightarrow> nat \<Rightarrow> Vec \<Rightarrow> int \<Rightarrow> Iterate \<times> ('sep, 'info) Symbolic
   \<Rightarrow> (Iterate \<times> ('sep, 'info) Symbolic) LoopStep" where
  "IPF_dist_sparse_iteration K ctrl A b c bNrm2 cNrm2 m n reg numIts st =
     (case st of ((x, y, z), symb) \<Rightarrow>
        let xNumNonPos = NumNonPositive x;
            zNumNonPos = NumNonPositive z
        in if xNumNonPos > 0 \<or> zNumNonPos > 0
           then Throw (NonPositiveEntries xNumNonPos zNumNonPos) ((x, y, z), symb)
           else
             let mu = Dot x z / real n
             in case IPF_relError A b c bNrm2 cNrm2 (x, y, z) of (rb, rc, relError) \<Rightarrow>
               (if relError \<le> targetTol ctrl then Break ((x, y, z), symb)
               else if numIts = maxIts ctrl \<and> relError > minTol ctrl
               then Throw MaxItsExceeded ((x, y, z), symb)
               else
                 let rmu = Shift (DiagonalScale x z) (- centering ctrl * mu)
                 in (case system ctrl of
                   FULL_KKT \<Rightarrow>
                     (let JOrig = KKT K A x z;
                          (J, dInner) = SymmetricGeomEquil K JOrig;
                          J = UpdateRealPartOfDiagonal K J 1 reg;
                          symb = (if numIts = 0 then analyse K J else symb)
                      in case symb of (map', invMap, rootSep, info) \<Rightarrow>
                        (let JFront = PullDist K J map' rootSep info;
                             d = KKTRHS K rc rb rmu z
                         in case Option.bind (LDL K info JFront)
                                   (\<lambda>JFront. SolveAfter K JOrig reg dInner invMap info JFront d) of
                              None \<Rightarrow>
                                if relError \<le> minTol ctrl then Break ((x, y, z), symb)
                                else Throw MinTolNotAchieved ((x, y, z), symb)
                            | Some d' \<Rightarrow>
                                with_sym symb
                                  (IPF_takeStep K ctrl A b c bNrm2 cNrm2 relError (x, y, z)
                                     (ExpandSolution K m n d'))))
                 | AUGMENTED_KKT \<Rightarrow>
                     (let JOrig = AugmentedKKT K A x z;
                          (J, dInner) = SymmetricGeomEquil K JOrig;
                          J = UpdateRealPartOfDiagonal K J 1 reg;
                          symb = (if numIts = 0
                                 then (if primalInit ctrl \<and> dualInit ctrl
                                       then analyse K J else symb)
                                 else symb)
                      in case symb of (map', invMap, rootSep, info) \<Rightarrow>
                        (let JFront = PullDist K J map' rootSep info;
                             d = AugmentedKKTRHS K x rc rb rmu
                         in case Option.bind (LDL K info JFront)
                                   (\<lambda>JFront. SolveAfter K JOrig reg dInner invMap info JFront d) of
                              None \<Rightarrow>
                                if relError \<le> minTol ctrl then Break ((x, y, z), symb)
                                else Throw MinTolNotAchieved ((x, y, z), symb)
                            | Some d' \<Rightarrow>
                                with_sym symb
                                  (IPF_takeStep K ctrl A b c bNrm2 cNrm2 relError (x, y, z)
                                     (ExpandAugmentedSolution K x z rmu d'))))
                 | NORMAL_KKT \<Rightarrow>
                     (let J = NormalKKT K A x z;
                          symb = (if numIts = 0 then analyse K J else symb)
                      in case symb of (map', invMap, rootSep, info) \<Rightarrow>
                        (let JFront = PullDist K J map' rootSep info;
                             dy = NormalKKTRHS K A x z rc rb rmu
                         in case Option.bind (LDL K info JFront)
                                   (\<lambda>JFront. SolveWithIterativeRefinement K J invMap info JFront dy) of
                              None \<Rightarrow>
                                if relError \<le> minTol ctrl then Break ((x, y, z), symb)
                                else Throw MinTolNotAchieved ((x, y, z), symb)
                            | Some dy' \<Rightarrow>
                                with_sym symb
                                  (IPF_takeStep K ctrl A b c bNrm2 cNrm2 relError (x, y, z)
                                     (ExpandNormalSolution K A c x z rc rmu dy')))))))"

function IPF_dist_sparse_loop ::
  "('sep, 'info, 'front, 'k) SparseCollab_scheme \<Rightarrow> IPFCtrl \<Rightarrow> real Matrix \<Rightarrow> Vec \<Rightarrow> Vec
   \<Rightarrow> real \<Rightarrow> real \<Rightarrow> nat \<Rightarrow> nat \<Rightarrow> Vec \<Rightarrow> int \<Rightarrow> Iterate \<times> ('sep, 'info) Symbolic
   \<Rightarrow> error \<times> (Iterate \<times> ('sep, 'info) Symbolic) + Iterate \<times> ('sep, 'info) Symbolic" where
  "IPF_dist_sparse_loop K ctrl A b c bNrm2 cNrm2 m n reg numIts st =
     (if numIts \<le> maxIts ctrl
      then (case IPF_dist_sparse_iteration K ctrl A b c bNrm2 cNrm2 m n reg numIts st of
              Throw e st' \<Rightarrow> Inl (e, st')
            | Break st' \<Rightarrow> Inr st'
            | Continue st' \<Rightarrow>
                IPF_dist_sparse_loop K ctrl A b c bNrm2 cNrm2 m n reg (numIts + 1) st')
      else Inr st)"
  by pat_completeness auto
termination
  by (relation "measure (\<lambda>(K, ctrl, A, b, c, bNrm2, cNrm2, m, n, reg, numIts, st).
                   nat (maxIts ctrl + 1 - numIts))") auto

declare IPF_dist_sparse_loop.simps [simp del]

subsection \<open>Auxiliary notions for the statements about IPF\<close>

text \<open>
  The products \<open>A x\<close> and \<open>A\<^sup>T y\<close> and the sum of two vectors, in which the
  residuals of the convergence test are stated.
\<close>

definition mat_vec :: "real Matrix \<Rightarrow> Vec \<Rightarrow> Vec" where
  "mat_vec A x = map (\<lambda>i. Dot (row A i) x) [0..<Height A]"

definition matT_vec :: "real Matrix \<Rightarrow> Vec \<Rightarrow> Vec" where
  "matT_vec A y = map (\<lambda>j. Dot (col A j) y) [0..<Width A]"

definition vadd :: "Vec \<Rightarrow> Vec \<Rightarrow> Vec" where
  "vadd v w = map2 (\<lambda>vi wi. vi + wi) v w"

text \<open>The centering residual \<open>r_mu := x o z - tau e\<close> of an iteration.\<close>

definition IPF_rmu :: "IPFCtrl \<Rightarrow> nat \<Rightarrow> Vec \<Rightarrow> Vec \<Rightarrow> Vec" where
  "IPF_rmu ctrl n x z = Shift (DiagonalScale x z) (- centering ctrl * (Dot x z / real n))"

text \<open>
  The search direction of an iteration of the dense regime as a value, following the
  three branches "Construct the KKT system / Solve for the direction" of the loop body:
  \<open>None\<close> when \<open>symm_solve::Overwrite\<close> throws.
\<close>

definition IPF_direction ::
  "'k Collab_scheme \<Rightarrow> IPFCtrl \<Rightarrow> real Matrix \<Rightarrow> Vec \<Rightarrow> nat \<Rightarrow> nat \<Rightarrow> Vec \<Rightarrow> Vec \<Rightarrow> Vec \<Rightarrow> Vec \<Rightarrow> Vec
   \<Rightarrow> (Vec \<times> Vec \<times> Vec) option" where
  "IPF_direction K ctrl A c m n x z rc rb rmu =
     (case system ctrl of
        FULL_KKT \<Rightarrow>
          map_option (ExpandSolution K m n)
            (symm_solve_Overwrite K (KKT K A x z) (KKTRHS K rc rb rmu z))
      | AUGMENTED_KKT \<Rightarrow>
          map_option (ExpandAugmentedSolution K x z rmu)
            (symm_solve_Overwrite K (AugmentedKKT K A x z) (AugmentedKKTRHS K x rc rb rmu))
      | NORMAL_KKT \<Rightarrow>
          map_option (ExpandNormalSolution K A c x z rc rmu)
            (symm_solve_Overwrite K (NormalKKT K A x z) (NormalKKTRHS K A x z rc rb rmu)))"

text \<open>
  The same for the sequential sparse regime, together with the symbolic analysis
  that the iteration leaves behind: the direction is \<open>None\<close> when \<open>LDL\<close> or the
  solve after it throws.
\<close>

definition IPF_sparse_direction ::
  "('sep, 'info, 'front, 'k) SparseCollab_scheme \<Rightarrow> IPFCtrl \<Rightarrow> real Matrix \<Rightarrow> Vec \<Rightarrow> nat \<Rightarrow> nat
   \<Rightarrow> Vec \<Rightarrow> int \<Rightarrow> Vec \<Rightarrow> Vec \<Rightarrow> Vec \<Rightarrow> Vec \<Rightarrow> Vec \<Rightarrow> ('sep, 'info) Symbolic
   \<Rightarrow> ('sep, 'info) Symbolic \<times> (Vec \<times> Vec \<times> Vec) option" where
  "IPF_sparse_direction K ctrl A c m n reg numIts x z rc rb rmu symb =
     (case system ctrl of
        FULL_KKT \<Rightarrow>
          (let JOrig = KKT K A x z;
               (J, dInner) = SymmetricGeomEquil K JOrig;
               J = UpdateRealPartOfDiagonal K J 1 reg;
               symb = (if numIts = 0 then analyse K J else symb)
           in case symb of (map', invMap, rootSep, info) \<Rightarrow>
                (symb,
                 map_option (ExpandSolution K m n)
                   (Option.bind (LDL K info (Pull K J map' info))
                      (\<lambda>JFront. SolveAfter K JOrig reg dInner invMap info JFront
                                   (KKTRHS K rc rb rmu z)))))
      | AUGMENTED_KKT \<Rightarrow>
          (let JOrig = AugmentedKKT K A x z;
               (J, dInner) = SymmetricGeomEquil K JOrig;
               J = UpdateRealPartOfDiagonal K J 1 reg;
               symb = (if primalInit ctrl \<and> dualInit ctrl \<and> numIts = 0
                       then analyse K J else symb)
           in case symb of (map', invMap, rootSep, info) \<Rightarrow>
                (symb,
                 map_option (ExpandAugmentedSolution K x z rmu)
                   (Option.bind (LDL K info (Pull K J map' info))
                      (\<lambda>JFront. SolveAfter K JOrig reg dInner invMap info JFront
                                   (AugmentedKKTRHS K x rc rb rmu)))))
      | NORMAL_KKT \<Rightarrow>
          (let J = NormalKKT K A x z;
               symb = (if numIts = 0 then analyse K J else symb)
           in case symb of (map', invMap, rootSep, info) \<Rightarrow>
                (symb,
                 map_option (ExpandNormalSolution K A c x z rc rmu)
                   (Option.bind (LDL K info (Pull K J map' info))
                      (\<lambda>JFront. SolveWithIterativeRefinement K J invMap info JFront
                                   (NormalKKTRHS K A x z rc rb rmu))))))"

text \<open>
  The matrix \<open>J\<close> whose graph an iteration of the sequential sparse regime hands to
  \<open>NestedDissection\<close>.
\<close>

definition IPF_sparse_J ::
  "('sep, 'info, 'front, 'k) SparseCollab_scheme \<Rightarrow> IPFCtrl \<Rightarrow> real Matrix \<Rightarrow> Vec \<Rightarrow> Vec \<Rightarrow> Vec
   \<Rightarrow> real Matrix" where
  "IPF_sparse_J K ctrl A x z reg =
     (case system ctrl of
        FULL_KKT \<Rightarrow>
          UpdateRealPartOfDiagonal K (fst (SymmetricGeomEquil K (KKT K A x z))) 1 reg
      | AUGMENTED_KKT \<Rightarrow>
          UpdateRealPartOfDiagonal K (fst (SymmetricGeomEquil K (AugmentedKKT K A x z))) 1 reg
      | NORMAL_KKT \<Rightarrow> NormalKKT K A x z)"

text \<open>The same for the distributed sparse regime.\<close>

definition IPF_dist_sparse_direction ::
  "('sep, 'info, 'front, 'k) SparseCollab_scheme \<Rightarrow> IPFCtrl \<Rightarrow> real Matrix \<Rightarrow> Vec \<Rightarrow> nat \<Rightarrow> nat
   \<Rightarrow> Vec \<Rightarrow> int \<Rightarrow> Vec \<Rightarrow> Vec \<Rightarrow> Vec \<Rightarrow> Vec \<Rightarrow> Vec \<Rightarrow> ('sep, 'info) Symbolic
   \<Rightarrow> ('sep, 'info) Symbolic \<times> (Vec \<times> Vec \<times> Vec) option" where
  "IPF_dist_sparse_direction K ctrl A c m n reg numIts x z rc rb rmu symb =
     (case system ctrl of
        FULL_KKT \<Rightarrow>
          (let JOrig = KKT K A x z;
               (J, dInner) = SymmetricGeomEquil K JOrig;
               J = UpdateRealPartOfDiagonal K J 1 reg;
               symb = (if numIts = 0 then analyse K J else symb)
           in case symb of (map', invMap, rootSep, info) \<Rightarrow>
                (symb,
                 map_option (ExpandSolution K m n)
                   (Option.bind (LDL K info (PullDist K J map' rootSep info))
                      (\<lambda>JFront. SolveAfter K JOrig reg dInner invMap info JFront
                                   (KKTRHS K rc rb rmu z)))))
      | AUGMENTED_KKT \<Rightarrow>
          (let JOrig = AugmentedKKT K A x z;
               (J, dInner) = SymmetricGeomEquil K JOrig;
               J = UpdateRealPartOfDiagonal K J 1 reg;
               symb = (if numIts = 0
                       then (if primalInit ctrl \<and> dualInit ctrl then analyse K J else symb)
                       else symb)
           in case symb of (map', invMap, rootSep, info) \<Rightarrow>
                (symb,
                 map_option (ExpandAugmentedSolution K x z rmu)
                   (Option.bind (LDL K info (PullDist K J map' rootSep info))
                      (\<lambda>JFront. SolveAfter K JOrig reg dInner invMap info JFront
                                   (AugmentedKKTRHS K x rc rb rmu)))))
      | NORMAL_KKT \<Rightarrow>
          (let J = NormalKKT K A x z;
               symb = (if numIts = 0 then analyse K J else symb)
           in case symb of (map', invMap, rootSep, info) \<Rightarrow>
                (symb,
                 map_option (ExpandNormalSolution K A c x z rc rmu)
                   (Option.bind (LDL K info (PullDist K J map' rootSep info))
                      (\<lambda>JFront. SolveWithIterativeRefinement K J invMap info JFront
                                   (NormalKKTRHS K A x z rc rb rmu))))))"

text \<open>
  The values of \<open>x\<close>, \<open>y\<close>, \<open>z\<close> after the three updates \<open>Axpy( alpha, dx, x )\<close>,
  \<open>Axpy( alpha, dy, y )\<close>, \<open>Axpy( alpha, dz, z )\<close> of an iteration.
\<close>

definition IPF_stepped ::
  "'k Collab_scheme \<Rightarrow> IPFCtrl \<Rightarrow> real Matrix \<Rightarrow> Vec \<Rightarrow> Vec \<Rightarrow> real \<Rightarrow> real \<Rightarrow> Iterate
   \<Rightarrow> Vec \<times> Vec \<times> Vec \<Rightarrow> Iterate" where
  "IPF_stepped K ctrl A b c bNrm2 cNrm2 it dir =
     (case it of (x, y, z) \<Rightarrow> (case dir of (dx, dy, dz) \<Rightarrow>
        let alpha = IPFLineSearch K A b c x y z dx dy dz
                      (0.99 * min (MaxStepInPositiveCone K x dx 1) (MaxStepInPositiveCone K z dz 1))
                      (targetTol ctrl * (1 + bNrm2))
                      (targetTol ctrl * (1 + cNrm2))
        in (Axpy alpha dx x, Axpy alpha dy y, Axpy alpha dz z)))"

text \<open>
  The number of passes through the body of the loop of the dense \<open>IPF\<close>, when the loop
  is entered with the counter at \<open>numIts\<close>.
\<close>

function IPF_passes ::
  "'k Collab_scheme \<Rightarrow> IPFCtrl \<Rightarrow> real Matrix \<Rightarrow> Vec \<Rightarrow> Vec \<Rightarrow> real \<Rightarrow> real \<Rightarrow> nat \<Rightarrow> nat \<Rightarrow> int \<Rightarrow> Iterate
   \<Rightarrow> nat" where
  "IPF_passes K ctrl A b c bNrm2 cNrm2 m n numIts it =
     (if numIts \<le> maxIts ctrl
      then (case IPF_iteration K ctrl A b c bNrm2 cNrm2 m n numIts it of
              Throw e it' \<Rightarrow> 1
            | Break it' \<Rightarrow> 1
            | Continue it' \<Rightarrow> 1 + IPF_passes K ctrl A b c bNrm2 cNrm2 m n (numIts + 1) it')
      else 0)"
  by pat_completeness auto
termination
  by (relation "measure (\<lambda>(K, ctrl, A, b, c, bNrm2, cNrm2, m, n, numIts, it).
                   nat (maxIts ctrl + 1 - numIts))") auto

declare IPF_passes.simps [simp del]

text \<open>
  What an iteration of the sequential sparse regime does with a symbolic analysis
  \<open>symb = (map, invMap, rootSep, info)\<close>: the \<open>Pull\<close> of \<open>J\<close> into the fronts, the
  numeric factorization \<open>LDL\<close> and the solve after it, as in \<open>IPF_sparse_direction\<close>
  but with the analysis as a parameter and without the calls of \<open>NestedDissection\<close>;
  \<open>None\<close> when \<open>LDL\<close> or the solve throws.
\<close>

definition IPF_sparse_solve ::
  "('sep, 'info, 'front, 'k) SparseCollab_scheme \<Rightarrow> IPFCtrl \<Rightarrow> real Matrix \<Rightarrow> Vec \<Rightarrow> nat \<Rightarrow> nat
   \<Rightarrow> Vec \<Rightarrow> Vec \<Rightarrow> Vec \<Rightarrow> Vec \<Rightarrow> Vec \<Rightarrow> Vec \<Rightarrow> ('sep, 'info) Symbolic
   \<Rightarrow> (Vec \<times> Vec \<times> Vec) option" where
  "IPF_sparse_solve K ctrl A c m n reg x z rc rb rmu symb =
     (case symb of (map', invMap, rootSep, info) \<Rightarrow>
        (case system ctrl of
           FULL_KKT \<Rightarrow>
             (let JOrig = KKT K A x z;
                  (J, dInner) = SymmetricGeomEquil K JOrig;
                  J = UpdateRealPartOfDiagonal K J 1 reg
              in map_option (ExpandSolution K m n)
                   (Option.bind (LDL K info (Pull K J map' info))
                      (\<lambda>JFront. SolveAfter K JOrig reg dInner invMap info JFront
                                   (KKTRHS K rc rb rmu z))))
         | AUGMENTED_KKT \<Rightarrow>
             (let JOrig = AugmentedKKT K A x z;
                  (J, dInner) = SymmetricGeomEquil K JOrig;
                  J = UpdateRealPartOfDiagonal K J 1 reg
              in map_option (ExpandAugmentedSolution K x z rmu)
                   (Option.bind (LDL K info (Pull K J map' info))
                      (\<lambda>JFront. SolveAfter K JOrig reg dInner invMap info JFront
                                   (AugmentedKKTRHS K x rc rb rmu))))
         | NORMAL_KKT \<Rightarrow>
             (let J = NormalKKT K A x z
              in map_option (ExpandNormalSolution K A c x z rc rmu)
                   (Option.bind (LDL K info (Pull K J map' info))
                      (\<lambda>JFront. SolveWithIterativeRefinement K J invMap info JFront
                                   (NormalKKTRHS K A x z rc rb rmu))))))"

text \<open>The same for the distributed sparse regime.\<close>

definition IPF_dist_sparse_solve ::
  "('sep, 'info, 'front, 'k) SparseCollab_scheme \<Rightarrow> IPFCtrl \<Rightarrow> real Matrix \<Rightarrow> Vec \<Rightarrow> nat \<Rightarrow> nat
   \<Rightarrow> Vec \<Rightarrow> Vec \<Rightarrow> Vec \<Rightarrow> Vec \<Rightarrow> Vec \<Rightarrow> Vec \<Rightarrow> ('sep, 'info) Symbolic
   \<Rightarrow> (Vec \<times> Vec \<times> Vec) option" where
  "IPF_dist_sparse_solve K ctrl A c m n reg x z rc rb rmu symb =
     (case symb of (map', invMap, rootSep, info) \<Rightarrow>
        (case system ctrl of
           FULL_KKT \<Rightarrow>
             (let JOrig = KKT K A x z;
                  (J, dInner) = SymmetricGeomEquil K JOrig;
                  J = UpdateRealPartOfDiagonal K J 1 reg
              in map_option (ExpandSolution K m n)
                   (Option.bind (LDL K info (PullDist K J map' rootSep info))
                      (\<lambda>JFront. SolveAfter K JOrig reg dInner invMap info JFront
                                   (KKTRHS K rc rb rmu z))))
         | AUGMENTED_KKT \<Rightarrow>
             (let JOrig = AugmentedKKT K A x z;
                  (J, dInner) = SymmetricGeomEquil K JOrig;
                  J = UpdateRealPartOfDiagonal K J 1 reg
              in map_option (ExpandAugmentedSolution K x z rmu)
                   (Option.bind (LDL K info (PullDist K J map' rootSep info))
                      (\<lambda>JFront. SolveAfter K JOrig reg dInner invMap info JFront
                                   (AugmentedKKTRHS K x rc rb rmu))))
         | NORMAL_KKT \<Rightarrow>
             (let J = NormalKKT K A x z
              in map_option (ExpandNormalSolution K A c x z rc rmu)
                   (Option.bind (LDL K info (PullDist K J map' rootSep info))
                      (\<lambda>JFront. SolveWithIterativeRefinement K J invMap info JFront
                                   (NormalKKTRHS K A x z rc rb rmu))))))"

text \<open>
  The state, iterate and symbolic analysis, with which the loop of the sequential
  sparse regime, entered with the counter at 0 and the state \<open>st\<close>, enters the pass in
  which the counter is \<open>k\<close>; \<open>None\<close> when the loop has ended before.
\<close>

fun IPF_sparse_pass ::
  "('sep, 'info, 'front, 'k) SparseCollab_scheme \<Rightarrow> IPFCtrl \<Rightarrow> real Matrix \<Rightarrow> Vec \<Rightarrow> Vec
   \<Rightarrow> real \<Rightarrow> real \<Rightarrow> nat \<Rightarrow> nat \<Rightarrow> Vec \<Rightarrow> nat \<Rightarrow> Iterate \<times> ('sep, 'info) Symbolic
   \<Rightarrow> (Iterate \<times> ('sep, 'info) Symbolic) option" where
  "IPF_sparse_pass K ctrl A b c bNrm2 cNrm2 m n reg 0 st =
     (if 0 \<le> maxIts ctrl then Some st else None)"
| "IPF_sparse_pass K ctrl A b c bNrm2 cNrm2 m n reg (Suc k) st =
     (case IPF_sparse_pass K ctrl A b c bNrm2 cNrm2 m n reg k st of
        None \<Rightarrow> None
      | Some st_k \<Rightarrow>
          (case IPF_sparse_iteration K ctrl A b c bNrm2 cNrm2 m n reg (int k) st_k of
             Continue st' \<Rightarrow> if int (Suc k) \<le> maxIts ctrl then Some st' else None
           | Break st' \<Rightarrow> None
           | Throw e st' \<Rightarrow> None))"

text \<open>The same for the distributed sparse regime.\<close>

fun IPF_dist_sparse_pass ::
  "('sep, 'info, 'front, 'k) SparseCollab_scheme \<Rightarrow> IPFCtrl \<Rightarrow> real Matrix \<Rightarrow> Vec \<Rightarrow> Vec
   \<Rightarrow> real \<Rightarrow> real \<Rightarrow> nat \<Rightarrow> nat \<Rightarrow> Vec \<Rightarrow> nat \<Rightarrow> Iterate \<times> ('sep, 'info) Symbolic
   \<Rightarrow> (Iterate \<times> ('sep, 'info) Symbolic) option" where
  "IPF_dist_sparse_pass K ctrl A b c bNrm2 cNrm2 m n reg 0 st =
     (if 0 \<le> maxIts ctrl then Some st else None)"
| "IPF_dist_sparse_pass K ctrl A b c bNrm2 cNrm2 m n reg (Suc k) st =
     (case IPF_dist_sparse_pass K ctrl A b c bNrm2 cNrm2 m n reg k st of
        None \<Rightarrow> None
      | Some st_k \<Rightarrow>
          (case IPF_dist_sparse_iteration K ctrl A b c bNrm2 cNrm2 m n reg (int k) st_k of
             Continue st' \<Rightarrow> if int (Suc k) \<le> maxIts ctrl then Some st' else None
           | Break st' \<Rightarrow> None
           | Throw e st' \<Rightarrow> None))"

subsection \<open>A small instance\<close>

text \<open>
  A \<open>1 x 1\<close> program and simple collaborators, on which the model is run: the solver
  of the KKT system returns \<open>solved\<close> (or throws, for \<open>None\<close>), the line search
  returns \<open>alpha\<close>, the equilibration scales rows by 2 and columns by 4.
\<close>

definition toyA :: "real Matrix" where
  "toyA = \<lparr>Height = 1, Width = 1, Get = (\<lambda>i j. 1)\<rparr>"

text \<open>A \<open>1 x 1\<close> target with floating-point entries.\<close>

definition toyF :: "fpreal Matrix" where
  "toyF = \<lparr>Height = 1, Width = 1, Get = (\<lambda>i j. Finite 1)\<rparr>"

definition toyK :: "Vec option \<Rightarrow> real \<Rightarrow> (unit, unit, unit) SparseCollab" where
  "toyK solved alpha =
     \<lparr>GeomEquil = (\<lambda>A. (A, replicate (Height A) 2, replicate (Width A) 4)),
      Initialize = (\<lambda>A b c x y z p d s. (x, y, z)),
      KKT = (\<lambda>A x z. A),
      KKTRHS = (\<lambda>rc rb rmu z. rc),
      ExpandSolution = (\<lambda>m n d. (d, d, d)),
      AugmentedKKT = (\<lambda>A x z. A),
      AugmentedKKTRHS = (\<lambda>x rc rb rmu. rc),
      ExpandAugmentedSolution = (\<lambda>x z rmu d. (d, d, d)),
      NormalKKT = (\<lambda>A x z. A),
      NormalKKTRHS = (\<lambda>A x z rc rb rmu. rb),
      ExpandNormalSolution = (\<lambda>A c x z rc rmu dy. (dy, dy, dy)),
      symm_solve_Overwrite = (\<lambda>J d. solved),
      MaxStepInPositiveCone = (\<lambda>x dx upper. upper),
      IPFLineSearch = (\<lambda>A b c x y z dx dy dz upper bTol cTol. alpha),
      NestedDissection = (\<lambda>J. ([Height J], (), ())),
      InvertMap = rev,
      SymmetricGeomEquil = (\<lambda>J. (J, [])),
      UpdateRealPartOfDiagonal = (\<lambda>J a reg. J),
      Pull = (\<lambda>J map' info. ()),
      PullDist = (\<lambda>J map' rootSep info. ()),
      LDL = (\<lambda>info front. Some front),
      SolveAfter = (\<lambda>JOrig reg dInner invMap info front d. solved),
      SolveWithIterativeRefinement = (\<lambda>J invMap info front d. solved),
      InitializeSparse = (\<lambda>A b c it symb p d s. (it, symb)),
      emptySymbolic = ([], [], (), ())\<rparr>"

definition toyCtrl :: "KKTSystem \<Rightarrow> bool \<Rightarrow> bool \<Rightarrow> int \<Rightarrow> real \<Rightarrow> real \<Rightarrow> IPFCtrl" where
  "toyCtrl sys equil init its tgt mn =
     \<lparr>primalInit = init, dualInit = init, centering = 1 / 2, system = sys, maxIts = its,
      targetTol = tgt, minTol = mn, equilibrate = equil, regPrimal = 0, regDual = 0\<rparr>"

text \<open>
  Collaborators on which a run shows which analysis a pass has used: the KKT matrix
  depends on \<open>x\<close>, the analysis on the KKT matrix, and the solve returns the inverse
  map of the analysis it is handed as the direction.
\<close>

definition toyK7 :: "(unit, unit, unit) SparseCollab" where
  "toyK7 = (toyK None (1 / 2))
     \<lparr>KKT := (\<lambda>A x z. A\<lparr>Get := (\<lambda>i j. 2 * hd x)\<rparr>),
      AugmentedKKT := (\<lambda>A x z. A\<lparr>Get := (\<lambda>i j. 2 * hd x)\<rparr>),
      NestedDissection := (\<lambda>J. ([nat \<lfloor>Get J 0 0\<rfloor>], (), ())),
      SolveAfter := (\<lambda>JOrig reg dInner invMap info front d. Some (map real invMap))\<rparr>"

section \<open>Multi-shift Hessenberg solve (include/elemental/lapack-like/solve/MultiShiftHessSolve.hpp)\<close>

text \<open>
  The field \<open>F\<close> is modelled by the complex numbers and \<open>Base<F>\<close> by the reals; a
  real instantiation is the special case of vanishing imaginary parts.
  \<open>lapack::ComputeGivens\<close> is outside the sources at hand and is the parameter
  \<open>givens\<close>, which returns \<open>(c, s, rho)\<close>.
\<close>

type_synonym Givens = "complex \<Rightarrow> complex \<Rightarrow> real \<times> complex \<times> complex"

text \<open>\<open>M.Set(i,j,v)\<close>, \<open>M.Update(i,j,v)\<close>, \<open>Scale(alpha,M)\<close> and a fresh \<open>m x n\<close> matrix
  (whose storage the code leaves uninitialised; the model starts it with zeros).\<close>

definition Set_entry :: "'a Matrix \<Rightarrow> nat \<Rightarrow> nat \<Rightarrow> 'a \<Rightarrow> 'a Matrix" where
  "Set_entry M i j v = M\<lparr>Get := (\<lambda>i' j'. if i' = i \<and> j' = j then v else Get M i' j')\<rparr>"

definition Update_entry :: "complex Matrix \<Rightarrow> nat \<Rightarrow> nat \<Rightarrow> complex \<Rightarrow> complex Matrix" where
  "Update_entry M i j v = Set_entry M i j (Get M i j + v)"

definition Scale :: "complex \<Rightarrow> complex Matrix \<Rightarrow> complex Matrix" where
  "Scale alpha M = M\<lparr>Get := (\<lambda>i j. alpha * Get M i j)\<rparr>"

definition Zeros :: "nat \<Rightarrow> nat \<Rightarrow> ('a::zero) Matrix" where
  "Zeros m n = \<lparr>Height = m, Width = n, Get = (\<lambda>i j. 0)\<rparr>"

text \<open>
  Operations on a view of the rows \<open>lo, ..., hi - 1\<close> of one column:
  \<open>Axpy( alpha, a, b )\<close> with \<open>a\<close> that part of column \<open>ja\<close> of \<open>A\<close> and \<open>b\<close> that
  part of column \<open>jb\<close> of \<open>B\<close>; \<open>Scale( alpha, b )\<close>; and the \<open>MemCopy\<close> of the
  first \<open>m\<close> entries of column \<open>ja\<close> of \<open>A\<close> to column \<open>jb\<close> of \<open>B\<close>.
\<close>

definition Axpy_col ::
  "complex \<Rightarrow> complex Matrix \<Rightarrow> nat \<Rightarrow> complex Matrix \<Rightarrow> nat \<Rightarrow> nat \<Rightarrow> nat \<Rightarrow> complex Matrix" where
  "Axpy_col alpha A ja B jb lo hi =
     B\<lparr>Get := (\<lambda>i j. if j = jb \<and> lo \<le> i \<and> i < hi
                      then Get B i j + alpha * Get A i ja else Get B i j)\<rparr>"

definition Scale_col :: "complex \<Rightarrow> complex Matrix \<Rightarrow> nat \<Rightarrow> nat \<Rightarrow> nat \<Rightarrow> complex Matrix" where
  "Scale_col alpha B jb lo hi =
     B\<lparr>Get := (\<lambda>i j. if j = jb \<and> lo \<le> i \<and> i < hi then alpha * Get B i j else Get B i j)\<rparr>"

definition MemCopy_col :: "complex Matrix \<Rightarrow> nat \<Rightarrow> complex Matrix \<Rightarrow> nat \<Rightarrow> nat \<Rightarrow> complex Matrix" where
  "MemCopy_col B jb A ja m =
     B\<lparr>Get := (\<lambda>i j. if j = jb \<and> i < m then Get A i ja else Get B i j)\<rparr>"

type_synonym mshs_state = "complex Matrix \<times> complex Matrix \<times> real Matrix \<times> complex Matrix"

subsection \<open>mshs::LN\<close>

text \<open>The body of the loops over \<open>k\<close> and \<open>j\<close> of the elimination; the state is
  \<open>(X, W, C, S)\<close>.\<close>

definition LN_eliminate ::
  "Givens \<Rightarrow> complex Matrix \<Rightarrow> complex Matrix \<Rightarrow> nat \<Rightarrow> nat \<Rightarrow> nat \<Rightarrow> mshs_state \<Rightarrow> mshs_state" where
  "LN_eliminate givens H shifts m k j st =
     (case st of (X, W, C, S) \<Rightarrow>
        let etakkp1 = Get H k (k + 1);
            etakp1kp1 = Get H (k + 1) (k + 1)
        in case givens (Get W k j) etakkp1 of (c, s, rho) \<Rightarrow>
          (let C = Set_entry C k j c;
               S = Set_entry S k j s;
               lambdakk = of_real c * Get W k j + s * etakkp1;
               X = Set_entry X k j (Get X k j / lambdakk);
               mu = Get shifts j 0;
               xc = Get X k j * of_real c;
               xs = Get X k j * s;
               X = Update_entry X (k + 1) j (- xc * Get W (k + 1) j - xs * (etakp1kp1 - mu));
               X = Axpy_col (- xc) W j X j (k + 2) m;
               X = Axpy_col (- xs) H (k + 1) X j (k + 2) m;
               W = Set_entry W (k + 1) j
                     (- cnj s * Get W (k + 1) j + of_real c * (etakp1kp1 - mu));
               W = Scale_col (- cnj s) W j (k + 2) m;
               W = Axpy_col (of_real c) H (k + 1) W j (k + 2) m
           in (X, W, C, S)))"

text \<open>The state before the elimination, for the scaled \<open>X\<close>: the columns of \<open>W\<close>
  are set to the shifted first column of \<open>H\<close>.\<close>

definition LN_init :: "complex Matrix \<Rightarrow> complex Matrix \<Rightarrow> complex Matrix \<Rightarrow> mshs_state" where
  "LN_init H shifts X =
     (let m = Height X;
          n = Width X;
          C = Zeros m n;
          S = Zeros m n;
          W = fold (\<lambda>j W. Update_entry (MemCopy_col W j H 0 m) 0 j (- Get shifts j 0))
                [0..<n] (Zeros m n)
      in (X, W, C, S))"

text \<open>The first \<open>K\<close> passes of the loop \<open>for( Int k=0; k<m-1; ++k )\<close>.\<close>

definition LN_forward ::
  "Givens \<Rightarrow> complex Matrix \<Rightarrow> complex Matrix \<Rightarrow> nat \<Rightarrow> nat \<Rightarrow> nat \<Rightarrow> mshs_state \<Rightarrow> mshs_state" where
  "LN_forward givens H shifts m n K st =
     fold (\<lambda>k st. fold (\<lambda>j st. LN_eliminate givens H shifts m k j st) [0..<n] st) [0..<K] st"

text \<open>The body of the loops of "Solve against Q"; the state is \<open>(X, t1, t2)\<close>.\<close>

definition LN_rotate ::
  "real Matrix \<Rightarrow> complex Matrix \<Rightarrow> nat \<Rightarrow> nat
   \<Rightarrow> complex Matrix \<times> complex Matrix \<times> complex Matrix
   \<Rightarrow> complex Matrix \<times> complex Matrix \<times> complex Matrix" where
  "LN_rotate C S k j st =
     (case st of (X, t1, t2) \<Rightarrow>
        let t2 = Set_entry t2 j 0 (Get X k j);
            X = Set_entry X (k + 1) j
                  (of_real (Get C k j) * Get t1 j 0 + Get S k j * Get t2 j 0);
            t1 = Set_entry t1 j 0
                   (of_real (Get C k j) * Get t2 j 0 - cnj (Get S k j) * Get t1 j 0)
        in (X, t1, t2))"

definition mshs_LN :: "Givens \<Rightarrow> complex \<Rightarrow> complex Matrix \<Rightarrow> complex Matrix \<Rightarrow> complex Matrix \<Rightarrow> complex Matrix" where
  "mshs_LN givens alpha H shifts X0 =
     (let X = Scale alpha X0;
          m = Height X;
          n = Width X
      in if m = 0 then X
         else
           case LN_forward givens H shifts m n (m - 1) (LN_init H shifts X) of
             (X, W, C, S) \<Rightarrow>
               (let X = fold (\<lambda>j X. Set_entry X (m - 1) j (Get X (m - 1) j / Get W (m - 1) j))
                          [0..<n] X;
                    t1 = fold (\<lambda>j t1. Set_entry t1 j 0 (Get X (m - 1) j)) [0..<n] (Zeros n 1);
                    t2 = Zeros n 1
                in case fold (\<lambda>k st. fold (\<lambda>j st. LN_rotate C S k j st) [0..<n] st)
                          (rev [0..<m - 1]) (X, t1, t2) of
                     (X, t1, t2) \<Rightarrow>
                       fold (\<lambda>j X. Set_entry X 0 j (Get t1 j 0)) [0..<n] X))"

text \<open>
  The divisors of \<open>LN\<close>: for \<open>k < m - 1\<close> the value \<open>lambdakk\<close> of pass \<open>k\<close> for
  column \<open>j\<close>, for \<open>k = m - 1\<close> the entry \<open>W(m-1,j)\<close> by which the last row is
  divided.
\<close>

definition LN_pivot ::
  "Givens \<Rightarrow> complex \<Rightarrow> complex Matrix \<Rightarrow> complex Matrix \<Rightarrow> complex Matrix \<Rightarrow> nat \<Rightarrow> nat \<Rightarrow> complex" where
  "LN_pivot givens alpha H shifts X0 k j =
     (let X = Scale alpha X0;
          m = Height X;
          n = Width X
      in case LN_forward givens H shifts m n k (LN_init H shifts X) of
           (X, W, C, S) \<Rightarrow>
             if k + 1 < m
             then (case givens (Get W k j) (Get H k (k + 1)) of
                     (c, s, rho) \<Rightarrow> of_real c * Get W k j + s * Get H k (k + 1))
             else Get W k j)"

definition LN_pivots_nonzero ::
  "Givens \<Rightarrow> complex \<Rightarrow> complex Matrix \<Rightarrow> complex Matrix \<Rightarrow> complex Matrix \<Rightarrow> bool" where
  "LN_pivots_nonzero givens alpha H shifts X0 =
     list_all (\<lambda>k. list_all (\<lambda>j. LN_pivot givens alpha H shifts X0 k j \<noteq> 0) [0..<Width X0])
       [0..<Height X0]"

subsection \<open>mshs::UN\<close>

definition UN_eliminate ::
  "Givens \<Rightarrow> complex Matrix \<Rightarrow> complex Matrix \<Rightarrow> nat \<Rightarrow> nat \<Rightarrow> mshs_state \<Rightarrow> mshs_state" where
  "UN_eliminate givens H shifts k j st =
     (case st of (X, W, C, S) \<Rightarrow>
        let etakkm1 = Get H k (k - 1);
            etakm1km1 = Get H (k - 1) (k - 1)
        in case givens (Get W k j) etakkm1 of (c, s, gamma) \<Rightarrow>
          (let C = Set_entry C k j c;
               S = Set_entry S k j s;
               rhokk = of_real c * Get W k j + s * etakkm1;
               X = Set_entry X k j (Get X k j / rhokk);
               mu = Get shifts j 0;
               xc = Get X k j * of_real c;
               xs = Get X k j * s;
               X = Axpy_col (- xc) W j X j 0 (k - 1);
               X = Axpy_col (- xs) H (k - 1) X j 0 (k - 1);
               X = Update_entry X (k - 1) j (- xc * Get W (k - 1) j - xs * (etakm1km1 - mu));
               W = Scale_col (- cnj s) W j 0 (k - 1);
               W = Axpy_col (of_real c) H (k - 1) W j 0 (k - 1);
               W = Set_entry W (k - 1) j
                     (- cnj s * Get W (k - 1) j + of_real c * (etakm1km1 - mu))
           in (X, W, C, S)))"

definition UN_init :: "complex Matrix \<Rightarrow> complex Matrix \<Rightarrow> complex Matrix \<Rightarrow> mshs_state" where
  "UN_init H shifts X =
     (let m = Height X;
          n = Width X;
          C = Zeros m n;
          S = Zeros m n;
          W = fold (\<lambda>j W. Update_entry (MemCopy_col W j H (m - 1) m) (m - 1) j (- Get shifts j 0))
                [0..<n] (Zeros m n)
      in (X, W, C, S))"

text \<open>The first \<open>K\<close> passes of the loop \<open>for( Int k=m-1; k>0; --k )\<close>.\<close>

definition UN_forward ::
  "Givens \<Rightarrow> complex Matrix \<Rightarrow> complex Matrix \<Rightarrow> nat \<Rightarrow> nat \<Rightarrow> nat \<Rightarrow> mshs_state \<Rightarrow> mshs_state" where
  "UN_forward givens H shifts m n K st =
     fold (\<lambda>k st. fold (\<lambda>j st. UN_eliminate givens H shifts k j st) [0..<n] st)
       (rev [m - K..<m]) st"

definition UN_rotate ::
  "real Matrix \<Rightarrow> complex Matrix \<Rightarrow> nat \<Rightarrow> nat
   \<Rightarrow> complex Matrix \<times> complex Matrix \<times> complex Matrix
   \<Rightarrow> complex Matrix \<times> complex Matrix \<times> complex Matrix" where
  "UN_rotate C S k j st =
     (case st of (X, t1, t2) \<Rightarrow>
        let t2 = Set_entry t2 j 0 (Get X k j);
            X = Set_entry X (k - 1) j
                  (of_real (Get C k j) * Get t1 j 0 + Get S k j * Get t2 j 0);
            t1 = Set_entry t1 j 0
                   (of_real (Get C k j) * Get t2 j 0 - cnj (Get S k j) * Get t1 j 0)
        in (X, t1, t2))"

definition mshs_UN :: "Givens \<Rightarrow> complex \<Rightarrow> complex Matrix \<Rightarrow> complex Matrix \<Rightarrow> complex Matrix \<Rightarrow> complex Matrix" where
  "mshs_UN givens alpha H shifts X0 =
     (let X = Scale alpha X0;
          m = Height X;
          n = Width X
      in if m = 0 then X
         else
           case UN_forward givens H shifts m n (m - 1) (UN_init H shifts X) of
             (X, W, C, S) \<Rightarrow>
               (let X = fold (\<lambda>j X. Set_entry X 0 j (Get X 0 j / Get W 0 j)) [0..<n] X;
                    t1 = fold (\<lambda>j t1. Set_entry t1 j 0 (Get X 0 j)) [0..<n] (Zeros n 1);
                    t2 = Zeros n 1
                in case fold (\<lambda>k st. fold (\<lambda>j st. UN_rotate C S k j st) [0..<n] st)
                          [1..<m] (X, t1, t2) of
                     (X, t1, t2) \<Rightarrow>
                       fold (\<lambda>j X. Set_entry X (m - 1) j (Get t1 j 0)) [0..<n] X))"

text \<open>
  The divisors of \<open>UN\<close>: for \<open>0 < k\<close> the value \<open>rhokk\<close> of pass \<open>k\<close> for column
  \<open>j\<close>, for \<open>k = 0\<close> the entry \<open>W(0,j)\<close> by which the first row is divided.
\<close>

definition UN_pivot ::
  "Givens \<Rightarrow> complex \<Rightarrow> complex Matrix \<Rightarrow> complex Matrix \<Rightarrow> complex Matrix \<Rightarrow> nat \<Rightarrow> nat \<Rightarrow> complex" where
  "UN_pivot givens alpha H shifts X0 k j =
     (let X = Scale alpha X0;
          m = Height X;
          n = Width X
      in case UN_forward givens H shifts m n (m - 1 - k) (UN_init H shifts X) of
           (X, W, C, S) \<Rightarrow>
             if 0 < k
             then (case givens (Get W k j) (Get H k (k - 1)) of
                     (c, s, gamma) \<Rightarrow> of_real c * Get W k j + s * Get H k (k - 1))
             else Get W k j)"

definition UN_pivots_nonzero ::
  "Givens \<Rightarrow> complex \<Rightarrow> complex Matrix \<Rightarrow> complex Matrix \<Rightarrow> complex Matrix \<Rightarrow> bool" where
  "UN_pivots_nonzero givens alpha H shifts X0 =
     list_all (\<lambda>k. list_all (\<lambda>j. UN_pivot givens alpha H shifts X0 k j \<noteq> 0) [0..<Width X0])
       [0..<Height X0]"

subsection \<open>Hessenberg matrices and the rotation\<close>

text \<open>
  \<open>H\<close> is lower Hessenberg on its leading \<open>m\<close> rows and columns when it vanishes
  above the superdiagonal, upper Hessenberg when it vanishes below the subdiagonal.
\<close>

definition lower_Hessenberg :: "nat \<Rightarrow> complex Matrix \<Rightarrow> bool" where
  "lower_Hessenberg m H =
     list_all (\<lambda>i. list_all (\<lambda>l. i + 1 < l \<longrightarrow> Get H i l = 0) [0..<m]) [0..<m]"

definition upper_Hessenberg :: "nat \<Rightarrow> complex Matrix \<Rightarrow> bool" where
  "upper_Hessenberg m H =
     list_all (\<lambda>i. list_all (\<lambda>l. l + 1 < i \<longrightarrow> Get H i l = 0) [0..<m]) [0..<m]"

text \<open>
  Modelled from the spec: the Givens rotation, a 2 x 2 orthogonal transform zeroing one
  vector component. In the words of the comment in the source, \<open>(c, s)\<close> is such that
  \<open>| c s; -conj(s) c | | f; g | = | rho; 0 |\<close>. The statements below hold for every
  \<open>givens\<close> that zeroes the second component (\<open>givens_ok\<close>); \<open>ComputeGivens\<close> is one
  such rotation, used for the instances.
\<close>

definition givens_ok :: "Givens \<Rightarrow> bool" where
  "givens_ok givens =
     (\<forall>f g. case givens f g of (c, s, rho) \<Rightarrow> of_real c * g - cnj s * f = 0)"

definition ComputeGivens :: Givens where
  "ComputeGivens f g =
     (if g = 0 then (1, 0, f)
      else if f = 0 then (0, cnj g / of_real (cmod g), of_real (cmod g))
      else (let r = sqrt ((cmod f)\<^sup>2 + (cmod g)\<^sup>2);
                ph = f / of_real (cmod f)
            in (cmod f / r, ph * cnj g / of_real r, ph * of_real r)))"

subsection \<open>The elimination of one column\<close>

text \<open>
  One column of the solve, as functions of the row index counted in the order of the
  elimination: the state is \<open>(x, w, c, s)\<close>, the column of \<open>X\<close>, the working column and
  the rotations recorded so far; \<open>A\<close> is the shifted matrix.
\<close>

type_synonym colstate = "(nat \<Rightarrow> complex) \<times> (nat \<Rightarrow> complex) \<times> (nat \<Rightarrow> real) \<times> (nat \<Rightarrow> complex)"

definition col_step :: "Givens \<Rightarrow> (nat \<Rightarrow> nat \<Rightarrow> complex) \<Rightarrow> nat \<Rightarrow> nat \<Rightarrow> colstate \<Rightarrow> colstate" where
  "col_step givens A m k st =
     (case st of (x, w, c, s) \<Rightarrow>
        (case givens (w k) (A k (k + 1)) of (ck, sk, rho) \<Rightarrow>
           let xk = x k / (of_real ck * w k + sk * A k (k + 1))
           in (\<lambda>i. if i = k then xk
                    else if k < i \<and> i < m
                         then x i - xk * (of_real ck * w i + sk * A i (k + 1))
                         else x i,
               \<lambda>i. if k < i \<and> i < m then of_real ck * A i (k + 1) - cnj sk * w i else w i,
               c(k := ck), s(k := sk))))"

fun col_forward ::
  "Givens \<Rightarrow> (nat \<Rightarrow> nat \<Rightarrow> complex) \<Rightarrow> nat \<Rightarrow> nat \<Rightarrow> colstate \<Rightarrow> colstate" where
  "col_forward givens A m 0 st = st"
| "col_forward givens A m (Suc k) st = col_step givens A m k (col_forward givens A m k st)"

definition col_init :: "(nat \<Rightarrow> nat \<Rightarrow> complex) \<Rightarrow> (nat \<Rightarrow> complex) \<Rightarrow> colstate" where
  "col_init A b = (b, (\<lambda>i. A i 0), (\<lambda>k. 0), (\<lambda>k. 0))"

definition col_pivot ::
  "Givens \<Rightarrow> (nat \<Rightarrow> nat \<Rightarrow> complex) \<Rightarrow> nat \<Rightarrow> (nat \<Rightarrow> complex) \<Rightarrow> nat \<Rightarrow> complex" where
  "col_pivot givens A m b k =
     (case col_forward givens A m k (col_init A b) of (x, w, c, s) \<Rightarrow>
        if k + 1 < m
        then (case givens (w k) (A k (k + 1)) of
                (ck, sk, rho) \<Rightarrow> of_real ck * w k + sk * A k (k + 1))
        else w k)"

definition col_rotate ::
  "(nat \<Rightarrow> real) \<Rightarrow> (nat \<Rightarrow> complex) \<Rightarrow> nat \<Rightarrow> (nat \<Rightarrow> complex) \<times> complex
   \<Rightarrow> (nat \<Rightarrow> complex) \<times> complex" where
  "col_rotate c s k st =
     (case st of (x, t1) \<Rightarrow>
        (x(k + 1 := of_real (c k) * t1 + s k * x k), of_real (c k) * x k - cnj (s k) * t1))"

definition col_solve ::
  "Givens \<Rightarrow> (nat \<Rightarrow> nat \<Rightarrow> complex) \<Rightarrow> nat \<Rightarrow> (nat \<Rightarrow> complex) \<Rightarrow> nat \<Rightarrow> complex" where
  "col_solve givens A m b =
     (case col_forward givens A m (m - 1) (col_init A b) of (x, w, c, s) \<Rightarrow>
        (let x = x(m - 1 := x (m - 1) / w (m - 1))
         in case fold (col_rotate c s) (rev [0..<m - 1]) (x, x (m - 1)) of
              (x, t1) \<Rightarrow> x(0 := t1)))"

text \<open>
  The shifted matrix after the first \<open>k\<close> rotations of its columns, and the
  rotation of step \<open>k\<close>.
\<close>

fun Mk :: "Givens \<Rightarrow> (nat \<Rightarrow> nat \<Rightarrow> complex) \<Rightarrow> nat \<Rightarrow> nat \<Rightarrow> nat \<Rightarrow> complex" where
  "Mk givens A 0 = A"
| "Mk givens A (Suc k) =
     (case givens (Mk givens A k k k) (Mk givens A k k (k + 1)) of (ck, sk, rho) \<Rightarrow>
        (\<lambda>i j. if j = k then of_real ck * Mk givens A k i k + sk * Mk givens A k i (k + 1)
                else if j = k + 1
                     then of_real ck * Mk givens A k i (k + 1) - cnj sk * Mk givens A k i k
                     else Mk givens A k i j))"

definition gc :: "Givens \<Rightarrow> (nat \<Rightarrow> nat \<Rightarrow> complex) \<Rightarrow> nat \<Rightarrow> real" where
  "gc givens A k = fst (givens (Mk givens A k k k) (Mk givens A k k (k + 1)))"

definition gs :: "Givens \<Rightarrow> (nat \<Rightarrow> nat \<Rightarrow> complex) \<Rightarrow> nat \<Rightarrow> complex" where
  "gs givens A k = fst (snd (givens (Mk givens A k k k) (Mk givens A k k (k + 1))))"

text \<open>
  The columns of the states of \<open>LN\<close> and \<open>UN\<close> as states of the elimination of one
  column, and the shifted matrices they work on. \<open>UN\<close> runs over the rows from the last
  to the first, so its rows and columns are counted from the end.
\<close>

definition A_LN :: "nat \<Rightarrow> complex Matrix \<Rightarrow> complex \<Rightarrow> nat \<Rightarrow> nat \<Rightarrow> complex" where
  "A_LN m H mu = (\<lambda>i l. if i < m then Get H i l - (if i = l then mu else 0) else 0)"

definition LN_col :: "mshs_state \<Rightarrow> nat \<Rightarrow> colstate" where
  "LN_col st j =
     (case st of (X, W, C, S) \<Rightarrow>
        ((\<lambda>i. Get X i j), (\<lambda>i. Get W i j), (\<lambda>k. Get C k j), (\<lambda>k. Get S k j)))"

definition back_col ::
  "complex Matrix \<times> complex Matrix \<times> complex Matrix \<Rightarrow> nat \<Rightarrow> (nat \<Rightarrow> complex) \<times> complex" where
  "back_col st j = (case st of (X, t1, t2) \<Rightarrow> ((\<lambda>i. Get X i j), Get t1 j 0))"

definition A_UN :: "nat \<Rightarrow> complex Matrix \<Rightarrow> complex \<Rightarrow> nat \<Rightarrow> nat \<Rightarrow> complex" where
  "A_UN m H mu =
     (\<lambda>a l. if a < m then Get H (m - 1 - a) (m - 1 - l) - (if a = l then mu else 0) else 0)"

definition UN_col :: "nat \<Rightarrow> mshs_state \<Rightarrow> nat \<Rightarrow> colstate" where
  "UN_col m st j =
     (case st of (X, W, C, S) \<Rightarrow>
        ((\<lambda>a. if a < m then Get X (m - 1 - a) j else 0),
         (\<lambda>a. if a < m then Get W (m - 1 - a) j else 0),
         (\<lambda>a. if a < m then Get C (m - 1 - a) j else 0),
         (\<lambda>a. if a < m then Get S (m - 1 - a) j else 0)))"

definition UN_back_col ::
  "nat \<Rightarrow> complex Matrix \<times> complex Matrix \<times> complex Matrix \<Rightarrow> nat \<Rightarrow> (nat \<Rightarrow> complex) \<times> complex" where
  "UN_back_col m st j =
     (case st of (X, t1, t2) \<Rightarrow> ((\<lambda>a. if a < m then Get X (m - 1 - a) j else 0), Get t1 j 0))"

subsection \<open>Small instances\<close>

text \<open>
  One shift 0 (\<open>exS\<close>); a lower Hessenberg \<open>exL\<close> and an upper Hessenberg \<open>exU\<close> with
  the right-hand side \<open>exB\<close>; and an upper triangular \<open>cexH\<close> with a nonzero entry
  above the superdiagonal, with the right-hand side \<open>cexX\<close>.
\<close>

definition exS :: "complex Matrix" where
  "exS = \<lparr>Height = 1, Width = 1, Get = (\<lambda>i j. 0)\<rparr>"

definition exL :: "complex Matrix" where
  "exL = \<lparr>Height = 3, Width = 3,
           Get = (\<lambda>i j. if i = 0 \<and> j = 0 then 3 else if i = 0 \<and> j = 1 then 4
                        else if i = 1 \<and> j = 1 then 5 else if i = 2 \<and> j = 0 then 1
                        else if i = 2 \<and> j = 2 then 2 else 0)\<rparr>"

definition exU :: "complex Matrix" where
  "exU = \<lparr>Height = 3, Width = 3,
           Get = (\<lambda>i j. if i = 0 \<and> j = 0 then 2 else if i = 0 \<and> j = 2 then 1
                        else if i = 1 \<and> j = 1 then 5 else if i = 2 \<and> j = 1 then 4
                        else if i = 2 \<and> j = 2 then 3 else 0)\<rparr>"

definition exB :: "complex Matrix" where
  "exB = \<lparr>Height = 3, Width = 1,
           Get = (\<lambda>i j. if i = 0 \<and> j = 0 then 5 else if i = 1 \<and> j = 0 then 7
                        else if i = 2 \<and> j = 0 then 3 else 0)\<rparr>"

definition cexH :: "complex Matrix" where
  "cexH = \<lparr>Height = 3, Width = 3,
            Get = (\<lambda>i j. if i = j then 1 else if i = 0 \<and> j = 2 then 1 else 0)\<rparr>"

definition cexX :: "complex Matrix" where
  "cexX = \<lparr>Height = 3, Width = 1, Get = (\<lambda>i j. if i = 2 \<and> j = 0 then 1 else 0)\<rparr>"

section \<open>Properties of SafeScale\<close>

lemma scale_by_scale_by: "scale_by (scale_by A a) b = scale_by A (a * (b::real))"
  by (simp add: scale_by_def mult.assoc)

lemma SafeScaleStep_shrinkDen:
  "\<bar>d * s\<bar> > \<bar>n\<bar> \<Longrightarrow> n \<noteq> z \<Longrightarrow> SafeScaleStep n d z s b = (False, n, d * s, s)"
  by (simp add: SafeScaleStep_def Let_def)

lemma SafeScaleStep_shrinkNum:
  "\<not> (\<bar>d * s\<bar> > \<bar>n\<bar> \<and> n \<noteq> z) \<Longrightarrow> \<bar>n / b\<bar> > \<bar>d\<bar> \<Longrightarrow>
   SafeScaleStep n d z s b = (False, n / b, d, b)"
  by (auto simp add: SafeScaleStep_def Let_def)

lemma SafeScaleStep_final:
  "\<not> (\<bar>d * s\<bar> > \<bar>n\<bar> \<and> n \<noteq> z) \<Longrightarrow> \<not> \<bar>n / b\<bar> > \<bar>d\<bar> \<Longrightarrow>
   SafeScaleStep n d z s b = (True, n, d, n / d)"
  by (auto simp add: SafeScaleStep_def Let_def)

lemma SafeScale_loop_final:
  "SafeScaleStep n d z s b = (True, n', d', a) \<Longrightarrow>
   SafeScale_loop n d z s b alphas A = Some (alphas @ [a], scale_by A a)"
  by (subst SafeScale_loop.simps) simp

lemma SafeScale_loop_continue:
  "SafeScaleStep n d z s b = (False, n', d', a) \<Longrightarrow>
   SafeScale_loop n d z s b alphas A = SafeScale_loop n' d' z s b (alphas @ [a]) (scale_by A a)"
  by (subst SafeScale_loop.simps) simp

lemma SafeScale_phase2:
  fixes s numerator denominator :: real
  assumes s: "0 < s" "s < 1" and d: "denominator \<noteq> 0"
  shows "\<bar>numerator\<bar> * s ^ k \<le> \<bar>denominator\<bar> \<Longrightarrow>
         \<not> (\<bar>denominator * s\<bar> > \<bar>numerator\<bar> \<and> numerator \<noteq> 0) \<Longrightarrow>
         \<exists>as. SafeScale_loop numerator denominator 0 s (1 / s) alphas A
                = Some (alphas @ as, scale_by A (numerator / denominator))
              \<and> prod_list as = numerator / denominator"
proof (induction k arbitrary: numerator alphas A)
  case 0
  have "\<bar>numerator\<bar> * s \<le> \<bar>numerator\<bar>" using s by (simp add: mult_left_le)
  with 0 have "\<not> \<bar>numerator / (1 / s)\<bar> > \<bar>denominator\<bar>" using s by (simp add: abs_mult)
  from SafeScale_loop_final [OF SafeScaleStep_final [OF "0.prems"(2) this]]
  show ?case by simp
next
  case (Suc k)
  show ?case
  proof (cases "\<bar>numerator / (1 / s)\<bar> > \<bar>denominator\<bar>")
    case False
    from SafeScale_loop_final [OF SafeScaleStep_final [OF Suc.prems(2) False]]
    show ?thesis by simp
  next
    case True
    let ?n = "numerator / (1 / s)"
    have a: "\<bar>?n\<bar> * s ^ k \<le> \<bar>denominator\<bar>"
      using Suc.prems(1) s by (simp add: abs_mult mult.assoc)
    have "\<bar>denominator * s\<bar> \<le> \<bar>denominator\<bar>" using s by (simp add: abs_mult mult_left_le)
    with True have b: "\<not> (\<bar>denominator * s\<bar> > \<bar>?n\<bar> \<and> ?n \<noteq> 0)" by linarith
    from Suc.IH [OF a b, of "alphas @ [1 / s]" "scale_by A (1 / s)"]
    obtain as where as: "SafeScale_loop ?n denominator 0 s (1 / s) (alphas @ [1 / s]) (scale_by A (1 / s))
        = Some ((alphas @ [1 / s]) @ as, scale_by (scale_by A (1 / s)) (?n / denominator))"
        "prod_list as = ?n / denominator" by blast
    have "SafeScale_loop numerator denominator 0 s (1 / s) alphas A
           = Some (alphas @ ((1 / s) # as), scale_by A (numerator / denominator))"
      using as(1) s
      by (simp add: SafeScale_loop_continue [OF SafeScaleStep_shrinkNum [OF Suc.prems(2) True]]
            scale_by_scale_by)
    moreover have "prod_list ((1 / s) # as) = numerator / denominator"
      using as(2) s by simp
    ultimately show ?thesis by blast
  qed
qed

lemma SafeScale_phase1:
  fixes s numerator denominator :: real
  assumes s: "0 < s" "s < 1" and n: "numerator \<noteq> 0"
  shows "\<bar>denominator\<bar> * s ^ k \<le> \<bar>numerator\<bar> \<Longrightarrow> denominator \<noteq> 0 \<Longrightarrow>
         \<exists>as. SafeScale_loop numerator denominator 0 s (1 / s) alphas A
                = Some (alphas @ as, scale_by A (numerator / denominator))
              \<and> prod_list as = numerator / denominator"
proof (induction k arbitrary: denominator alphas A)
  case 0
  have "\<bar>denominator * s\<bar> \<le> \<bar>denominator\<bar>" using s by (simp add: abs_mult mult_left_le)
  with 0 have no: "\<not> (\<bar>denominator * s\<bar> > \<bar>numerator\<bar> \<and> numerator \<noteq> 0)" by simp
  have "0 < \<bar>denominator\<bar> / \<bar>numerator\<bar>" using n 0 by simp
  from real_arch_pow_inv [OF this s(2)] obtain j where "s ^ j < \<bar>denominator\<bar> / \<bar>numerator\<bar>" ..
  then have "\<bar>numerator\<bar> * s ^ j \<le> \<bar>denominator\<bar>" using n
    by (simp add: pos_less_divide_eq mult.commute)
  from SafeScale_phase2 [OF s "0.prems"(2) this no] show ?case .
next
  case (Suc k)
  show ?case
  proof (cases "\<bar>denominator * s\<bar> > \<bar>numerator\<bar>")
    case False
    then have no: "\<not> (\<bar>denominator * s\<bar> > \<bar>numerator\<bar> \<and> numerator \<noteq> 0)" by simp
    have "0 < \<bar>denominator\<bar> / \<bar>numerator\<bar>" using n Suc.prems by simp
    from real_arch_pow_inv [OF this s(2)] obtain j where "s ^ j < \<bar>denominator\<bar> / \<bar>numerator\<bar>" ..
    then have "\<bar>numerator\<bar> * s ^ j \<le> \<bar>denominator\<bar>" using n
      by (simp add: pos_less_divide_eq mult.commute)
    from SafeScale_phase2 [OF s Suc.prems(2) this no] show ?thesis .
  next
    case True
    let ?d = "denominator * s"
    have a: "\<bar>?d\<bar> * s ^ k \<le> \<bar>numerator\<bar>" using Suc.prems(1) s by (simp add: abs_mult mult.assoc)
    have b: "?d \<noteq> 0" using Suc.prems(2) s by simp
    from Suc.IH [OF a b, of "alphas @ [s]" "scale_by A s"]
    obtain as where as: "SafeScale_loop numerator ?d 0 s (1 / s) (alphas @ [s]) (scale_by A s)
        = Some ((alphas @ [s]) @ as, scale_by (scale_by A s) (numerator / ?d))"
        "prod_list as = numerator / ?d" by blast
    have "SafeScale_loop numerator denominator 0 s (1 / s) alphas A
           = Some (alphas @ (s # as), scale_by A (numerator / denominator))"
      using as(1) s
      by (simp add: SafeScale_loop_continue [OF SafeScaleStep_shrinkDen [OF True n]]
            scale_by_scale_by)
    moreover have "prod_list (s # as) = numerator / denominator"
      using as(2) s by simp
    ultimately show ?thesis by blast
  qed
qed

lemma SafeScale_loop_total:
  fixes s numerator denominator :: real
  assumes s: "0 < s" "s < 1" and d: "denominator \<noteq> 0"
  shows "\<exists>as. SafeScale_loop numerator denominator 0 s (1 / s) alphas A
                = Some (alphas @ as, scale_by A (numerator / denominator))
              \<and> prod_list as = numerator / denominator"
proof (cases "numerator = 0")
  case True
  then have "\<bar>numerator\<bar> * s ^ 0 \<le> \<bar>denominator\<bar>" by simp
  from SafeScale_phase2 [OF s d this] True show ?thesis by simp
next
  case False
  have "0 < \<bar>numerator\<bar> / \<bar>denominator\<bar>" using False d by simp
  from real_arch_pow_inv [OF this s(2)] obtain j where "s ^ j < \<bar>numerator\<bar> / \<bar>denominator\<bar>" ..
  then have "\<bar>denominator\<bar> * s ^ j \<le> \<bar>numerator\<bar>" using d
    by (simp add: pos_less_divide_eq mult.commute)
  from SafeScale_phase1 [OF s False this d] show ?thesis .
qed

text \<open>
  Claim C8. In exact arithmetic (\<open>Real\<close> the reals), for every numerator and every
  nonzero denominator (with \<open>0 < smallNum < 1\<close> and \<open>bigNum = 1 / smallNum\<close>, as
  \<open>SafeScale\<close> sets them), the loop returns, the product of the factors \<open>alpha\<close> it
  applied to the target is exactly \<open>numerator / denominator\<close>, and the target has been
  multiplied by \<open>numerator / denominator\<close> in aggregate.
\<close>

theorem SafeScale_product:
  fixes smallNum numerator denominator :: real
  assumes "0 < smallNum" and "smallNum < 1" and "denominator \<noteq> 0"
  shows "\<exists>alphas. SafeScale smallNum numerator denominator A
                   = Some (alphas, scale_by A (numerator / denominator))
                 \<and> prod_list alphas = numerator / denominator"
  using SafeScale_loop_total [OF assms, of numerator "[]" A]
  by (simp add: SafeScale_def)

theorem SafeScale_product_witness:
  "(0::real) < 1 / 4 \<and> (1::real) / 4 < 1 \<and> (1::real) \<noteq> 0 \<and>
   (\<exists>alphas. SafeScale (1 / 4) 100 1 toyA
                = Some (alphas, scale_by toyA (100 / 1))
              \<and> prod_list alphas = 100 / 1)"
  using SafeScale_product [of "1 / 4" 1 100 toyA] by simp

lemma fp_Finite [simp]:
  "Finite a * Finite b = Finite (a * b)"
  "b \<noteq> 0 \<Longrightarrow> Finite a / Finite b = Finite (a / b)"
  "\<bar>Finite a\<bar> = Finite \<bar>a\<bar>"
  "Finite a < Finite b \<longleftrightarrow> a < b"
  by (simp_all add: times_fpreal_def divide_fpreal_def abs_fpreal_def less_fpreal_def)

lemma SafeScaleStep_Finite:
  assumes "b \<noteq> 0" and "d \<noteq> 0"
  shows "SafeScaleStep (Finite n) (Finite d) (Finite z) (Finite s) (Finite b)
           = (case SafeScaleStep n d z s b of
                (done, n', d', a) \<Rightarrow> (done, Finite n', Finite d', Finite a))"
  using assms by (simp add: SafeScaleStep_def Let_def)

lemma SafeScaleStep_denominator:
  fixes d :: real
  assumes "SafeScaleStep n d z s b = (fin, n', d', a)" and "d \<noteq> 0" and "s \<noteq> 0"
  shows "d' \<noteq> 0"
  using assms by (auto simp add: SafeScaleStep_def Let_def split: if_splits)

lemma SafeScale_loop_Finite:
  fixes n d z s b :: real and alphas :: "real list" and A :: "real Matrix"
  assumes l: "SafeScale_loop n d z s b alphas A = Some y"
    and nz: "d \<noteq> 0" "s \<noteq> 0" "b \<noteq> 0"
  shows "\<exists>y'. SafeScale_loop (Finite n) (Finite d) (Finite z) (Finite s) (Finite b) alphas' A'
                = Some y'"
proof -
  let ?P = "\<lambda>(n::real) (d::real) (z::real) (s::real) (b::real) (alphas::real list)
              (A::real Matrix) (y::real list \<times> real Matrix).
              d \<noteq> 0 \<longrightarrow> s \<noteq> 0 \<longrightarrow> b \<noteq> 0 \<longrightarrow>
              (\<forall>alphas' A'. \<exists>y'. SafeScale_loop (Finite n) (Finite d) (Finite z) (Finite s)
                                   (Finite b) alphas' A' = Some y')"
  have "?P n d z s b alphas A y"
  proof (rule SafeScale_loop.raw_induct [where P = ?P, OF _ l], intro impI allI)
    fix loop :: "real \<Rightarrow> real \<Rightarrow> real \<Rightarrow> real \<Rightarrow> real \<Rightarrow> real list \<Rightarrow> real Matrix
                 \<Rightarrow> (real list \<times> real Matrix) option"
    fix n d z s b :: real and alphas :: "real list" and A :: "real Matrix"
      and y :: "real list \<times> real Matrix" and alphas' :: "fpreal list" and A' :: "fpreal Matrix"
    assume IH: "\<And>n d z s b alphas A y. loop n d z s b alphas A = Some y \<Longrightarrow> ?P n d z s b alphas A y"
      and body: "(case SafeScaleStep n d z s b of
                    (fin, numerator', denominator', alpha) \<Rightarrow>
                      if fin then Some (alphas @ [alpha], scale_by A alpha)
                      else loop numerator' denominator' z s b (alphas @ [alpha]) (scale_by A alpha))
                 = Some y"
      and nz: "d \<noteq> 0" "s \<noteq> 0" "b \<noteq> 0"
    obtain fin n' d' a where st: "SafeScaleStep n d z s b = (fin, n', d', a)"
      by (cases "SafeScaleStep n d z s b") auto
    have fstep: "SafeScaleStep (Finite n) (Finite d) (Finite z) (Finite s) (Finite b)
                 = (fin, Finite n', Finite d', Finite a)"
      using SafeScaleStep_Finite [OF nz(3,1), of n z s] st by simp
    show "\<exists>y'. SafeScale_loop (Finite n) (Finite d) (Finite z) (Finite s) (Finite b) alphas' A'
                  = Some y'"
    proof (cases fin)
      case True
      then show ?thesis using fstep by (subst SafeScale_loop.simps) simp
    next
      case False
      with body st have "loop n' d' z s b (alphas @ [a]) (scale_by A a) = Some y" by simp
      moreover have "d' \<noteq> 0" using SafeScaleStep_denominator [OF st nz(1,2)] .
      ultimately obtain y' where
        "SafeScale_loop (Finite n') (Finite d') (Finite z) (Finite s) (Finite b)
           (alphas' @ [Finite a]) (scale_by A' (Finite a)) = Some y'"
        using IH nz(2,3) by blast
      then show ?thesis using fstep False by (subst SafeScale_loop.simps) simp
    qed
  qed
  then show ?thesis using nz by blast
qed

lemma SafeScale_loop_infinite_denominator:
  assumes n: "n \<noteq> 0" and s: "0 < s"
  shows "SafeScale_loop (Finite n) PInf (Finite 0) (Finite s) b alphas A = None"
proof -
  let ?P = "\<lambda>(num::fpreal) (den::fpreal) (z::fpreal) (sm::fpreal) (b::fpreal)
              (alphas::fpreal list) (A::fpreal Matrix) (y::fpreal list \<times> fpreal Matrix).
              \<not> (num = Finite n \<and> den = PInf \<and> z = Finite 0 \<and> sm = Finite s)"
  have "?P num den z sm b alphas A y"
    if l: "SafeScale_loop num den z sm b alphas A = Some y" for num den z sm b alphas A y
  proof (rule SafeScale_loop.raw_induct [where P = ?P, OF _ l], rule notI)
    fix loop :: "fpreal \<Rightarrow> fpreal \<Rightarrow> fpreal \<Rightarrow> fpreal \<Rightarrow> fpreal \<Rightarrow> fpreal list \<Rightarrow> fpreal Matrix
                 \<Rightarrow> (fpreal list \<times> fpreal Matrix) option"
    fix num den z sm b :: fpreal and alphas :: "fpreal list" and A :: "fpreal Matrix"
      and y :: "fpreal list \<times> fpreal Matrix"
    assume IH: "\<And>num den z sm b alphas A y. loop num den z sm b alphas A = Some y
                  \<Longrightarrow> ?P num den z sm b alphas A y"
      and body: "(case SafeScaleStep num den z sm b of
                    (fin, numerator', denominator', alpha) \<Rightarrow>
                      if fin then Some (alphas @ [alpha], scale_by A alpha)
                      else loop numerator' denominator' z sm b (alphas @ [alpha])
                             (scale_by A alpha))
                 = Some y"
      and e: "num = Finite n \<and> den = PInf \<and> z = Finite 0 \<and> sm = Finite s"
    from e have "SafeScaleStep num den z sm b = (False, Finite n, PInf, Finite s)"
      using n s
      by (simp add: SafeScaleStep_def Let_def times_fpreal_def abs_fpreal_def less_fpreal_def)
    with body have "loop (Finite n) PInf z sm b (alphas @ [Finite s]) (scale_by A (Finite s))
                      = Some y"
      by simp
    from IH [OF this] e show False by simp
  qed
  note np = this
  show ?thesis
  proof (rule ccontr)
    assume "SafeScale_loop (Finite n) PInf (Finite 0) (Finite s) b alphas A \<noteq> None"
    then obtain y where "SafeScale_loop (Finite n) PInf (Finite 0) (Finite s) b alphas A = Some y"
      by auto
    from np [OF this] show False by simp
  qed
qed

lemma SafeScale_loop_infinite_numerator:
  assumes b: "0 < b"
  shows "SafeScale_loop PInf (Finite d) (Finite 0) (Finite s) (Finite b) alphas A = None"
proof -
  let ?P = "\<lambda>(num::fpreal) (den::fpreal) (z::fpreal) (sm::fpreal) (bg::fpreal)
              (alphas::fpreal list) (A::fpreal Matrix) (y::fpreal list \<times> fpreal Matrix).
              \<not> (num = PInf \<and> den = Finite d \<and> z = Finite 0 \<and> sm = Finite s \<and> bg = Finite b)"
  have "?P num den z sm bg alphas A y"
    if l: "SafeScale_loop num den z sm bg alphas A = Some y" for num den z sm bg alphas A y
  proof (rule SafeScale_loop.raw_induct [where P = ?P, OF _ l], rule notI)
    fix loop :: "fpreal \<Rightarrow> fpreal \<Rightarrow> fpreal \<Rightarrow> fpreal \<Rightarrow> fpreal \<Rightarrow> fpreal list \<Rightarrow> fpreal Matrix
                 \<Rightarrow> (fpreal list \<times> fpreal Matrix) option"
    fix num den z sm bg :: fpreal and alphas :: "fpreal list" and A :: "fpreal Matrix"
      and y :: "fpreal list \<times> fpreal Matrix"
    assume IH: "\<And>num den z sm bg alphas A y. loop num den z sm bg alphas A = Some y
                  \<Longrightarrow> ?P num den z sm bg alphas A y"
      and body: "(case SafeScaleStep num den z sm bg of
                    (fin, numerator', denominator', alpha) \<Rightarrow>
                      if fin then Some (alphas @ [alpha], scale_by A alpha)
                      else loop numerator' denominator' z sm bg (alphas @ [alpha])
                             (scale_by A alpha))
                 = Some y"
      and e: "num = PInf \<and> den = Finite d \<and> z = Finite 0 \<and> sm = Finite s \<and> bg = Finite b"
    from e have "SafeScaleStep num den z sm bg = (False, PInf, Finite d, Finite b)"
      using b
      by (simp add: SafeScaleStep_def Let_def times_fpreal_def divide_fpreal_def abs_fpreal_def
            less_fpreal_def)
    with body have "loop PInf (Finite d) z sm bg (alphas @ [Finite b]) (scale_by A (Finite b))
                      = Some y"
      by simp
    from IH [OF this] e show False by simp
  qed
  note np = this
  show ?thesis
  proof (rule ccontr)
    assume "SafeScale_loop PInf (Finite d) (Finite 0) (Finite s) (Finite b) alphas A \<noteq> None"
    then obtain y where
      "SafeScale_loop PInf (Finite d) (Finite 0) (Finite s) (Finite b) alphas A = Some y"
      by auto
    from np [OF this] show False by simp
  qed
qed

text \<open>
  Claim C9, for finite operands. For every finite numerator and every finite nonzero
  denominator the loop of \<open>SafeScale\<close> terminates (the operands are taken in
  \<open>fpreal\<close>, whose arithmetic on finite values is exact): it returns after the
  finitely many steps listed in \<open>alphas\<close>. Every step that is not the final one
  strictly shrinks the magnitude of the denominator, or of the numerator, and leaves
  the other unchanged.
\<close>

theorem SafeScale_terminates:
  assumes "0 < smallNum" and "smallNum < 1" and "denominator \<noteq> 0"
  shows "(\<exists>alphas A'. SafeScale (Finite smallNum) (Finite numerator) (Finite denominator) A
                        = Some (alphas, A'))
       \<and> (\<forall>numerator' denominator' alpha.
            SafeScaleStep (Finite numerator) (Finite denominator) 0 (Finite smallNum)
                (1 / Finite smallNum)
              = (False, numerator', denominator', alpha) \<longrightarrow>
            (numerator' = Finite numerator \<and> \<bar>denominator'\<bar> < \<bar>Finite denominator\<bar>)
          \<or> (denominator' = Finite denominator \<and> \<bar>numerator'\<bar> < \<bar>Finite numerator\<bar>))"
proof
  have one: "1 / Finite smallNum = Finite (1 / smallNum)"
    using assms by (simp add: one_fpreal_def)
  from SafeScale_loop_total [OF assms, of numerator "[]" toyA]
  obtain y where "SafeScale_loop numerator denominator 0 smallNum (1 / smallNum) [] toyA = Some y"
    by blast
  from SafeScale_loop_Finite [OF this, of "[]" A] assms
  show "\<exists>alphas A'. SafeScale (Finite smallNum) (Finite numerator) (Finite denominator) A
                      = Some (alphas, A')"
    by (auto simp add: SafeScale_def one zero_fpreal_def)
next
  have one: "1 / Finite smallNum = Finite (1 / smallNum)"
    using assms by (simp add: one_fpreal_def)
  have d: "\<bar>denominator * smallNum\<bar> < \<bar>denominator\<bar>"
    using assms by (simp add: abs_mult)
  have n: "\<bar>numerator * smallNum\<bar> < \<bar>numerator\<bar>"
    if "\<bar>denominator\<bar> < \<bar>numerator * smallNum\<bar>"
  proof -
    from that have "numerator \<noteq> 0" by auto
    then show ?thesis using assms by (simp add: abs_mult)
  qed
  have st: "SafeScaleStep (Finite numerator) (Finite denominator) 0 (Finite smallNum)
              (1 / Finite smallNum)
            = (case SafeScaleStep numerator denominator 0 smallNum (1 / smallNum) of
                 (done, n', d', a) \<Rightarrow> (done, Finite n', Finite d', Finite a))"
    unfolding one zero_fpreal_def
    using assms by (intro SafeScaleStep_Finite) simp_all
  show "\<forall>numerator' denominator' alpha.
            SafeScaleStep (Finite numerator) (Finite denominator) 0 (Finite smallNum)
                (1 / Finite smallNum)
              = (False, numerator', denominator', alpha) \<longrightarrow>
            (numerator' = Finite numerator \<and> \<bar>denominator'\<bar> < \<bar>Finite denominator\<bar>)
          \<or> (denominator' = Finite denominator \<and> \<bar>numerator'\<bar> < \<bar>Finite numerator\<bar>)"
    unfolding st using d n by (auto simp add: SafeScaleStep_def Let_def split: if_splits)
qed

theorem SafeScale_terminates_witness:
  "(0::real) < 1 / 4 \<and> (1::real) / 4 < 1 \<and> (100::real) \<noteq> 0 \<and>
   (\<exists>alphas A'. SafeScale (Finite (1 / 4)) (Finite 1) (Finite 100) toyF = Some (alphas, A')) \<and>
   SafeScaleStep (Finite 1) (Finite 100) 0 (Finite (1 / 4)) (1 / Finite (1 / 4))
     = (False, Finite 1, Finite 25, Finite (1 / 4)) \<and>
   \<bar>Finite 25\<bar> < \<bar>Finite 100\<bar>"
  using SafeScale_terminates [of "1 / 4" 100 1 toyF]
  by (simp add: SafeScaleStep_def zero_fpreal_def one_fpreal_def)

text \<open>
  The claim C9 as it is worded speaks of every numerator and every nonzero denominator.
  An infinite denominator is nonzero, and with it and a finite nonzero numerator
  \<open>shrunkDenominator = denominator * smallNum\<close> is infinite again: the step returns
  \<open>false\<close> with \<open>numerator\<close> and \<open>denominator\<close> as they were, no magnitude shrinks,
  and the loop never returns. The same happens with an infinite numerator and a finite
  denominator, where \<open>shrunkNumerator = numerator / bigNum\<close> is infinite again.
\<close>

theorem SafeScale_infinite_operand_counterexample:
  "PInf \<noteq> (0::fpreal) \<and>
   SafeScaleStep (Finite 1) PInf 0 (Finite (1 / 4)) (1 / Finite (1 / 4))
     = (False, Finite 1, PInf, Finite (1 / 4)) \<and>
   SafeScale (Finite (1 / 4)) (Finite 1) PInf toyF = None \<and>
   Finite 1 \<noteq> (0::fpreal) \<and>
   SafeScaleStep PInf (Finite 1) 0 (Finite (1 / 4)) (1 / Finite (1 / 4))
     = (False, PInf, Finite 1, Finite 4) \<and>
   SafeScale (Finite (1 / 4)) PInf (Finite 1) toyF = None"
  using SafeScale_loop_infinite_denominator [of 1 "1 / 4" "1 / Finite (1 / 4)" "[]" toyF]
    SafeScale_loop_infinite_numerator [of 4 1 "1 / 4" "[]" toyF]
  by (simp add: SafeScale_def SafeScaleStep_def Let_def zero_fpreal_def one_fpreal_def
        times_fpreal_def divide_fpreal_def abs_fpreal_def less_fpreal_def)

section \<open>Properties of the interior-point solver\<close>

lemma rb_formula: "Gemv NORMAL 1 A x 1 (vscale b (- 1)) = vsub (mat_vec A x) b"
proof -
  have "map2 (\<lambda>i yi. h i + yi) js (map (\<lambda>vi. - vi) b) = map2 (\<lambda>vi wi. vi - wi) (map h js) b" for h :: "nat \<Rightarrow> real" and js
  proof (induction js arbitrary: b)
    case Nil
    then show ?case by simp
  next
    case (Cons j js)
    then show ?case by (cases b) simp_all
  qed
  then show ?thesis by (simp add: vscale_def vsub_def mat_vec_def)
qed

lemma rc_formula: "vsub (Gemv TRANSPOSE 1 A y 1 c) z = vadd (vsub (matT_vec A y) z) c"
proof -
  have "map2 (\<lambda>vi wi. vi - wi) (map2 (\<lambda>j cj. h j + cj) js c) z
      = map2 (\<lambda>vi wi. vi + wi) (map2 (\<lambda>vi wi. vi - wi) (map h js) z) c" for h :: "nat \<Rightarrow> real" and js
  proof (induction js arbitrary: c z)
    case Nil
    then show ?case by simp
  next
    case (Cons j js)
    then show ?case by (cases c; cases z) simp_all
  qed
  then show ?thesis by (simp add: vsub_def vadd_def matT_vec_def)
qed

lemma IPF_relError_formula:
  "snd (snd (IPF_relError A b c bNrm2 cNrm2 (x, y, z))) =
     max (max (\<bar>Dot c x - (- Dot b y)\<bar> / (1 + \<bar>Dot c x\<bar>))
              (Nrm2 (vsub (mat_vec A x) b) / (1 + bNrm2)))
         (Nrm2 (vadd (vsub (matT_vec A y) z) c) / (1 + cNrm2))"
  unfolding IPF_relError_def Let_def rb_formula rc_formula by simp

lemma NumNonPositive_pos: "NumNonPositive v > 0 \<longleftrightarrow> (\<exists>e\<in>set v. e \<le> 0)"
  by (simp add: NumNonPositive_def filter_empty_conv)

lemma IPF_loop_Throw:
  "numIts \<le> maxIts ctrl \<Longrightarrow> IPF_iteration K ctrl A b c bNrm2 cNrm2 m n numIts it = Throw e it' \<Longrightarrow>
   IPF_loop K ctrl A b c bNrm2 cNrm2 m n numIts it = Inl (e, it')"
  by (subst IPF_loop.simps) simp

lemma IPF_loop_Break:
  "numIts \<le> maxIts ctrl \<Longrightarrow> IPF_iteration K ctrl A b c bNrm2 cNrm2 m n numIts it = Break it' \<Longrightarrow>
   IPF_loop K ctrl A b c bNrm2 cNrm2 m n numIts it = Inr it'"
  by (subst IPF_loop.simps) simp

lemma IPF_loop_Continue:
  "numIts \<le> maxIts ctrl \<Longrightarrow> IPF_iteration K ctrl A b c bNrm2 cNrm2 m n numIts it = Continue it' \<Longrightarrow>
   IPF_loop K ctrl A b c bNrm2 cNrm2 m n numIts it
     = IPF_loop K ctrl A b c bNrm2 cNrm2 m n (numIts + 1) it'"
  by (subst IPF_loop.simps) simp

lemma IPF_loop_past: "\<not> numIts \<le> maxIts ctrl \<Longrightarrow> IPF_loop K ctrl A b c bNrm2 cNrm2 m n numIts it = Inr it"
  by (subst IPF_loop.simps) simp

lemma IPF_iteration_guard:
  "(\<exists>e\<in>set x. e \<le> 0) \<or> (\<exists>e\<in>set z. e \<le> 0) \<Longrightarrow>
   IPF_iteration K ctrl A b c bNrm2 cNrm2 m n numIts (x, y, z)
     = Throw (NonPositiveEntries (NumNonPositive x) (NumNonPositive z)) (x, y, z)"
  by (auto simp add: IPF_iteration_def Let_def NumNonPositive_pos)

lemma IPF_iteration_converged:
  assumes "NumNonPositive x = 0" and "NumNonPositive z = 0"
    and "IPF_relError A b c bNrm2 cNrm2 (x, y, z) = (rb, rc, relError)"
    and "relError \<le> targetTol ctrl"
  shows "IPF_iteration K ctrl A b c bNrm2 cNrm2 m n numIts (x, y, z) = Break (x, y, z)"
  using assms by (simp add: IPF_iteration_def)

lemma IPF_iteration_budget:
  assumes "NumNonPositive x = 0" and "NumNonPositive z = 0"
    and "IPF_relError A b c bNrm2 cNrm2 (x, y, z) = (rb, rc, relError)"
    and "\<not> relError \<le> targetTol ctrl" and "numIts = maxIts ctrl" and "relError > minTol ctrl"
  shows "IPF_iteration K ctrl A b c bNrm2 cNrm2 m n numIts (x, y, z)
           = Throw MaxItsExceeded (x, y, z)"
  using assms by (simp add: IPF_iteration_def)

lemma IPF_iteration_direction:
  assumes "NumNonPositive x = 0" and "NumNonPositive z = 0"
    and "IPF_relError A b c bNrm2 cNrm2 (x, y, z) = (rb, rc, relError)"
    and "\<not> relError \<le> targetTol ctrl" and "\<not> (numIts = maxIts ctrl \<and> relError > minTol ctrl)"
  shows "IPF_iteration K ctrl A b c bNrm2 cNrm2 m n numIts (x, y, z) =
     (case IPF_direction K ctrl A c m n x z rc rb (IPF_rmu ctrl n x z) of
        None \<Rightarrow> if relError \<le> minTol ctrl then Break (x, y, z)
                else Throw MinTolNotAchieved (x, y, z)
      | Some dir \<Rightarrow> IPF_takeStep K ctrl A b c bNrm2 cNrm2 relError (x, y, z) dir)"
  using assms
  by (cases "system ctrl")
     (auto simp add: IPF_iteration_def IPF_direction_def IPF_rmu_def Let_def split: option.splits)

lemma IPF_sparse_iteration_direction:
  assumes "NumNonPositive x = 0" and "NumNonPositive z = 0"
    and "IPF_relError A b c bNrm2 cNrm2 (x, y, z) = (rb, rc, relError)"
    and "\<not> relError \<le> targetTol ctrl" and "\<not> (numIts = maxIts ctrl \<and> relError > minTol ctrl)"
  shows "IPF_sparse_iteration K ctrl A b c bNrm2 cNrm2 m n reg numIts ((x, y, z), symb) =
     (case IPF_sparse_direction K ctrl A c m n reg numIts x z rc rb (IPF_rmu ctrl n x z) symb of
        (symb', None) \<Rightarrow>
          if relError \<le> minTol ctrl then Break ((x, y, z), symb')
          else Throw MinTolNotAchieved ((x, y, z), symb')
      | (symb', Some dir) \<Rightarrow>
          with_sym symb' (IPF_takeStep K ctrl A b c bNrm2 cNrm2 relError (x, y, z) dir))"
proof (cases "system ctrl")
  case FULL_KKT
  with assms show ?thesis
    by (auto simp add: IPF_sparse_iteration_def IPF_sparse_direction_def IPF_rmu_def Let_def
          split: option.splits prod.splits)
next
  case AUGMENTED_KKT
  with assms show ?thesis
    by (auto simp add: IPF_sparse_iteration_def IPF_sparse_direction_def IPF_rmu_def Let_def
          split: option.splits prod.splits)
next
  case NORMAL_KKT
  with assms show ?thesis
    by (auto simp add: IPF_sparse_iteration_def IPF_sparse_direction_def IPF_rmu_def Let_def
          split: option.splits prod.splits)
qed

lemma IPF_sparse_loop_Throw:
  "numIts \<le> maxIts ctrl \<Longrightarrow>
   IPF_sparse_iteration K ctrl A b c bNrm2 cNrm2 m n reg numIts st = Throw e st' \<Longrightarrow>
   IPF_sparse_loop K ctrl A b c bNrm2 cNrm2 m n reg numIts st = Inl (e, st')"
  by (subst IPF_sparse_loop.simps) simp

lemma IPF_sparse_loop_Break:
  "numIts \<le> maxIts ctrl \<Longrightarrow>
   IPF_sparse_iteration K ctrl A b c bNrm2 cNrm2 m n reg numIts st = Break st' \<Longrightarrow>
   IPF_sparse_loop K ctrl A b c bNrm2 cNrm2 m n reg numIts st = Inr st'"
  by (subst IPF_sparse_loop.simps) simp

lemma IPF_sparse_loop_Continue:
  "numIts \<le> maxIts ctrl \<Longrightarrow>
   IPF_sparse_iteration K ctrl A b c bNrm2 cNrm2 m n reg numIts st = Continue st' \<Longrightarrow>
   IPF_sparse_loop K ctrl A b c bNrm2 cNrm2 m n reg numIts st
     = IPF_sparse_loop K ctrl A b c bNrm2 cNrm2 m n reg (numIts + 1) st'"
  by (subst IPF_sparse_loop.simps) simp

lemma IPF_sparse_loop_past:
  "\<not> numIts \<le> maxIts ctrl \<Longrightarrow>
   IPF_sparse_loop K ctrl A b c bNrm2 cNrm2 m n reg numIts st = Inr st"
  by (subst IPF_sparse_loop.simps) simp

lemma Axpy_zero: "length dx = length x \<Longrightarrow> Axpy 0 dx x = x"
  by (induction dx x rule: list_induct2) (simp_all add: Axpy_def)

lemma IPF_takeStep_zero:
  assumes "IPFLineSearch K A b c x y z dx dy dz
             (0.99 * min (MaxStepInPositiveCone K x dx 1) (MaxStepInPositiveCone K z dz 1))
             (targetTol ctrl * (1 + bNrm2)) (targetTol ctrl * (1 + cNrm2)) = 0"
    and "length dx = length x" and "length dy = length y" and "length dz = length z"
  shows "IPF_takeStep K ctrl A b c bNrm2 cNrm2 relError (x, y, z) (dx, dy, dz) =
           (if relError \<le> minTol ctrl then Break (x, y, z)
            else Throw MinTolNotAchieved (x, y, z))"
  using assms by (simp add: IPF_takeStep_def Let_def Axpy_zero)

lemma IPF_takeStep_soft:
  assumes "relError \<le> minTol ctrl"
  shows "IPF_takeStep K ctrl A b c bNrm2 cNrm2 relError it dir
           = Break (IPF_stepped K ctrl A b c bNrm2 cNrm2 it dir)
       \<or> IPF_takeStep K ctrl A b c bNrm2 cNrm2 relError it dir
           = Continue (IPF_stepped K ctrl A b c bNrm2 cNrm2 it dir)"
  using assms
  by (cases it; cases dir) (simp add: IPF_takeStep_def IPF_stepped_def Let_def)

lemma IPF_passes_bound:
  "IPF_passes K ctrl A b c bNrm2 cNrm2 m n numIts it \<le> nat (maxIts ctrl + 1 - numIts)"
proof (induction K ctrl A b c bNrm2 cNrm2 m n numIts it rule: IPF_passes.induct)
  case (1 K ctrl A b c bNrm2 cNrm2 m n numIts it)
  show ?case
  proof (cases "numIts \<le> maxIts ctrl")
    case False
    then show ?thesis by (subst IPF_passes.simps) simp
  next
    case True
    show ?thesis
    proof (cases "IPF_iteration K ctrl A b c bNrm2 cNrm2 m n numIts it")
      case (Continue it')
      from "1.IH" [OF True Continue]
      have "IPF_passes K ctrl A b c bNrm2 cNrm2 m n (numIts + 1) it'
              \<le> nat (maxIts ctrl + 1 - (numIts + 1))" .
      with True Continue show ?thesis by (subst IPF_passes.simps) simp
    next
      case (Break it')
      with True show ?thesis by (subst IPF_passes.simps) simp
    next
      case (Throw e it')
      with True show ?thesis by (subst IPF_passes.simps) simp
    qed
  qed
qed




lemma IPF_sparse_direction_fst:
  "fst (IPF_sparse_direction K ctrl A c m n reg numIts x z rc rb rmu symb) =
     (if numIts = 0 \<and> (system ctrl = AUGMENTED_KKT \<longrightarrow> primalInit ctrl \<and> dualInit ctrl)
      then analyse K (IPF_sparse_J K ctrl A x z reg) else symb)"
  by (cases "system ctrl")
     (auto simp add: IPF_sparse_direction_def IPF_sparse_J_def Let_def split: prod.splits)

lemma with_sym_Continue: "with_sym s step = Continue (it', s') \<Longrightarrow> s' = s"
  by (cases step) (simp_all add: with_sym_def)

lemma with_sym_Break: "with_sym s step = Break (it', s') \<Longrightarrow> s' = s"
  by (cases step) (simp_all add: with_sym_def)

lemma IPF_sparse_iteration_early:
  assumes "\<not> (NumNonPositive x = 0 \<and> NumNonPositive z = 0 \<and>
              \<not> snd (snd (IPF_relError A b c bNrm2 cNrm2 (x, y, z))) \<le> targetTol ctrl \<and>
              \<not> (numIts = maxIts ctrl \<and> snd (snd (IPF_relError A b c bNrm2 cNrm2 (x, y, z))) > minTol ctrl))"
    and "IPF_sparse_iteration K ctrl A b c bNrm2 cNrm2 m n reg numIts ((x, y, z), symb) = Continue (it', symb')
       \<or> IPF_sparse_iteration K ctrl A b c bNrm2 cNrm2 m n reg numIts ((x, y, z), symb) = Break (it', symb')"
  shows "symb' = symb"
  using assms
  by (cases "IPF_relError A b c bNrm2 cNrm2 (x, y, z)")
     (auto simp add: IPF_sparse_iteration_def Let_def split: if_splits)

lemma IPF_sparse_iteration_symb:
  assumes "IPF_sparse_iteration K ctrl A b c bNrm2 cNrm2 m n reg numIts ((x, y, z), symb) = Continue (it', symb')
       \<or> IPF_sparse_iteration K ctrl A b c bNrm2 cNrm2 m n reg numIts ((x, y, z), symb) = Break (it', symb')"
  shows "symb' =
         (if NumNonPositive x = 0 \<and> NumNonPositive z = 0 \<and>
             \<not> snd (snd (IPF_relError A b c bNrm2 cNrm2 (x, y, z))) \<le> targetTol ctrl \<and>
             numIts = 0 \<and> (system ctrl = AUGMENTED_KKT \<longrightarrow> primalInit ctrl \<and> dualInit ctrl)
          then analyse K (IPF_sparse_J K ctrl A x z reg) else symb)"
proof (cases "NumNonPositive x = 0 \<and> NumNonPositive z = 0 \<and>
              \<not> snd (snd (IPF_relError A b c bNrm2 cNrm2 (x, y, z))) \<le> targetTol ctrl \<and>
              \<not> (numIts = maxIts ctrl \<and> snd (snd (IPF_relError A b c bNrm2 cNrm2 (x, y, z))) > minTol ctrl)")
  case False
  show ?thesis
  proof (cases "numIts = maxIts ctrl \<and> snd (snd (IPF_relError A b c bNrm2 cNrm2 (x, y, z))) > minTol ctrl
                \<and> NumNonPositive x = 0 \<and> NumNonPositive z = 0 \<and>
              \<not> snd (snd (IPF_relError A b c bNrm2 cNrm2 (x, y, z))) \<le> targetTol ctrl")
    case True
    then have "IPF_sparse_iteration K ctrl A b c bNrm2 cNrm2 m n reg numIts ((x, y, z), symb)
                 = Throw MaxItsExceeded ((x, y, z), symb)"
      by (cases "IPF_relError A b c bNrm2 cNrm2 (x, y, z)")
         (simp add: IPF_sparse_iteration_def Let_def)
    with assms show ?thesis by simp
  next
    case F2: False
    from IPF_sparse_iteration_early [OF False assms] False F2 show ?thesis by auto
  qed
next
  case True
  obtain rb rc relError where r: "IPF_relError A b c bNrm2 cNrm2 (x, y, z) = (rb, rc, relError)"
    by (cases "IPF_relError A b c bNrm2 cNrm2 (x, y, z)") auto
  with True have t: "NumNonPositive x = 0" "NumNonPositive z = 0" "\<not> relError \<le> targetTol ctrl"
    "\<not> (numIts = maxIts ctrl \<and> relError > minTol ctrl)" by simp_all
  let ?D = "IPF_sparse_direction K ctrl A c m n reg numIts x z rc rb (IPF_rmu ctrl n x z) symb"
  note eq = IPF_sparse_iteration_direction [OF t(1,2) r t(3,4), of K m n reg symb]
  have "symb' = fst ?D"
  proof (cases ?D)
    case (Pair s d)
    show ?thesis
    proof (cases d)
      case None
      with Pair eq assms show ?thesis by (auto split: if_splits)
    next
      case (Some dir)
      with Pair eq assms show ?thesis by (auto dest: with_sym_Continue with_sym_Break)
    qed
  qed
  then show ?thesis using t r by (auto simp add: IPF_sparse_direction_fst)
qed

lemma IPF_sparse_loop_reuse:
  assumes "0 < numIts \<or> (system ctrl = AUGMENTED_KKT \<and> \<not> (primalInit ctrl \<and> dualInit ctrl))"
    and "IPF_sparse_loop K ctrl A b c bNrm2 cNrm2 m n reg numIts (it, symb) = Inr (it', symb')"
  shows "symb' = symb"
  using assms
proof (induction K ctrl A b c bNrm2 cNrm2 m n reg numIts "(it, symb)" arbitrary: it symb
         rule: IPF_sparse_loop.induct)
  case (1 K ctrl A b c bNrm2 cNrm2 m n reg numIts)
  obtain x y z where it: "it = (x, y, z)" by (cases it) auto
  show ?case
  proof (cases "numIts \<le> maxIts ctrl")
    case False
    show ?thesis using "1.prems"(2) by (simp add: IPF_sparse_loop_past [OF False])
  next
    case True
    show ?thesis
    proof (cases "IPF_sparse_iteration K ctrl A b c bNrm2 cNrm2 m n reg numIts (it, symb)")
      case (Throw e st')
      from IPF_sparse_loop_Throw [OF True Throw] "1.prems"(2) show ?thesis by simp
    next
      case (Break st')
      from IPF_sparse_loop_Break [OF True Break] "1.prems"(2) have "st' = (it', symb')" by simp
      with Break it IPF_sparse_iteration_symb [of K ctrl A b c bNrm2 cNrm2 m n reg numIts x y z symb it' symb']
        "1.prems"(1)
      show ?thesis by auto
    next
      case (Continue st')
      obtain it1 symb1 where st': "st' = (it1, symb1)" by (cases st') auto
      with Continue it IPF_sparse_iteration_symb [of K ctrl A b c bNrm2 cNrm2 m n reg numIts x y z symb it1 symb1]
        "1.prems"(1)
      have s1: "symb1 = symb" by auto
      from IPF_sparse_loop_Continue [OF True Continue] "1.prems"(2) st'
      have "IPF_sparse_loop K ctrl A b c bNrm2 cNrm2 m n reg (numIts + 1) (it1, symb1) = Inr (it', symb')"
        by simp
      moreover from Continue st'
      have "IPF_sparse_iteration K ctrl A b c bNrm2 cNrm2 m n reg numIts (it, symb)
              = Continue (it1, symb1)" by simp
      ultimately have "symb' = symb1"
        using "1.hyps" [OF True, of it1 symb1] "1.prems"(1) by auto
      with s1 show ?thesis by simp
    qed
  qed
qed

lemma IPF_sparse_loop_first:
  assumes le: "0 \<le> maxIts ctrl"
    and g: "system ctrl \<noteq> AUGMENTED_KKT \<or> (primalInit ctrl \<and> dualInit ctrl)"
    and r: "NumNonPositive x = 0 \<and> NumNonPositive z = 0 \<and>
            \<not> snd (snd (IPF_relError A b c bNrm2 cNrm2 (x, y, z))) \<le> targetTol ctrl"
    and l: "IPF_sparse_loop K ctrl A b c bNrm2 cNrm2 m n reg 0 ((x, y, z), symb) = Inr (it', symb')"
  shows "symb' = analyse K (IPF_sparse_J K ctrl A x z reg)"
proof (cases "IPF_sparse_iteration K ctrl A b c bNrm2 cNrm2 m n reg 0 ((x, y, z), symb)")
  case (Throw e st')
  from IPF_sparse_loop_Throw [OF le Throw] l show ?thesis by simp
next
  case (Break st')
  from IPF_sparse_loop_Break [OF le Break] l have "st' = (it', symb')" by simp
  with Break IPF_sparse_iteration_symb [of K ctrl A b c bNrm2 cNrm2 m n reg 0 x y z symb it' symb']
    g r
  show ?thesis by auto
next
  case (Continue st')
  obtain it1 symb1 where st': "st' = (it1, symb1)" by (cases st') auto
  with Continue IPF_sparse_iteration_symb [of K ctrl A b c bNrm2 cNrm2 m n reg 0 x y z symb it1 symb1]
    g r
  have s1: "symb1 = analyse K (IPF_sparse_J K ctrl A x z reg)" by auto
  from IPF_sparse_loop_Continue [OF le Continue] l st'
  have "IPF_sparse_loop K ctrl A b c bNrm2 cNrm2 m n reg 1 (it1, symb1) = Inr (it', symb')"
    by simp
  from IPF_sparse_loop_reuse [OF _ this] s1 show ?thesis by simp
qed

lemma IPF_dist_sparse_iteration_direction:
  assumes "NumNonPositive x = 0" and "NumNonPositive z = 0"
    and "IPF_relError A b c bNrm2 cNrm2 (x, y, z) = (rb, rc, relError)"
    and "\<not> relError \<le> targetTol ctrl" and "\<not> (numIts = maxIts ctrl \<and> relError > minTol ctrl)"
  shows "IPF_dist_sparse_iteration K ctrl A b c bNrm2 cNrm2 m n reg numIts ((x, y, z), symb) =
     (case IPF_dist_sparse_direction K ctrl A c m n reg numIts x z rc rb (IPF_rmu ctrl n x z) symb of
        (symb', None) \<Rightarrow>
          if relError \<le> minTol ctrl then Break ((x, y, z), symb')
          else Throw MinTolNotAchieved ((x, y, z), symb')
      | (symb', Some dir) \<Rightarrow>
          with_sym symb' (IPF_takeStep K ctrl A b c bNrm2 cNrm2 relError (x, y, z) dir))"
proof (cases "system ctrl")
  case FULL_KKT
  with assms show ?thesis
    by (auto simp add: IPF_dist_sparse_iteration_def IPF_dist_sparse_direction_def IPF_rmu_def Let_def
          split: option.splits prod.splits)
next
  case AUGMENTED_KKT
  with assms show ?thesis
    by (auto simp add: IPF_dist_sparse_iteration_def IPF_dist_sparse_direction_def IPF_rmu_def Let_def
          split: option.splits prod.splits)
next
  case NORMAL_KKT
  with assms show ?thesis
    by (auto simp add: IPF_dist_sparse_iteration_def IPF_dist_sparse_direction_def IPF_rmu_def Let_def
          split: option.splits prod.splits)
qed

lemma IPF_dist_sparse_loop_Throw:
  "numIts \<le> maxIts ctrl \<Longrightarrow>
   IPF_dist_sparse_iteration K ctrl A b c bNrm2 cNrm2 m n reg numIts st = Throw e st' \<Longrightarrow>
   IPF_dist_sparse_loop K ctrl A b c bNrm2 cNrm2 m n reg numIts st = Inl (e, st')"
  by (subst IPF_dist_sparse_loop.simps) simp

lemma IPF_dist_sparse_loop_Break:
  "numIts \<le> maxIts ctrl \<Longrightarrow>
   IPF_dist_sparse_iteration K ctrl A b c bNrm2 cNrm2 m n reg numIts st = Break st' \<Longrightarrow>
   IPF_dist_sparse_loop K ctrl A b c bNrm2 cNrm2 m n reg numIts st = Inr st'"
  by (subst IPF_dist_sparse_loop.simps) simp

lemma IPF_dist_sparse_loop_Continue:
  "numIts \<le> maxIts ctrl \<Longrightarrow>
   IPF_dist_sparse_iteration K ctrl A b c bNrm2 cNrm2 m n reg numIts st = Continue st' \<Longrightarrow>
   IPF_dist_sparse_loop K ctrl A b c bNrm2 cNrm2 m n reg numIts st
     = IPF_dist_sparse_loop K ctrl A b c bNrm2 cNrm2 m n reg (numIts + 1) st'"
  by (subst IPF_dist_sparse_loop.simps) simp

lemma IPF_dist_sparse_loop_past:
  "\<not> numIts \<le> maxIts ctrl \<Longrightarrow>
   IPF_dist_sparse_loop K ctrl A b c bNrm2 cNrm2 m n reg numIts st = Inr st"
  by (subst IPF_dist_sparse_loop.simps) simp

lemma IPF_dist_sparse_direction_fst:
  "fst (IPF_dist_sparse_direction K ctrl A c m n reg numIts x z rc rb rmu symb) =
     (if numIts = 0 \<and> (system ctrl = AUGMENTED_KKT \<longrightarrow> primalInit ctrl \<and> dualInit ctrl)
      then analyse K (IPF_sparse_J K ctrl A x z reg) else symb)"
  by (cases "system ctrl")
     (auto simp add: IPF_dist_sparse_direction_def IPF_sparse_J_def Let_def split: prod.splits)

lemma IPF_dist_sparse_iteration_early:
  assumes "\<not> (NumNonPositive x = 0 \<and> NumNonPositive z = 0 \<and>
              \<not> snd (snd (IPF_relError A b c bNrm2 cNrm2 (x, y, z))) \<le> targetTol ctrl \<and>
              \<not> (numIts = maxIts ctrl \<and> snd (snd (IPF_relError A b c bNrm2 cNrm2 (x, y, z))) > minTol ctrl))"
    and "IPF_dist_sparse_iteration K ctrl A b c bNrm2 cNrm2 m n reg numIts ((x, y, z), symb) = Continue (it', symb')
       \<or> IPF_dist_sparse_iteration K ctrl A b c bNrm2 cNrm2 m n reg numIts ((x, y, z), symb) = Break (it', symb')"
  shows "symb' = symb"
  using assms
  by (cases "IPF_relError A b c bNrm2 cNrm2 (x, y, z)")
     (auto simp add: IPF_dist_sparse_iteration_def Let_def split: if_splits)

lemma IPF_dist_sparse_iteration_symb:
  assumes "IPF_dist_sparse_iteration K ctrl A b c bNrm2 cNrm2 m n reg numIts ((x, y, z), symb) = Continue (it', symb')
       \<or> IPF_dist_sparse_iteration K ctrl A b c bNrm2 cNrm2 m n reg numIts ((x, y, z), symb) = Break (it', symb')"
  shows "symb' =
         (if NumNonPositive x = 0 \<and> NumNonPositive z = 0 \<and>
             \<not> snd (snd (IPF_relError A b c bNrm2 cNrm2 (x, y, z))) \<le> targetTol ctrl \<and>
             numIts = 0 \<and> (system ctrl = AUGMENTED_KKT \<longrightarrow> primalInit ctrl \<and> dualInit ctrl)
          then analyse K (IPF_sparse_J K ctrl A x z reg) else symb)"
proof (cases "NumNonPositive x = 0 \<and> NumNonPositive z = 0 \<and>
              \<not> snd (snd (IPF_relError A b c bNrm2 cNrm2 (x, y, z))) \<le> targetTol ctrl \<and>
              \<not> (numIts = maxIts ctrl \<and> snd (snd (IPF_relError A b c bNrm2 cNrm2 (x, y, z))) > minTol ctrl)")
  case False
  show ?thesis
  proof (cases "numIts = maxIts ctrl \<and> snd (snd (IPF_relError A b c bNrm2 cNrm2 (x, y, z))) > minTol ctrl
                \<and> NumNonPositive x = 0 \<and> NumNonPositive z = 0 \<and>
              \<not> snd (snd (IPF_relError A b c bNrm2 cNrm2 (x, y, z))) \<le> targetTol ctrl")
    case True
    then have "IPF_dist_sparse_iteration K ctrl A b c bNrm2 cNrm2 m n reg numIts ((x, y, z), symb)
                 = Throw MaxItsExceeded ((x, y, z), symb)"
      by (cases "IPF_relError A b c bNrm2 cNrm2 (x, y, z)")
         (simp add: IPF_dist_sparse_iteration_def Let_def)
    with assms show ?thesis by simp
  next
    case F2: False
    from IPF_dist_sparse_iteration_early [OF False assms] False F2 show ?thesis by auto
  qed
next
  case True
  obtain rb rc relError where r: "IPF_relError A b c bNrm2 cNrm2 (x, y, z) = (rb, rc, relError)"
    by (cases "IPF_relError A b c bNrm2 cNrm2 (x, y, z)") auto
  with True have t: "NumNonPositive x = 0" "NumNonPositive z = 0" "\<not> relError \<le> targetTol ctrl"
    "\<not> (numIts = maxIts ctrl \<and> relError > minTol ctrl)" by simp_all
  let ?D = "IPF_dist_sparse_direction K ctrl A c m n reg numIts x z rc rb (IPF_rmu ctrl n x z) symb"
  note eq = IPF_dist_sparse_iteration_direction [OF t(1,2) r t(3,4), of K m n reg symb]
  have "symb' = fst ?D"
  proof (cases ?D)
    case (Pair s d)
    show ?thesis
    proof (cases d)
      case None
      with Pair eq assms show ?thesis by (auto split: if_splits)
    next
      case (Some dir)
      with Pair eq assms show ?thesis by (auto dest: with_sym_Continue with_sym_Break)
    qed
  qed
  then show ?thesis using t r by (auto simp add: IPF_dist_sparse_direction_fst)
qed

lemma IPF_dist_sparse_loop_reuse:
  assumes "0 < numIts \<or> (system ctrl = AUGMENTED_KKT \<and> \<not> (primalInit ctrl \<and> dualInit ctrl))"
    and "IPF_dist_sparse_loop K ctrl A b c bNrm2 cNrm2 m n reg numIts (it, symb) = Inr (it', symb')"
  shows "symb' = symb"
  using assms
proof (induction K ctrl A b c bNrm2 cNrm2 m n reg numIts "(it, symb)" arbitrary: it symb
         rule: IPF_dist_sparse_loop.induct)
  case (1 K ctrl A b c bNrm2 cNrm2 m n reg numIts)
  obtain x y z where it: "it = (x, y, z)" by (cases it) auto
  show ?case
  proof (cases "numIts \<le> maxIts ctrl")
    case False
    show ?thesis using "1.prems"(2) by (simp add: IPF_dist_sparse_loop_past [OF False])
  next
    case True
    show ?thesis
    proof (cases "IPF_dist_sparse_iteration K ctrl A b c bNrm2 cNrm2 m n reg numIts (it, symb)")
      case (Throw e st')
      from IPF_dist_sparse_loop_Throw [OF True Throw] "1.prems"(2) show ?thesis by simp
    next
      case (Break st')
      from IPF_dist_sparse_loop_Break [OF True Break] "1.prems"(2) have "st' = (it', symb')" by simp
      with Break it IPF_dist_sparse_iteration_symb [of K ctrl A b c bNrm2 cNrm2 m n reg numIts x y z symb it' symb']
        "1.prems"(1)
      show ?thesis by auto
    next
      case (Continue st')
      obtain it1 symb1 where st': "st' = (it1, symb1)" by (cases st') auto
      with Continue it IPF_dist_sparse_iteration_symb [of K ctrl A b c bNrm2 cNrm2 m n reg numIts x y z symb it1 symb1]
        "1.prems"(1)
      have s1: "symb1 = symb" by auto
      from IPF_dist_sparse_loop_Continue [OF True Continue] "1.prems"(2) st'
      have "IPF_dist_sparse_loop K ctrl A b c bNrm2 cNrm2 m n reg (numIts + 1) (it1, symb1) = Inr (it', symb')"
        by simp
      moreover from Continue st'
      have "IPF_dist_sparse_iteration K ctrl A b c bNrm2 cNrm2 m n reg numIts (it, symb)
              = Continue (it1, symb1)" by simp
      ultimately have "symb' = symb1"
        using "1.hyps" [OF True, of it1 symb1] "1.prems"(1) by auto
      with s1 show ?thesis by simp
    qed
  qed
qed

lemma IPF_dist_sparse_loop_first:
  assumes le: "0 \<le> maxIts ctrl"
    and g: "system ctrl \<noteq> AUGMENTED_KKT \<or> (primalInit ctrl \<and> dualInit ctrl)"
    and r: "NumNonPositive x = 0 \<and> NumNonPositive z = 0 \<and>
            \<not> snd (snd (IPF_relError A b c bNrm2 cNrm2 (x, y, z))) \<le> targetTol ctrl"
    and l: "IPF_dist_sparse_loop K ctrl A b c bNrm2 cNrm2 m n reg 0 ((x, y, z), symb) = Inr (it', symb')"
  shows "symb' = analyse K (IPF_sparse_J K ctrl A x z reg)"
proof (cases "IPF_dist_sparse_iteration K ctrl A b c bNrm2 cNrm2 m n reg 0 ((x, y, z), symb)")
  case (Throw e st')
  from IPF_dist_sparse_loop_Throw [OF le Throw] l show ?thesis by simp
next
  case (Break st')
  from IPF_dist_sparse_loop_Break [OF le Break] l have "st' = (it', symb')" by simp
  with Break IPF_dist_sparse_iteration_symb [of K ctrl A b c bNrm2 cNrm2 m n reg 0 x y z symb it' symb']
    g r
  show ?thesis by auto
next
  case (Continue st')
  obtain it1 symb1 where st': "st' = (it1, symb1)" by (cases st') auto
  with Continue IPF_dist_sparse_iteration_symb [of K ctrl A b c bNrm2 cNrm2 m n reg 0 x y z symb it1 symb1]
    g r
  have s1: "symb1 = analyse K (IPF_sparse_J K ctrl A x z reg)" by auto
  from IPF_dist_sparse_loop_Continue [OF le Continue] l st'
  have "IPF_dist_sparse_loop K ctrl A b c bNrm2 cNrm2 m n reg 1 (it1, symb1) = Inr (it', symb')"
    by simp
  from IPF_dist_sparse_loop_reuse [OF _ this] s1 show ?thesis by simp
qed

lemma Nrm2_single: "Nrm2 [a] = \<bar>a\<bar>"
  by (simp add: Nrm2_def)

lemma toy_relError:
  "0 \<le> bn \<Longrightarrow> 0 \<le> cn \<Longrightarrow> IPF_relError toyA [1] [1] bn cn ([1], [0], [1]) = ([0], [0], 1 / 2)"
  by (simp add: IPF_relError_def toyA_def Dot_def row_def col_def vscale_def vsub_def
        Nrm2_single Let_def)

lemma toy_guard: "NumNonPositive [1] = 0"
  by (simp add: NumNonPositive_def)











text \<open>
  Claim C3. In an iteration that has passed the cone guard, the relative error is
  the largest of \<open>|c.x - (-b.y)| / (1 + |c.x|)\<close>, \<open>||A x - b|| / (1 + ||b||)\<close> and
  \<open>||A\<^sup>T y - z + c|| / (1 + ||c||)\<close>. When it is at most \<open>ctrl.targetTol\<close> the loop
  ends there and \<open>x\<close>, \<open>y\<close>, \<open>z\<close> are returned as they are; when it is not, the
  counter has reached \<open>ctrl.maxIts\<close> and the relative error exceeds \<open>ctrl.minTol\<close>,
  \<open>IPF\<close> raises the error of the exhausted budget.
\<close>

theorem IPF_convergence_test:
  assumes "numIts \<le> maxIts ctrl"
    and "NumNonPositive x = 0" and "NumNonPositive z = 0"
    and "relError = snd (snd (IPF_relError A b c (Nrm2 b) (Nrm2 c) (x, y, z)))"
  shows "relError =
           max (max (\<bar>Dot c x - (- Dot b y)\<bar> / (1 + \<bar>Dot c x\<bar>))
                    (Nrm2 (vsub (mat_vec A x) b) / (1 + Nrm2 b)))
               (Nrm2 (vadd (vsub (matT_vec A y) z) c) / (1 + Nrm2 c))
       \<and> (relError \<le> targetTol ctrl \<longrightarrow>
            IPF_loop K ctrl A b c (Nrm2 b) (Nrm2 c) m n numIts (x, y, z) = Inr (x, y, z))
       \<and> (\<not> relError \<le> targetTol ctrl \<and> numIts = maxIts ctrl \<and> relError > minTol ctrl \<longrightarrow>
            IPF_loop K ctrl A b c (Nrm2 b) (Nrm2 c) m n numIts (x, y, z)
              = Inl (MaxItsExceeded, (x, y, z)))"
proof -
  obtain rb rc where r: "IPF_relError A b c (Nrm2 b) (Nrm2 c) (x, y, z) = (rb, rc, relError)"
    using assms(4) by (cases "IPF_relError A b c (Nrm2 b) (Nrm2 c) (x, y, z)") auto
  have "relError =
           max (max (\<bar>Dot c x - (- Dot b y)\<bar> / (1 + \<bar>Dot c x\<bar>))
                    (Nrm2 (vsub (mat_vec A x) b) / (1 + Nrm2 b)))
               (Nrm2 (vadd (vsub (matT_vec A y) z) c) / (1 + Nrm2 c))"
    unfolding assms(4) by (rule IPF_relError_formula)
  moreover have "IPF_loop K ctrl A b c (Nrm2 b) (Nrm2 c) m n numIts (x, y, z) = Inr (x, y, z)"
    if "relError \<le> targetTol ctrl"
    using IPF_loop_Break [OF assms(1) IPF_iteration_converged [OF assms(2,3) r that]] .
  moreover have "IPF_loop K ctrl A b c (Nrm2 b) (Nrm2 c) m n numIts (x, y, z)
                   = Inl (MaxItsExceeded, (x, y, z))"
    if "\<not> relError \<le> targetTol ctrl" "numIts = maxIts ctrl" "relError > minTol ctrl"
    using IPF_loop_Throw [OF assms(1) IPF_iteration_budget [OF assms(2,3) r that]] .
  ultimately show ?thesis by blast
qed

theorem IPF_convergence_test_witness:
  "(0::int) \<le> maxIts (toyCtrl FULL_KKT False True 0 (1 / 2) (3 / 4)) \<and>
   NumNonPositive [1] = 0 \<and>
   snd (snd (IPF_relError toyA [1] [1] (Nrm2 [1]) (Nrm2 [1]) ([1], [0], [1]))) = 1 / 2 \<and>
   IPF_loop (toyK None 0) (toyCtrl FULL_KKT False True 0 (1 / 2) (3 / 4)) toyA [1] [1]
     (Nrm2 [1]) (Nrm2 [1]) 1 1 0 ([1], [0], [1]) = Inr ([1], [0], [1]) \<and>
   IPF_loop (toyK None 0) (toyCtrl FULL_KKT False True 0 (1 / 8) (1 / 4)) toyA [1] [1]
     (Nrm2 [1]) (Nrm2 [1]) 1 1 0 ([1], [0], [1]) = Inl (MaxItsExceeded, ([1], [0], [1]))"
proof -
  have r: "snd (snd (IPF_relError toyA [1] [1] (Nrm2 [1]) (Nrm2 [1]) ([1], [0], [1]))) = 1 / 2"
    by (simp add: toy_relError Nrm2_single)
  have g: "NumNonPositive [1] = 0" by (rule toy_guard)
  have "(0::int) \<le> maxIts (toyCtrl FULL_KKT False True 0 (1 / 2) (3 / 4))"
    and "(0::int) \<le> maxIts (toyCtrl FULL_KKT False True 0 (1 / 8) (1 / 4))"
    by (simp_all add: toyCtrl_def)
  note le = this
  have "IPF_loop (toyK None 0) (toyCtrl FULL_KKT False True 0 (1 / 2) (3 / 4)) toyA [1] [1]
     (Nrm2 [1]) (Nrm2 [1]) 1 1 0 ([1], [0], [1]) = Inr ([1], [0], [1])"
    using IPF_convergence_test [OF le(1) g g r [symmetric], of "toyK None 0" 1 1,
            THEN conjunct2, THEN conjunct1]
    by (simp add: toyCtrl_def)
  moreover
  have "IPF_loop (toyK None 0) (toyCtrl FULL_KKT False True 0 (1 / 8) (1 / 4)) toyA [1] [1]
     (Nrm2 [1]) (Nrm2 [1]) 1 1 0 ([1], [0], [1]) = Inl (MaxItsExceeded, ([1], [0], [1]))"
    using IPF_convergence_test [OF le(2) g g r [symmetric], of "toyK None 0" 1 1,
            THEN conjunct2, THEN conjunct2]
    by (simp add: toyCtrl_def)
  ultimately show ?thesis using le(1) g r by simp
qed

text \<open>
  Claim C4. When \<open>x\<close> or \<open>z\<close> has an entry that is not positive at the start of an
  iteration, \<open>IPF\<close> raises the logic error with the two counts, whatever the
  collaborators would do; so an iteration that does not raise it works on an iterate
  whose \<open>x\<close> and \<open>z\<close> are positive in every component.
\<close>

theorem IPF_cone_guard:
  "(numIts \<le> maxIts ctrl \<and> ((\<exists>e\<in>set x. e \<le> 0) \<or> (\<exists>e\<in>set z. e \<le> 0)) \<longrightarrow>
      IPF_loop K ctrl A b c bNrm2 cNrm2 m n numIts (x, y, z)
        = Inl (NonPositiveEntries (NumNonPositive x) (NumNonPositive z), (x, y, z)))
   \<and> (IPF_iteration K ctrl A b c bNrm2 cNrm2 m n numIts (x, y, z)
        \<noteq> Throw (NonPositiveEntries (NumNonPositive x) (NumNonPositive z)) (x, y, z) \<longrightarrow>
      (\<forall>e\<in>set x. 0 < e) \<and> (\<forall>e\<in>set z. 0 < e))"
proof (intro conjI impI)
  assume "numIts \<le> maxIts ctrl \<and> ((\<exists>e\<in>set x. e \<le> 0) \<or> (\<exists>e\<in>set z. e \<le> 0))"
  then show "IPF_loop K ctrl A b c bNrm2 cNrm2 m n numIts (x, y, z)
        = Inl (NonPositiveEntries (NumNonPositive x) (NumNonPositive z), (x, y, z))"
    using IPF_loop_Throw [OF _ IPF_iteration_guard] by blast
next
  assume a: "IPF_iteration K ctrl A b c bNrm2 cNrm2 m n numIts (x, y, z)
        \<noteq> Throw (NonPositiveEntries (NumNonPositive x) (NumNonPositive z)) (x, y, z)"
  have "\<not> ((\<exists>e\<in>set x. e \<le> 0) \<or> (\<exists>e\<in>set z. e \<le> 0))"
    using a IPF_iteration_guard by blast
  then show "\<forall>e\<in>set x. 0 < e" and "\<forall>e\<in>set z. 0 < e" by (auto simp: not_le)
qed

theorem IPF_cone_guard_witness:
  "(0::int) \<le> maxIts (toyCtrl FULL_KKT False True 0 (1 / 2) (3 / 4)) \<and>
   (- 1::real) \<in> set [- 1, 2] \<and> (- 1::real) \<le> 0 \<and>
   IPF_loop (toyK None 0) (toyCtrl FULL_KKT False True 0 (1 / 2) (3 / 4)) toyA [1] [1] 1 1 1 1 0
     ([- 1, 2], [0], [1, 1]) = Inl (NonPositiveEntries 1 0, ([- 1, 2], [0], [1, 1]))"
  using IPF_cone_guard [of 0 "toyCtrl FULL_KKT False True 0 (1 / 2) (3 / 4)" "[- 1, 2]" "[1, 1]"
          "toyK None 0" toyA "[1]" "[1]" 1 1 1 1 "[0]"]
  by (simp add: toyCtrl_def NumNonPositive_def)

text \<open>
  Claim C5. In an iteration that has passed the cone guard, the convergence test and
  the budget test, when the factorization or the solve of the KKT system throws
  (dense regime: \<open>symm_solve::Overwrite\<close>; sequential sparse regime: \<open>LDL\<close> or the
  solve after it): if the relative error is at most \<open>ctrl.minTol\<close> the loop ends with
  \<open>x\<close>, \<open>y\<close>, \<open>z\<close> exactly as they entered the iteration, otherwise \<open>IPF\<close> raises
  the error "minimum tolerance".
\<close>

theorem IPF_solve_failure:
  assumes "numIts \<le> maxIts ctrl"
    and "NumNonPositive x = 0" and "NumNonPositive z = 0"
    and "IPF_relError A b c bNrm2 cNrm2 (x, y, z) = (rb, rc, relError)"
    and "\<not> relError \<le> targetTol ctrl"
    and "\<not> (numIts = maxIts ctrl \<and> relError > minTol ctrl)"
  shows "(IPF_direction K ctrl A c m n x z rc rb (IPF_rmu ctrl n x z) = None \<longrightarrow>
            IPF_loop K ctrl A b c bNrm2 cNrm2 m n numIts (x, y, z)
              = (if relError \<le> minTol ctrl then Inr (x, y, z)
                 else Inl (MinTolNotAchieved, (x, y, z))))
       \<and> (snd (IPF_sparse_direction S ctrl A c m n reg numIts x z rc rb (IPF_rmu ctrl n x z) symb)
             = None \<longrightarrow>
            IPF_sparse_loop S ctrl A b c bNrm2 cNrm2 m n reg numIts ((x, y, z), symb)
              = (if relError \<le> minTol ctrl
                 then Inr ((x, y, z),
                        fst (IPF_sparse_direction S ctrl A c m n reg numIts x z rc rb
                               (IPF_rmu ctrl n x z) symb))
                 else Inl (MinTolNotAchieved,
                        ((x, y, z),
                         fst (IPF_sparse_direction S ctrl A c m n reg numIts x z rc rb
                                (IPF_rmu ctrl n x z) symb)))))"
proof (intro conjI impI)
  assume d: "IPF_direction K ctrl A c m n x z rc rb (IPF_rmu ctrl n x z) = None"
  show "IPF_loop K ctrl A b c bNrm2 cNrm2 m n numIts (x, y, z)
              = (if relError \<le> minTol ctrl then Inr (x, y, z)
                 else Inl (MinTolNotAchieved, (x, y, z)))"
  proof (cases "relError \<le> minTol ctrl")
    case True
    with d IPF_iteration_direction [OF assms(2-6), of K m n]
    have "IPF_iteration K ctrl A b c bNrm2 cNrm2 m n numIts (x, y, z) = Break (x, y, z)" by simp
    from IPF_loop_Break [OF assms(1) this] True show ?thesis by simp
  next
    case False
    with d IPF_iteration_direction [OF assms(2-6), of K m n]
    have "IPF_iteration K ctrl A b c bNrm2 cNrm2 m n numIts (x, y, z)
            = Throw MinTolNotAchieved (x, y, z)"
      by simp
    from IPF_loop_Throw [OF assms(1) this] False show ?thesis by simp
  qed
next
  let ?D = "IPF_sparse_direction S ctrl A c m n reg numIts x z rc rb (IPF_rmu ctrl n x z) symb"
  assume d: "snd ?D = None"
  then have D: "?D = (fst ?D, None)" by (cases ?D) simp
  show "IPF_sparse_loop S ctrl A b c bNrm2 cNrm2 m n reg numIts ((x, y, z), symb)
              = (if relError \<le> minTol ctrl then Inr ((x, y, z), fst ?D)
                 else Inl (MinTolNotAchieved, ((x, y, z), fst ?D)))"
  proof (cases "relError \<le> minTol ctrl")
    case True
    have "IPF_sparse_iteration S ctrl A b c bNrm2 cNrm2 m n reg numIts ((x, y, z), symb)
            = Break ((x, y, z), fst ?D)"
      unfolding IPF_sparse_iteration_direction [OF assms(2-6), of S m n reg symb]
      by (subst D) (simp add: True)
    from IPF_sparse_loop_Break [OF assms(1) this] True show ?thesis by simp
  next
    case False
    have "IPF_sparse_iteration S ctrl A b c bNrm2 cNrm2 m n reg numIts ((x, y, z), symb)
            = Throw MinTolNotAchieved ((x, y, z), fst ?D)"
      unfolding IPF_sparse_iteration_direction [OF assms(2-6), of S m n reg symb]
      by (subst D) (simp add: False)
    from IPF_sparse_loop_Throw [OF assms(1) this] False show ?thesis by simp
  qed
qed

theorem IPF_solve_failure_witness:
  "(0::int) \<le> maxIts (toyCtrl FULL_KKT False True 5 (1 / 4) (3 / 4)) \<and>
   NumNonPositive [1] = 0 \<and>
   IPF_relError toyA [1] [1] 1 1 ([1], [0], [1]) = ([0], [0], 1 / 2) \<and>
   IPF_direction (toyK None 1) (toyCtrl FULL_KKT False True 5 (1 / 4) (3 / 4)) toyA [1] 1 1 [1] [1]
     [0] [0] (IPF_rmu (toyCtrl FULL_KKT False True 5 (1 / 4) (3 / 4)) 1 [1] [1]) = None \<and>
   IPF_loop (toyK None 1) (toyCtrl FULL_KKT False True 5 (1 / 4) (3 / 4)) toyA [1] [1] 1 1 1 1 0
     ([1], [0], [1]) = Inr ([1], [0], [1]) \<and>
   IPF_loop (toyK None 1) (toyCtrl FULL_KKT False True 5 (1 / 4) (3 / 8)) toyA [1] [1] 1 1 1 1 0
     ([1], [0], [1]) = Inl (MinTolNotAchieved, ([1], [0], [1])) \<and>
   IPF_sparse_loop (toyK None 1) (toyCtrl FULL_KKT False True 5 (1 / 4) (3 / 4)) toyA [1] [1] 1 1 1 1
     [0, 0, 0] 0 (([1], [0], [1]), ([], [], (), ())) = Inr (([1], [0], [1]), ([1], [1], (), ()))"
proof -
  let ?c = "toyCtrl FULL_KKT False True 5 (1 / 4) (3 / 4)"
  let ?c' = "toyCtrl FULL_KKT False True 5 (1 / 4) (3 / 8)"
  have le: "(0::int) \<le> maxIts ?c" "(0::int) \<le> maxIts ?c'" by (simp_all add: toyCtrl_def)
  have r: "IPF_relError toyA [1] [1] 1 1 ([1], [0], [1]) = ([0], [0], 1 / 2)"
    by (simp add: toy_relError)
  have t: "\<not> 1 / 2 \<le> targetTol ?c" "\<not> 1 / 2 \<le> targetTol ?c'"
    and b: "\<not> (0 = maxIts ?c \<and> 1 / 2 > minTol ?c)" "\<not> (0 = maxIts ?c' \<and> 1 / 2 > minTol ?c')"
    by (simp_all add: toyCtrl_def)
  have d: "IPF_direction (toyK None 1) ?c toyA [1] 1 1 [1] [1] [0] [0] (IPF_rmu ?c 1 [1] [1]) = None"
    by (simp add: IPF_direction_def toyK_def toyCtrl_def)
  have d': "IPF_direction (toyK None 1) ?c' toyA [1] 1 1 [1] [1] [0] [0] (IPF_rmu ?c' 1 [1] [1]) = None"
    by (simp add: IPF_direction_def toyK_def toyCtrl_def)
  have s: "IPF_sparse_direction (toyK None 1) ?c toyA [1] 1 1 [0, 0, 0] 0 [1] [1] [0] [0]
             (IPF_rmu ?c 1 [1] [1]) ([], [], (), ()) = (([1], [1], (), ()), None)"
    by (simp add: IPF_sparse_direction_def toyK_def toyCtrl_def analyse_def toyA_def)
  from IPF_solve_failure [OF le(1) toy_guard toy_guard r t(1) b(1),
         of "toyK None 1" 1 1 "toyK None 1" "[0, 0, 0]" "([], [], (), ())"]
       IPF_solve_failure [OF le(2) toy_guard toy_guard r t(2) b(2),
         of "toyK None 1" 1 1 "toyK None 1" "[0, 0, 0]" "([], [], (), ())"]
       d d' s le(1) toy_guard r
  show ?thesis by (simp add: toyCtrl_def)
qed

text \<open>
  Claim C6. In an iteration that has computed a direction (conformal with the
  iterate), when the line search returns \<open>alpha = 0\<close>: after the three updates the
  loop ends if the relative error is at most \<open>ctrl.minTol\<close>, and \<open>IPF\<close> raises the
  error "minimum tolerance" otherwise; the updates with \<open>alpha = 0\<close> leave \<open>x\<close>,
  \<open>y\<close>, \<open>z\<close> unchanged.
\<close>

theorem IPF_zero_step:
  assumes "numIts \<le> maxIts ctrl"
    and "NumNonPositive x = 0" and "NumNonPositive z = 0"
    and "IPF_relError A b c bNrm2 cNrm2 (x, y, z) = (rb, rc, relError)"
    and "\<not> relError \<le> targetTol ctrl"
    and "\<not> (numIts = maxIts ctrl \<and> relError > minTol ctrl)"
    and "IPF_direction K ctrl A c m n x z rc rb (IPF_rmu ctrl n x z) = Some (dx, dy, dz)"
    and "length dx = length x" and "length dy = length y" and "length dz = length z"
    and "IPFLineSearch K A b c x y z dx dy dz
             (0.99 * min (MaxStepInPositiveCone K x dx 1) (MaxStepInPositiveCone K z dz 1))
             (targetTol ctrl * (1 + bNrm2)) (targetTol ctrl * (1 + cNrm2)) = 0"
  shows "IPF_loop K ctrl A b c bNrm2 cNrm2 m n numIts (x, y, z)
           = (if relError \<le> minTol ctrl then Inr (x, y, z)
              else Inl (MinTolNotAchieved, (x, y, z)))
       \<and> Axpy 0 dx x = x \<and> Axpy 0 dy y = y \<and> Axpy 0 dz z = z"
proof -
  have it: "IPF_iteration K ctrl A b c bNrm2 cNrm2 m n numIts (x, y, z)
          = (if relError \<le> minTol ctrl then Break (x, y, z)
             else Throw MinTolNotAchieved (x, y, z))"
    using IPF_iteration_direction [OF assms(2-6), of K m n]
          IPF_takeStep_zero [OF assms(11,8,9,10), of relError]
    by (simp add: assms(7))
  have "IPF_loop K ctrl A b c bNrm2 cNrm2 m n numIts (x, y, z)
           = (if relError \<le> minTol ctrl then Inr (x, y, z)
              else Inl (MinTolNotAchieved, (x, y, z)))"
  proof (cases "relError \<le> minTol ctrl")
    case True
    with it have "IPF_iteration K ctrl A b c bNrm2 cNrm2 m n numIts (x, y, z) = Break (x, y, z)"
      by simp
    from IPF_loop_Break [OF assms(1) this] True show ?thesis by simp
  next
    case False
    with it have "IPF_iteration K ctrl A b c bNrm2 cNrm2 m n numIts (x, y, z)
                    = Throw MinTolNotAchieved (x, y, z)"
      by simp
    from IPF_loop_Throw [OF assms(1) this] False show ?thesis by simp
  qed
  then show ?thesis using assms(8-10) by (simp add: Axpy_zero)
qed

theorem IPF_zero_step_witness:
  "(0::int) \<le> maxIts (toyCtrl FULL_KKT False True 5 (1 / 4) (3 / 4)) \<and>
   NumNonPositive [1] = 0 \<and>
   IPF_relError toyA [1] [1] 1 1 ([1], [0], [1]) = ([0], [0], 1 / 2) \<and>
   IPF_direction (toyK (Some [7]) 0) (toyCtrl FULL_KKT False True 5 (1 / 4) (3 / 4)) toyA [1] 1 1
     [1] [1] [0] [0] (IPF_rmu (toyCtrl FULL_KKT False True 5 (1 / 4) (3 / 4)) 1 [1] [1])
     = Some ([7], [7], [7]) \<and>
   IPF_loop (toyK (Some [7]) 0) (toyCtrl FULL_KKT False True 5 (1 / 4) (3 / 4)) toyA [1] [1] 1 1 1 1 0
     ([1], [0], [1]) = Inr ([1], [0], [1]) \<and>
   IPF_loop (toyK (Some [7]) 0) (toyCtrl FULL_KKT False True 5 (1 / 4) (3 / 8)) toyA [1] [1] 1 1 1 1 0
     ([1], [0], [1]) = Inl (MinTolNotAchieved, ([1], [0], [1])) \<and>
   Axpy 0 [7] [1] = [1]"
proof -
  let ?c = "toyCtrl FULL_KKT False True 5 (1 / 4) (3 / 4)"
  let ?c' = "toyCtrl FULL_KKT False True 5 (1 / 4) (3 / 8)"
  let ?K = "toyK (Some [7]) 0"
  have le: "(0::int) \<le> maxIts ?c" "(0::int) \<le> maxIts ?c'" by (simp_all add: toyCtrl_def)
  have r: "IPF_relError toyA [1] [1] 1 1 ([1], [0], [1]) = ([0], [0], 1 / 2)"
    by (simp add: toy_relError)
  have t: "\<not> 1 / 2 \<le> targetTol ?c" "\<not> 1 / 2 \<le> targetTol ?c'"
    and b: "\<not> (0 = maxIts ?c \<and> 1 / 2 > minTol ?c)" "\<not> (0 = maxIts ?c' \<and> 1 / 2 > minTol ?c')"
    by (simp_all add: toyCtrl_def)
  have d: "IPF_direction ?K ?c toyA [1] 1 1 [1] [1] [0] [0] (IPF_rmu ?c 1 [1] [1])
             = Some ([7], [7], [7])"
    by (simp add: IPF_direction_def toyK_def toyCtrl_def)
  have d': "IPF_direction ?K ?c' toyA [1] 1 1 [1] [1] [0] [0] (IPF_rmu ?c' 1 [1] [1])
             = Some ([7], [7], [7])"
    by (simp add: IPF_direction_def toyK_def toyCtrl_def)
  have l: "length [7::real] = length [1::real]" "length [7::real] = length [0::real]" by simp_all
  have a: "IPFLineSearch ?K toyA [1] [1] [1] [0] [1] [7] [7] [7]
             (0.99 * min (MaxStepInPositiveCone ?K [1] [7] 1) (MaxStepInPositiveCone ?K [1] [7] 1))
             (targetTol ?c * (1 + 1)) (targetTol ?c * (1 + 1)) = 0"
    and a': "IPFLineSearch ?K toyA [1] [1] [1] [0] [1] [7] [7] [7]
             (0.99 * min (MaxStepInPositiveCone ?K [1] [7] 1) (MaxStepInPositiveCone ?K [1] [7] 1))
             (targetTol ?c' * (1 + 1)) (targetTol ?c' * (1 + 1)) = 0"
    by (simp_all add: toyK_def)
  from IPF_zero_step [OF le(1) toy_guard toy_guard r t(1) b(1) d l(1) l(2) l(1) a]
       IPF_zero_step [OF le(2) toy_guard toy_guard r t(2) b(2) d' l(1) l(2) l(1) a']
       le(1) toy_guard r d
  show ?thesis by (simp add: toyCtrl_def)
qed

lemma IPF_sparse_direction_solve:
  "IPF_sparse_direction K ctrl A c m n reg numIts x z rc rb rmu symb =
     (let used = (if numIts = 0 \<and> (system ctrl \<noteq> AUGMENTED_KKT \<or> primalInit ctrl \<and> dualInit ctrl)
                  then analyse K (IPF_sparse_J K ctrl A x z reg) else symb)
      in (used, IPF_sparse_solve K ctrl A c m n reg x z rc rb rmu used))"
  by (cases "system ctrl")
     (auto simp add: IPF_sparse_direction_def IPF_sparse_solve_def IPF_sparse_J_def Let_def
        split: prod.splits)

lemma IPF_sparse_iteration_solve:
  assumes "NumNonPositive x = 0" and "NumNonPositive z = 0"
    and "IPF_relError A b c bNrm2 cNrm2 (x, y, z) = (rb, rc, relError)"
    and "\<not> relError \<le> targetTol ctrl" and "\<not> (numIts = maxIts ctrl \<and> relError > minTol ctrl)"
    and "used = (if numIts = 0 \<and> (system ctrl \<noteq> AUGMENTED_KKT \<or> primalInit ctrl \<and> dualInit ctrl)
                 then analyse K (IPF_sparse_J K ctrl A x z reg) else symb)"
  shows "IPF_sparse_iteration K ctrl A b c bNrm2 cNrm2 m n reg numIts ((x, y, z), symb) =
     (case IPF_sparse_solve K ctrl A c m n reg x z rc rb (IPF_rmu ctrl n x z) used of
        None \<Rightarrow>
          if relError \<le> minTol ctrl then Break ((x, y, z), used)
          else Throw MinTolNotAchieved ((x, y, z), used)
      | Some dir \<Rightarrow>
          with_sym used (IPF_takeStep K ctrl A b c bNrm2 cNrm2 relError (x, y, z) dir))"
proof -
  have d: "IPF_sparse_direction K ctrl A c m n reg numIts x z rc rb (IPF_rmu ctrl n x z) symb
             = (used, IPF_sparse_solve K ctrl A c m n reg x z rc rb (IPF_rmu ctrl n x z) used)"
    unfolding IPF_sparse_direction_solve assms(6) by (simp add: Let_def)
  show ?thesis
    unfolding IPF_sparse_iteration_direction [OF assms(1-5), of K m n reg symb] d by simp
qed

lemma IPF_sparse_iteration_Continue_guards:
  assumes "IPF_sparse_iteration K ctrl A b c bNrm2 cNrm2 m n reg numIts ((x, y, z), symb)
             = Continue st'"
  shows "NumNonPositive x = 0 \<and> NumNonPositive z = 0 \<and>
         \<not> snd (snd (IPF_relError A b c bNrm2 cNrm2 (x, y, z))) \<le> targetTol ctrl"
proof (rule ccontr)
  assume n: "\<not> (NumNonPositive x = 0 \<and> NumNonPositive z = 0 \<and>
         \<not> snd (snd (IPF_relError A b c bNrm2 cNrm2 (x, y, z))) \<le> targetTol ctrl)"
  then have "IPF_sparse_iteration K ctrl A b c bNrm2 cNrm2 m n reg numIts ((x, y, z), symb)
               \<noteq> Continue st'"
    by (cases "IPF_relError A b c bNrm2 cNrm2 (x, y, z)")
       (auto simp add: IPF_sparse_iteration_def Let_def)
  with assms show False by simp
qed

lemma IPF_sparse_pass_loop:
  "IPF_sparse_pass K ctrl A b c bNrm2 cNrm2 m n reg k st = Some st_k \<Longrightarrow>
   int k \<le> maxIts ctrl \<and>
   IPF_sparse_loop K ctrl A b c bNrm2 cNrm2 m n reg 0 st
     = IPF_sparse_loop K ctrl A b c bNrm2 cNrm2 m n reg (int k) st_k"
proof (induction k arbitrary: st_k)
  case 0
  then show ?case by (simp split: if_splits)
next
  case (Suc k)
  from Suc.prems obtain st1 where
    p: "IPF_sparse_pass K ctrl A b c bNrm2 cNrm2 m n reg k st = Some st1"
    and i: "IPF_sparse_iteration K ctrl A b c bNrm2 cNrm2 m n reg (int k) st1 = Continue st_k"
    and le: "int (Suc k) \<le> maxIts ctrl"
    by (auto split: option.splits LoopStep.splits if_splits)
  from Suc.IH [OF p] have k: "int k \<le> maxIts ctrl"
    and l: "IPF_sparse_loop K ctrl A b c bNrm2 cNrm2 m n reg 0 st
              = IPF_sparse_loop K ctrl A b c bNrm2 cNrm2 m n reg (int k) st1" by simp_all
  from IPF_sparse_loop_Continue [OF k i] l le show ?case by (simp add: add.commute)
qed

lemma IPF_sparse_pass_symb:
  "IPF_sparse_pass K ctrl A b c bNrm2 cNrm2 m n reg k ((x0, y0, z0), symb0) = Some (it_k, symb_k)
   \<Longrightarrow> 0 < k \<Longrightarrow>
   symb_k = (if system ctrl \<noteq> AUGMENTED_KKT \<or> primalInit ctrl \<and> dualInit ctrl
             then analyse K (IPF_sparse_J K ctrl A x0 z0 reg) else symb0)"
proof (induction k arbitrary: it_k symb_k)
  case 0
  then show ?case by simp
next
  case (Suc k)
  from Suc.prems(1) obtain it1 symb1 where
    p: "IPF_sparse_pass K ctrl A b c bNrm2 cNrm2 m n reg k ((x0, y0, z0), symb0) = Some (it1, symb1)"
    and i: "IPF_sparse_iteration K ctrl A b c bNrm2 cNrm2 m n reg (int k) (it1, symb1)
              = Continue (it_k, symb_k)"
    by (auto split: option.splits LoopStep.splits if_splits)
  obtain x y z where it1: "it1 = (x, y, z)" by (cases it1) auto
  note s = IPF_sparse_iteration_symb [of K ctrl A b c bNrm2 cNrm2 m n reg "int k" x y z symb1
             it_k symb_k]
  note g = IPF_sparse_iteration_Continue_guards [of K ctrl A b c bNrm2 cNrm2 m n reg "int k"
             x y z symb1 "(it_k, symb_k)"]
  show ?case
  proof (cases k)
    case 0
    with p have "it1 = (x0, y0, z0)" "symb1 = symb0" by (simp_all split: if_splits)
    with s g i it1 0 show ?thesis by auto
  next
    case (Suc j)
    with Suc.IH [OF p] have "symb1 = (if system ctrl \<noteq> AUGMENTED_KKT \<or> primalInit ctrl \<and> dualInit ctrl
             then analyse K (IPF_sparse_J K ctrl A x0 z0 reg) else symb0)" by simp
    moreover from s i it1 Suc have "symb_k = symb1" by auto
    ultimately show ?thesis by simp
  qed
qed

lemma IPF_dist_sparse_direction_solve:
  "IPF_dist_sparse_direction K ctrl A c m n reg numIts x z rc rb rmu symb =
     (let used = (if numIts = 0 \<and> (system ctrl \<noteq> AUGMENTED_KKT \<or> primalInit ctrl \<and> dualInit ctrl)
                  then analyse K (IPF_sparse_J K ctrl A x z reg) else symb)
      in (used, IPF_dist_sparse_solve K ctrl A c m n reg x z rc rb rmu used))"
  by (cases "system ctrl")
     (auto simp add: IPF_dist_sparse_direction_def IPF_dist_sparse_solve_def IPF_sparse_J_def Let_def
        split: prod.splits)

lemma IPF_dist_sparse_iteration_solve:
  assumes "NumNonPositive x = 0" and "NumNonPositive z = 0"
    and "IPF_relError A b c bNrm2 cNrm2 (x, y, z) = (rb, rc, relError)"
    and "\<not> relError \<le> targetTol ctrl" and "\<not> (numIts = maxIts ctrl \<and> relError > minTol ctrl)"
    and "used = (if numIts = 0 \<and> (system ctrl \<noteq> AUGMENTED_KKT \<or> primalInit ctrl \<and> dualInit ctrl)
                 then analyse K (IPF_sparse_J K ctrl A x z reg) else symb)"
  shows "IPF_dist_sparse_iteration K ctrl A b c bNrm2 cNrm2 m n reg numIts ((x, y, z), symb) =
     (case IPF_dist_sparse_solve K ctrl A c m n reg x z rc rb (IPF_rmu ctrl n x z) used of
        None \<Rightarrow>
          if relError \<le> minTol ctrl then Break ((x, y, z), used)
          else Throw MinTolNotAchieved ((x, y, z), used)
      | Some dir \<Rightarrow>
          with_sym used (IPF_takeStep K ctrl A b c bNrm2 cNrm2 relError (x, y, z) dir))"
proof -
  have d: "IPF_dist_sparse_direction K ctrl A c m n reg numIts x z rc rb (IPF_rmu ctrl n x z) symb
             = (used, IPF_dist_sparse_solve K ctrl A c m n reg x z rc rb (IPF_rmu ctrl n x z) used)"
    unfolding IPF_dist_sparse_direction_solve assms(6) by (simp add: Let_def)
  show ?thesis
    unfolding IPF_dist_sparse_iteration_direction [OF assms(1-5), of K m n reg symb] d by simp
qed

lemma IPF_dist_sparse_iteration_Continue_guards:
  assumes "IPF_dist_sparse_iteration K ctrl A b c bNrm2 cNrm2 m n reg numIts ((x, y, z), symb)
             = Continue st'"
  shows "NumNonPositive x = 0 \<and> NumNonPositive z = 0 \<and>
         \<not> snd (snd (IPF_relError A b c bNrm2 cNrm2 (x, y, z))) \<le> targetTol ctrl"
proof (rule ccontr)
  assume n: "\<not> (NumNonPositive x = 0 \<and> NumNonPositive z = 0 \<and>
         \<not> snd (snd (IPF_relError A b c bNrm2 cNrm2 (x, y, z))) \<le> targetTol ctrl)"
  then have "IPF_dist_sparse_iteration K ctrl A b c bNrm2 cNrm2 m n reg numIts ((x, y, z), symb)
               \<noteq> Continue st'"
    by (cases "IPF_relError A b c bNrm2 cNrm2 (x, y, z)")
       (auto simp add: IPF_dist_sparse_iteration_def Let_def)
  with assms show False by simp
qed

lemma IPF_dist_sparse_pass_loop:
  "IPF_dist_sparse_pass K ctrl A b c bNrm2 cNrm2 m n reg k st = Some st_k \<Longrightarrow>
   int k \<le> maxIts ctrl \<and>
   IPF_dist_sparse_loop K ctrl A b c bNrm2 cNrm2 m n reg 0 st
     = IPF_dist_sparse_loop K ctrl A b c bNrm2 cNrm2 m n reg (int k) st_k"
proof (induction k arbitrary: st_k)
  case 0
  then show ?case by (simp split: if_splits)
next
  case (Suc k)
  from Suc.prems obtain st1 where
    p: "IPF_dist_sparse_pass K ctrl A b c bNrm2 cNrm2 m n reg k st = Some st1"
    and i: "IPF_dist_sparse_iteration K ctrl A b c bNrm2 cNrm2 m n reg (int k) st1 = Continue st_k"
    and le: "int (Suc k) \<le> maxIts ctrl"
    by (auto split: option.splits LoopStep.splits if_splits)
  from Suc.IH [OF p] have k: "int k \<le> maxIts ctrl"
    and l: "IPF_dist_sparse_loop K ctrl A b c bNrm2 cNrm2 m n reg 0 st
              = IPF_dist_sparse_loop K ctrl A b c bNrm2 cNrm2 m n reg (int k) st1" by simp_all
  from IPF_dist_sparse_loop_Continue [OF k i] l le show ?case by (simp add: add.commute)
qed

lemma IPF_dist_sparse_pass_symb:
  "IPF_dist_sparse_pass K ctrl A b c bNrm2 cNrm2 m n reg k ((x0, y0, z0), symb0) = Some (it_k, symb_k)
   \<Longrightarrow> 0 < k \<Longrightarrow>
   symb_k = (if system ctrl \<noteq> AUGMENTED_KKT \<or> primalInit ctrl \<and> dualInit ctrl
             then analyse K (IPF_sparse_J K ctrl A x0 z0 reg) else symb0)"
proof (induction k arbitrary: it_k symb_k)
  case 0
  then show ?case by simp
next
  case (Suc k)
  from Suc.prems(1) obtain it1 symb1 where
    p: "IPF_dist_sparse_pass K ctrl A b c bNrm2 cNrm2 m n reg k ((x0, y0, z0), symb0) = Some (it1, symb1)"
    and i: "IPF_dist_sparse_iteration K ctrl A b c bNrm2 cNrm2 m n reg (int k) (it1, symb1)
              = Continue (it_k, symb_k)"
    by (auto split: option.splits LoopStep.splits if_splits)
  obtain x y z where it1: "it1 = (x, y, z)" by (cases it1) auto
  note s = IPF_dist_sparse_iteration_symb [of K ctrl A b c bNrm2 cNrm2 m n reg "int k" x y z symb1
             it_k symb_k]
  note g = IPF_dist_sparse_iteration_Continue_guards [of K ctrl A b c bNrm2 cNrm2 m n reg "int k"
             x y z symb1 "(it_k, symb_k)"]
  show ?case
  proof (cases k)
    case 0
    with p have "it1 = (x0, y0, z0)" "symb1 = symb0" by (simp_all split: if_splits)
    with s g i it1 0 show ?thesis by auto
  next
    case (Suc j)
    with Suc.IH [OF p] have "symb1 = (if system ctrl \<noteq> AUGMENTED_KKT \<or> primalInit ctrl \<and> dualInit ctrl
             then analyse K (IPF_sparse_J K ctrl A x0 z0 reg) else symb0)" by simp
    moreover from s i it1 Suc have "symb_k = symb1" by auto
    ultimately show ?thesis by simp
  qed
qed

lemma toy7_relError1: "IPF_relError toyA [1] [1] 1 1 ([2], [1], [2]) = ([1], [0], 1)"
  by (simp add: IPF_relError_def toyA_def Dot_def row_def col_def vscale_def vsub_def
        Nrm2_single Let_def)

lemma toy7_guard: "NumNonPositive [2] = 0"
  by (simp add: NumNonPositive_def)

lemma toy7_analyse:
  "analyse toyK7 (IPF_sparse_J toyK7 (toyCtrl FULL_KKT False True its tgt mn) toyA [1] z [0, 0, 0])
     = ([2], [2], (), ())"
  "analyse toyK7 (IPF_sparse_J toyK7 (toyCtrl FULL_KKT False True its tgt mn) toyA [2] z [0, 0, 0])
     = ([4], [4], (), ())"
  by (simp_all add: analyse_def IPF_sparse_J_def toyK7_def toyK_def toyCtrl_def toyA_def)

lemma toy7_solve:
  "IPF_sparse_solve toyK7 (toyCtrl FULL_KKT False True its tgt mn) toyA c m n reg x z rc rb rmu
     (map', invMap, (), ()) = Some (map real invMap, map real invMap, map real invMap)"
  "IPF_sparse_solve toyK7 (toyCtrl AUGMENTED_KKT False False its tgt mn) toyA c m n reg x z rc rb rmu
     (map', invMap, (), ()) = Some (map real invMap, map real invMap, map real invMap)"
  by (simp_all add: IPF_sparse_solve_def toyK7_def toyK_def toyCtrl_def)

lemma toy7_step:
  "IPF_takeStep toyK7 ctrl toyA b c bNrm2 cNrm2 relError ([x], [y], [z]) ([2], [2], [2])
     = Continue ([1 + x], [1 + y], [1 + z])"
  by (simp add: IPF_takeStep_def toyK7_def toyK_def Axpy_def Let_def)

lemma toy7_relError2: "IPF_relError toyA [1] [1] 1 1 ([4], [3], [4]) = ([3], [0], 3 / 2)"
  by (simp add: IPF_relError_def toyA_def Dot_def row_def col_def vscale_def vsub_def
        Nrm2_single Let_def)

lemma toy7_guard4: "NumNonPositive [4] = 0"
  by (simp add: NumNonPositive_def)

lemma toy7_analyse_aug:
  "analyse toyK7 (IPF_sparse_J toyK7 (toyCtrl AUGMENTED_KKT False False its tgt mn) toyA [1] z [0, 0])
     = ([2], [2], (), ())"
  "analyse toyK7 (IPF_sparse_J toyK7 (toyCtrl AUGMENTED_KKT False False its tgt mn) toyA [4] z [0, 0])
     = ([8], [8], (), ())"
  by (simp_all add: analyse_def IPF_sparse_J_def toyK7_def toyK_def toyCtrl_def toyA_def)

lemma toy7_step6:
  "IPF_takeStep toyK7 ctrl toyA b c bNrm2 cNrm2 relError ([x], [y], [z]) ([6], [6], [6])
     = Continue ([3 + x], [3 + y], [3 + z])"
  by (simp add: IPF_takeStep_def toyK7_def toyK_def Axpy_def Let_def)

lemma toy7_iteration0:
  "IPF_sparse_iteration toyK7 (toyCtrl FULL_KKT False True 1 (1 / 4) 2) toyA [1] [1] 1 1 1 1
     [0, 0, 0] 0 (([1], [0], [1]), ([], [], (), ()))
     = Continue (([2], [1], [2]), ([2], [2], (), ()))"
  by (subst IPF_sparse_iteration_solve [where rb = "[0]" and rc = "[0]" and relError = "1 / 2"
          and used = "([2], [2], (), ())"])
     (simp_all add: toy_guard toy_relError toy7_analyse toy7_solve toy7_step with_sym_def,
      simp_all add: toyCtrl_def)

lemma toy7_iteration1:
  "IPF_sparse_iteration toyK7 (toyCtrl FULL_KKT False True 1 (1 / 4) 2) toyA [1] [1] 1 1 1 1
     [0, 0, 0] 1 (([2], [1], [2]), ([2], [2], (), ()))
     = Continue (([3], [2], [3]), ([2], [2], (), ()))"
  by (subst IPF_sparse_iteration_solve [where rb = "[1]" and rc = "[0]" and relError = 1
          and used = "([2], [2], (), ())"])
     (simp_all add: toy7_guard toy7_relError1 toy7_solve toy7_step with_sym_def,
      simp_all add: toyCtrl_def)

lemma toy7_pass1:
  "IPF_sparse_pass toyK7 (toyCtrl FULL_KKT False True 1 (1 / 4) 2) toyA [1] [1] 1 1 1 1
     [0, 0, 0] 1 (([1], [0], [1]), ([], [], (), ()))
     = Some (([2], [1], [2]), ([2], [2], (), ()))"
  using toy7_iteration0 by (simp add: toyCtrl_def)

lemma toy7_loop:
  "IPF_sparse_loop toyK7 (toyCtrl FULL_KKT False True 1 (1 / 4) 2) toyA [1] [1] 1 1 1 1
     [0, 0, 0] 0 (([1], [0], [1]), ([], [], (), ()))
     = Inr (([3], [2], [3]), ([2], [2], (), ()))"
proof -
  let ?c = "toyCtrl FULL_KKT False True 1 (1 / 4) 2"
  have le: "(0::int) \<le> maxIts ?c" "(1::int) \<le> maxIts ?c" "\<not> (1::int) + 1 \<le> maxIts ?c"
    by (simp_all add: toyCtrl_def)
  from IPF_sparse_loop_Continue [OF le(1) toy7_iteration0]
       IPF_sparse_loop_Continue [OF le(2) toy7_iteration1]
       IPF_sparse_loop_past [OF le(3)]
  show ?thesis by simp
qed

lemma toy7_aug_iteration0:
  "IPF_sparse_iteration toyK7 (toyCtrl AUGMENTED_KKT False False 1 (1 / 4) 2) toyA [1] [1] 1 1 1 1
     [0, 0] 0 (([1], [0], [1]), ([5], [6], (), ()))
     = Continue (([4], [3], [4]), ([5], [6], (), ()))"
  by (subst IPF_sparse_iteration_solve [where rb = "[0]" and rc = "[0]" and relError = "1 / 2"
          and used = "([5], [6], (), ())"])
     (simp_all add: toy_guard toy_relError toy7_solve toy7_step6 with_sym_def,
      simp_all add: toyCtrl_def)

lemma toy7_aug_iteration1:
  "IPF_sparse_iteration toyK7 (toyCtrl AUGMENTED_KKT False False 1 (1 / 4) 2) toyA [1] [1] 1 1 1 1
     [0, 0] 1 (([4], [3], [4]), ([5], [6], (), ()))
     = Continue (([7], [6], [7]), ([5], [6], (), ()))"
  by (subst IPF_sparse_iteration_solve [where rb = "[3]" and rc = "[0]" and relError = "3 / 2"
          and used = "([5], [6], (), ())"])
     (simp_all add: toy7_guard4 toy7_relError2 toy7_solve toy7_step6 with_sym_def,
      simp_all add: toyCtrl_def)

lemma toy7_aug_pass1:
  "IPF_sparse_pass toyK7 (toyCtrl AUGMENTED_KKT False False 1 (1 / 4) 2) toyA [1] [1] 1 1 1 1
     [0, 0] 1 (([1], [0], [1]), ([5], [6], (), ()))
     = Some (([4], [3], [4]), ([5], [6], (), ()))"
  using toy7_aug_iteration0 by (simp add: toyCtrl_def)

lemma toy7_aug_loop:
  "IPF_sparse_loop toyK7 (toyCtrl AUGMENTED_KKT False False 1 (1 / 4) 2) toyA [1] [1] 1 1 1 1
     [0, 0] 0 (([1], [0], [1]), ([5], [6], (), ()))
     = Inr (([7], [6], [7]), ([5], [6], (), ()))"
proof -
  let ?c = "toyCtrl AUGMENTED_KKT False False 1 (1 / 4) 2"
  have le: "(0::int) \<le> maxIts ?c" "(1::int) \<le> maxIts ?c" "\<not> (1::int) + 1 \<le> maxIts ?c"
    by (simp_all add: toyCtrl_def)
  from IPF_sparse_loop_Continue [OF le(1) toy7_aug_iteration0]
       IPF_sparse_loop_Continue [OF le(2) toy7_aug_iteration1]
       IPF_sparse_loop_past [OF le(3)]
  show ?thesis by simp
qed

lemma toy7d_solve:
  "IPF_dist_sparse_solve toyK7 (toyCtrl FULL_KKT False True its tgt mn) toyA c m n reg x z rc rb rmu
     (map', invMap, (), ()) = Some (map real invMap, map real invMap, map real invMap)"
  "IPF_dist_sparse_solve toyK7 (toyCtrl AUGMENTED_KKT False False its tgt mn) toyA c m n reg x z rc rb rmu
     (map', invMap, (), ()) = Some (map real invMap, map real invMap, map real invMap)"
  by (simp_all add: IPF_dist_sparse_solve_def toyK7_def toyK_def toyCtrl_def)

lemma toy7d_iteration0:
  "IPF_dist_sparse_iteration toyK7 (toyCtrl FULL_KKT False True 1 (1 / 4) 2) toyA [1] [1] 1 1 1 1
     [0, 0, 0] 0 (([1], [0], [1]), ([], [], (), ()))
     = Continue (([2], [1], [2]), ([2], [2], (), ()))"
  by (subst IPF_dist_sparse_iteration_solve [where rb = "[0]" and rc = "[0]" and relError = "1 / 2"
          and used = "([2], [2], (), ())"])
     (simp_all add: toy_guard toy_relError toy7_analyse toy7d_solve toy7_step with_sym_def,
      simp_all add: toyCtrl_def)

lemma toy7d_iteration1:
  "IPF_dist_sparse_iteration toyK7 (toyCtrl FULL_KKT False True 1 (1 / 4) 2) toyA [1] [1] 1 1 1 1
     [0, 0, 0] 1 (([2], [1], [2]), ([2], [2], (), ()))
     = Continue (([3], [2], [3]), ([2], [2], (), ()))"
  by (subst IPF_dist_sparse_iteration_solve [where rb = "[1]" and rc = "[0]" and relError = 1
          and used = "([2], [2], (), ())"])
     (simp_all add: toy7_guard toy7_relError1 toy7d_solve toy7_step with_sym_def,
      simp_all add: toyCtrl_def)

lemma toy7d_pass1:
  "IPF_dist_sparse_pass toyK7 (toyCtrl FULL_KKT False True 1 (1 / 4) 2) toyA [1] [1] 1 1 1 1
     [0, 0, 0] 1 (([1], [0], [1]), ([], [], (), ()))
     = Some (([2], [1], [2]), ([2], [2], (), ()))"
  using toy7d_iteration0 by (simp add: toyCtrl_def)

lemma toy7d_loop:
  "IPF_dist_sparse_loop toyK7 (toyCtrl FULL_KKT False True 1 (1 / 4) 2) toyA [1] [1] 1 1 1 1
     [0, 0, 0] 0 (([1], [0], [1]), ([], [], (), ()))
     = Inr (([3], [2], [3]), ([2], [2], (), ()))"
proof -
  let ?c = "toyCtrl FULL_KKT False True 1 (1 / 4) 2"
  have le: "(0::int) \<le> maxIts ?c" "(1::int) \<le> maxIts ?c" "\<not> (1::int) + 1 \<le> maxIts ?c"
    by (simp_all add: toyCtrl_def)
  from IPF_dist_sparse_loop_Continue [OF le(1) toy7d_iteration0]
       IPF_dist_sparse_loop_Continue [OF le(2) toy7d_iteration1]
       IPF_dist_sparse_loop_past [OF le(3)]
  show ?thesis by simp
qed

lemma toy7d_aug_iteration0:
  "IPF_dist_sparse_iteration toyK7 (toyCtrl AUGMENTED_KKT False False 1 (1 / 4) 2) toyA [1] [1] 1 1 1 1
     [0, 0] 0 (([1], [0], [1]), ([5], [6], (), ()))
     = Continue (([4], [3], [4]), ([5], [6], (), ()))"
  by (subst IPF_dist_sparse_iteration_solve [where rb = "[0]" and rc = "[0]" and relError = "1 / 2"
          and used = "([5], [6], (), ())"])
     (simp_all add: toy_guard toy_relError toy7d_solve toy7_step6 with_sym_def,
      simp_all add: toyCtrl_def)

lemma toy7d_aug_iteration1:
  "IPF_dist_sparse_iteration toyK7 (toyCtrl AUGMENTED_KKT False False 1 (1 / 4) 2) toyA [1] [1] 1 1 1 1
     [0, 0] 1 (([4], [3], [4]), ([5], [6], (), ()))
     = Continue (([7], [6], [7]), ([5], [6], (), ()))"
  by (subst IPF_dist_sparse_iteration_solve [where rb = "[3]" and rc = "[0]" and relError = "3 / 2"
          and used = "([5], [6], (), ())"])
     (simp_all add: toy7_guard4 toy7_relError2 toy7d_solve toy7_step6 with_sym_def,
      simp_all add: toyCtrl_def)

lemma toy7d_aug_pass1:
  "IPF_dist_sparse_pass toyK7 (toyCtrl AUGMENTED_KKT False False 1 (1 / 4) 2) toyA [1] [1] 1 1 1 1
     [0, 0] 1 (([1], [0], [1]), ([5], [6], (), ()))
     = Some (([4], [3], [4]), ([5], [6], (), ()))"
  using toy7d_aug_iteration0 by (simp add: toyCtrl_def)

lemma toy7d_aug_loop:
  "IPF_dist_sparse_loop toyK7 (toyCtrl AUGMENTED_KKT False False 1 (1 / 4) 2) toyA [1] [1] 1 1 1 1
     [0, 0] 0 (([1], [0], [1]), ([5], [6], (), ()))
     = Inr (([7], [6], [7]), ([5], [6], (), ()))"
proof -
  let ?c = "toyCtrl AUGMENTED_KKT False False 1 (1 / 4) 2"
  have le: "(0::int) \<le> maxIts ?c" "(1::int) \<le> maxIts ?c" "\<not> (1::int) + 1 \<le> maxIts ?c"
    by (simp_all add: toyCtrl_def)
  from IPF_dist_sparse_loop_Continue [OF le(1) toy7d_aug_iteration0]
       IPF_dist_sparse_loop_Continue [OF le(2) toy7d_aug_iteration1]
       IPF_dist_sparse_loop_past [OF le(3)]
  show ?thesis by simp
qed

text \<open>
  Claim C7, for the sequential and the distributed sparse regime; the conjuncts come
  in two groups of five, first the sequential and then the distributed loop.
  (1) A pass that gets as far as the KKT system runs \<open>NestedDissection\<close> exactly when
  the counter is 0 and the system is \<open>FULL_KKT\<close> or \<open>NORMAL_KKT\<close>, or \<open>AUGMENTED_KKT\<close>
  with \<open>primalInit\<close> and \<open>dualInit\<close>; otherwise the analysis \<open>used\<close> that it hands to
  \<open>Pull\<close>, \<open>LDL\<close> and the solve, and leaves behind, is the one it was entered with.
  (2) When the loop, entered with the counter at 0, reaches pass number \<open>k\<close>, the rest
  of the loop is the loop entered there, and for \<open>k > 0\<close> the analysis that this pass
  is entered with, and by (1) uses, is the one computed in the first iteration from the
  matrix \<open>J\<close> of that iteration; for \<open>AUGMENTED_KKT\<close> without both flags it is the one
  the loop was entered with, the analysis of the initialization.
  (3) - (5) The analysis with which the loop returns: that of the first iteration;
  for \<open>AUGMENTED_KKT\<close> without both flags the one it was entered with; and for every
  system, the one with which a loop with the counter above 0 was entered.
\<close>

theorem IPF_sparse_symbolic_reuse:
  "(NumNonPositive x = 0 \<and> NumNonPositive z = 0 \<and>
      IPF_relError A b c bNrm2 cNrm2 (x, y, z) = (rb, rc, relError) \<and>
      \<not> relError \<le> targetTol ctrl \<and> \<not> (numIts = maxIts ctrl \<and> relError > minTol ctrl) \<and>
      used = (if numIts = 0 \<and> (system ctrl \<noteq> AUGMENTED_KKT \<or> primalInit ctrl \<and> dualInit ctrl)
              then analyse K (IPF_sparse_J K ctrl A x z reg) else symb) \<longrightarrow>
      IPF_sparse_iteration K ctrl A b c bNrm2 cNrm2 m n reg numIts ((x, y, z), symb) =
        (case IPF_sparse_solve K ctrl A c m n reg x z rc rb (IPF_rmu ctrl n x z) used of
           None \<Rightarrow>
             if relError \<le> minTol ctrl then Break ((x, y, z), used)
             else Throw MinTolNotAchieved ((x, y, z), used)
         | Some dir \<Rightarrow>
             with_sym used (IPF_takeStep K ctrl A b c bNrm2 cNrm2 relError (x, y, z) dir)))
   \<and> (IPF_sparse_pass K ctrl A b c bNrm2 cNrm2 m n reg k ((x0, y0, z0), symb0) = Some (it_k, symb_k) \<longrightarrow>
      IPF_sparse_loop K ctrl A b c bNrm2 cNrm2 m n reg 0 ((x0, y0, z0), symb0)
        = IPF_sparse_loop K ctrl A b c bNrm2 cNrm2 m n reg (int k) (it_k, symb_k)
      \<and> (0 < k \<longrightarrow>
           symb_k = (if system ctrl \<noteq> AUGMENTED_KKT \<or> primalInit ctrl \<and> dualInit ctrl
                     then analyse K (IPF_sparse_J K ctrl A x0 z0 reg) else symb0)))
   \<and> (0 \<le> maxIts ctrl \<and> (system ctrl \<noteq> AUGMENTED_KKT \<or> (primalInit ctrl \<and> dualInit ctrl)) \<longrightarrow>
      NumNonPositive x = 0 \<and> NumNonPositive z = 0 \<and>
      \<not> snd (snd (IPF_relError A b c bNrm2 cNrm2 (x, y, z))) \<le> targetTol ctrl \<longrightarrow>
      IPF_sparse_loop K ctrl A b c bNrm2 cNrm2 m n reg 0 ((x, y, z), symb) = Inr (it', symb') \<longrightarrow>
      symb' = analyse K (IPF_sparse_J K ctrl A x z reg))
   \<and> (system ctrl = AUGMENTED_KKT \<and> \<not> (primalInit ctrl \<and> dualInit ctrl) \<longrightarrow>
      IPF_sparse_loop K ctrl A b c bNrm2 cNrm2 m n reg numIts (it, symb) = Inr (it', symb') \<longrightarrow>
      symb' = symb)
   \<and> (0 < numIts \<longrightarrow>
      IPF_sparse_loop K ctrl A b c bNrm2 cNrm2 m n reg numIts (it, symb) = Inr (it', symb') \<longrightarrow>
      symb' = symb)
   \<and> (NumNonPositive x = 0 \<and> NumNonPositive z = 0 \<and>
      IPF_relError A b c bNrm2 cNrm2 (x, y, z) = (rb, rc, relError) \<and>
      \<not> relError \<le> targetTol ctrl \<and> \<not> (numIts = maxIts ctrl \<and> relError > minTol ctrl) \<and>
      used = (if numIts = 0 \<and> (system ctrl \<noteq> AUGMENTED_KKT \<or> primalInit ctrl \<and> dualInit ctrl)
              then analyse K (IPF_sparse_J K ctrl A x z reg) else symb) \<longrightarrow>
      IPF_dist_sparse_iteration K ctrl A b c bNrm2 cNrm2 m n reg numIts ((x, y, z), symb) =
        (case IPF_dist_sparse_solve K ctrl A c m n reg x z rc rb (IPF_rmu ctrl n x z) used of
           None \<Rightarrow>
             if relError \<le> minTol ctrl then Break ((x, y, z), used)
             else Throw MinTolNotAchieved ((x, y, z), used)
         | Some dir \<Rightarrow>
             with_sym used (IPF_takeStep K ctrl A b c bNrm2 cNrm2 relError (x, y, z) dir)))
   \<and> (IPF_dist_sparse_pass K ctrl A b c bNrm2 cNrm2 m n reg k ((x0, y0, z0), symb0) = Some (it_k, symb_k) \<longrightarrow>
      IPF_dist_sparse_loop K ctrl A b c bNrm2 cNrm2 m n reg 0 ((x0, y0, z0), symb0)
        = IPF_dist_sparse_loop K ctrl A b c bNrm2 cNrm2 m n reg (int k) (it_k, symb_k)
      \<and> (0 < k \<longrightarrow>
           symb_k = (if system ctrl \<noteq> AUGMENTED_KKT \<or> primalInit ctrl \<and> dualInit ctrl
                     then analyse K (IPF_sparse_J K ctrl A x0 z0 reg) else symb0)))
   \<and> (0 \<le> maxIts ctrl \<and> (system ctrl \<noteq> AUGMENTED_KKT \<or> (primalInit ctrl \<and> dualInit ctrl)) \<longrightarrow>
      NumNonPositive x = 0 \<and> NumNonPositive z = 0 \<and>
      \<not> snd (snd (IPF_relError A b c bNrm2 cNrm2 (x, y, z))) \<le> targetTol ctrl \<longrightarrow>
      IPF_dist_sparse_loop K ctrl A b c bNrm2 cNrm2 m n reg 0 ((x, y, z), symb) = Inr (it', symb') \<longrightarrow>
      symb' = analyse K (IPF_sparse_J K ctrl A x z reg))
   \<and> (system ctrl = AUGMENTED_KKT \<and> \<not> (primalInit ctrl \<and> dualInit ctrl) \<longrightarrow>
      IPF_dist_sparse_loop K ctrl A b c bNrm2 cNrm2 m n reg numIts (it, symb) = Inr (it', symb') \<longrightarrow>
      symb' = symb)
   \<and> (0 < numIts \<longrightarrow>
      IPF_dist_sparse_loop K ctrl A b c bNrm2 cNrm2 m n reg numIts (it, symb) = Inr (it', symb') \<longrightarrow>
      symb' = symb)"
proof (intro conjI impI)
  assume "NumNonPositive x = 0 \<and> NumNonPositive z = 0 \<and>
      IPF_relError A b c bNrm2 cNrm2 (x, y, z) = (rb, rc, relError) \<and>
      \<not> relError \<le> targetTol ctrl \<and> \<not> (numIts = maxIts ctrl \<and> relError > minTol ctrl) \<and>
      used = (if numIts = 0 \<and> (system ctrl \<noteq> AUGMENTED_KKT \<or> primalInit ctrl \<and> dualInit ctrl)
              then analyse K (IPF_sparse_J K ctrl A x z reg) else symb)"
  then show "IPF_sparse_iteration K ctrl A b c bNrm2 cNrm2 m n reg numIts ((x, y, z), symb) =
        (case IPF_sparse_solve K ctrl A c m n reg x z rc rb (IPF_rmu ctrl n x z) used of
           None \<Rightarrow>
             if relError \<le> minTol ctrl then Break ((x, y, z), used)
             else Throw MinTolNotAchieved ((x, y, z), used)
         | Some dir \<Rightarrow>
             with_sym used (IPF_takeStep K ctrl A b c bNrm2 cNrm2 relError (x, y, z) dir))"
    using IPF_sparse_iteration_solve [of x z A b c bNrm2 cNrm2 y rb rc relError ctrl numIts used K reg symb m n]
    by blast
next
  assume p: "IPF_sparse_pass K ctrl A b c bNrm2 cNrm2 m n reg k ((x0, y0, z0), symb0) = Some (it_k, symb_k)"
  from IPF_sparse_pass_loop [OF p]
  show "IPF_sparse_loop K ctrl A b c bNrm2 cNrm2 m n reg 0 ((x0, y0, z0), symb0)
        = IPF_sparse_loop K ctrl A b c bNrm2 cNrm2 m n reg (int k) (it_k, symb_k)" by simp
  assume "0 < k"
  from IPF_sparse_pass_symb [OF p this]
  show "symb_k = (if system ctrl \<noteq> AUGMENTED_KKT \<or> primalInit ctrl \<and> dualInit ctrl
                     then analyse K (IPF_sparse_J K ctrl A x0 z0 reg) else symb0)" .
next
  assume "0 \<le> maxIts ctrl \<and> (system ctrl \<noteq> AUGMENTED_KKT \<or> (primalInit ctrl \<and> dualInit ctrl))"
    and "NumNonPositive x = 0 \<and> NumNonPositive z = 0 \<and>
      \<not> snd (snd (IPF_relError A b c bNrm2 cNrm2 (x, y, z))) \<le> targetTol ctrl"
    and "IPF_sparse_loop K ctrl A b c bNrm2 cNrm2 m n reg 0 ((x, y, z), symb) = Inr (it', symb')"
  then show "symb' = analyse K (IPF_sparse_J K ctrl A x z reg)"
    using IPF_sparse_loop_first [of ctrl x z A b c bNrm2 cNrm2 y K m n reg symb it' symb'] by blast
next
  assume "system ctrl = AUGMENTED_KKT \<and> \<not> (primalInit ctrl \<and> dualInit ctrl)"
    and "IPF_sparse_loop K ctrl A b c bNrm2 cNrm2 m n reg numIts (it, symb) = Inr (it', symb')"
  then show "symb' = symb" using IPF_sparse_loop_reuse by blast
next
  assume "0 < numIts"
    and "IPF_sparse_loop K ctrl A b c bNrm2 cNrm2 m n reg numIts (it, symb) = Inr (it', symb')"
  then show "symb' = symb" using IPF_sparse_loop_reuse by blast
next
  assume "NumNonPositive x = 0 \<and> NumNonPositive z = 0 \<and>
      IPF_relError A b c bNrm2 cNrm2 (x, y, z) = (rb, rc, relError) \<and>
      \<not> relError \<le> targetTol ctrl \<and> \<not> (numIts = maxIts ctrl \<and> relError > minTol ctrl) \<and>
      used = (if numIts = 0 \<and> (system ctrl \<noteq> AUGMENTED_KKT \<or> primalInit ctrl \<and> dualInit ctrl)
              then analyse K (IPF_sparse_J K ctrl A x z reg) else symb)"
  then show "IPF_dist_sparse_iteration K ctrl A b c bNrm2 cNrm2 m n reg numIts ((x, y, z), symb) =
        (case IPF_dist_sparse_solve K ctrl A c m n reg x z rc rb (IPF_rmu ctrl n x z) used of
           None \<Rightarrow>
             if relError \<le> minTol ctrl then Break ((x, y, z), used)
             else Throw MinTolNotAchieved ((x, y, z), used)
         | Some dir \<Rightarrow>
             with_sym used (IPF_takeStep K ctrl A b c bNrm2 cNrm2 relError (x, y, z) dir))"
    using IPF_dist_sparse_iteration_solve [of x z A b c bNrm2 cNrm2 y rb rc relError ctrl numIts used K reg symb m n]
    by blast
next
  assume p: "IPF_dist_sparse_pass K ctrl A b c bNrm2 cNrm2 m n reg k ((x0, y0, z0), symb0) = Some (it_k, symb_k)"
  from IPF_dist_sparse_pass_loop [OF p]
  show "IPF_dist_sparse_loop K ctrl A b c bNrm2 cNrm2 m n reg 0 ((x0, y0, z0), symb0)
        = IPF_dist_sparse_loop K ctrl A b c bNrm2 cNrm2 m n reg (int k) (it_k, symb_k)" by simp
  assume "0 < k"
  from IPF_dist_sparse_pass_symb [OF p this]
  show "symb_k = (if system ctrl \<noteq> AUGMENTED_KKT \<or> primalInit ctrl \<and> dualInit ctrl
                     then analyse K (IPF_sparse_J K ctrl A x0 z0 reg) else symb0)" .
next
  assume "0 \<le> maxIts ctrl \<and> (system ctrl \<noteq> AUGMENTED_KKT \<or> (primalInit ctrl \<and> dualInit ctrl))"
    and "NumNonPositive x = 0 \<and> NumNonPositive z = 0 \<and>
      \<not> snd (snd (IPF_relError A b c bNrm2 cNrm2 (x, y, z))) \<le> targetTol ctrl"
    and "IPF_dist_sparse_loop K ctrl A b c bNrm2 cNrm2 m n reg 0 ((x, y, z), symb) = Inr (it', symb')"
  then show "symb' = analyse K (IPF_sparse_J K ctrl A x z reg)"
    using IPF_dist_sparse_loop_first [of ctrl x z A b c bNrm2 cNrm2 y K m n reg symb it' symb'] by blast
next
  assume "system ctrl = AUGMENTED_KKT \<and> \<not> (primalInit ctrl \<and> dualInit ctrl)"
    and "IPF_dist_sparse_loop K ctrl A b c bNrm2 cNrm2 m n reg numIts (it, symb) = Inr (it', symb')"
  then show "symb' = symb" using IPF_dist_sparse_loop_reuse by blast
next
  assume "0 < numIts"
    and "IPF_dist_sparse_loop K ctrl A b c bNrm2 cNrm2 m n reg numIts (it, symb) = Inr (it', symb')"
  then show "symb' = symb" using IPF_dist_sparse_loop_reuse by blast
qed

theorem IPF_sparse_symbolic_reuse_witness:
  "NumNonPositive [2] = 0 \<and>
   IPF_relError toyA [1] [1] 1 1 ([2], [1], [2]) = ([1], [0], 1) \<and>
   \<not> 1 \<le> targetTol (toyCtrl FULL_KKT False True 1 (1 / 4) 2) \<and>
   1 \<le> minTol (toyCtrl FULL_KKT False True 1 (1 / 4) 2) \<and>
   system (toyCtrl FULL_KKT False True 1 (1 / 4) 2) \<noteq> AUGMENTED_KKT \<and>
   analyse toyK7 (IPF_sparse_J toyK7 (toyCtrl FULL_KKT False True 1 (1 / 4) 2) toyA [1] [1] [0, 0, 0])
     = ([2], [2], (), ()) \<and>
   analyse toyK7 (IPF_sparse_J toyK7 (toyCtrl FULL_KKT False True 1 (1 / 4) 2) toyA [2] [2] [0, 0, 0])
     = ([4], [4], (), ()) \<and>
   IPF_sparse_pass toyK7 (toyCtrl FULL_KKT False True 1 (1 / 4) 2) toyA [1] [1] 1 1 1 1
     [0, 0, 0] 1 (([1], [0], [1]), ([], [], (), ()))
     = Some (([2], [1], [2]), ([2], [2], (), ())) \<and>
   IPF_sparse_iteration toyK7 (toyCtrl FULL_KKT False True 1 (1 / 4) 2) toyA [1] [1] 1 1 1 1
     [0, 0, 0] 1 (([2], [1], [2]), ([2], [2], (), ()))
     = Continue (([3], [2], [3]), ([2], [2], (), ())) \<and>
   IPF_sparse_loop toyK7 (toyCtrl FULL_KKT False True 1 (1 / 4) 2) toyA [1] [1] 1 1 1 1
     [0, 0, 0] 0 (([1], [0], [1]), ([], [], (), ()))
     = Inr (([3], [2], [3]), ([2], [2], (), ())) \<and>
   IPF_dist_sparse_pass toyK7 (toyCtrl FULL_KKT False True 1 (1 / 4) 2) toyA [1] [1] 1 1 1 1
     [0, 0, 0] 1 (([1], [0], [1]), ([], [], (), ()))
     = Some (([2], [1], [2]), ([2], [2], (), ())) \<and>
   IPF_dist_sparse_iteration toyK7 (toyCtrl FULL_KKT False True 1 (1 / 4) 2) toyA [1] [1] 1 1 1 1
     [0, 0, 0] 1 (([2], [1], [2]), ([2], [2], (), ()))
     = Continue (([3], [2], [3]), ([2], [2], (), ())) \<and>
   IPF_dist_sparse_loop toyK7 (toyCtrl FULL_KKT False True 1 (1 / 4) 2) toyA [1] [1] 1 1 1 1
     [0, 0, 0] 0 (([1], [0], [1]), ([], [], (), ()))
     = Inr (([3], [2], [3]), ([2], [2], (), ())) \<and>
   NumNonPositive [4] = 0 \<and>
   IPF_relError toyA [1] [1] 1 1 ([4], [3], [4]) = ([3], [0], 3 / 2) \<and>
   \<not> 3 / 2 \<le> targetTol (toyCtrl AUGMENTED_KKT False False 1 (1 / 4) 2) \<and>
   3 / 2 \<le> minTol (toyCtrl AUGMENTED_KKT False False 1 (1 / 4) 2) \<and>
   system (toyCtrl AUGMENTED_KKT False False 1 (1 / 4) 2) = AUGMENTED_KKT \<and>
   \<not> (primalInit (toyCtrl AUGMENTED_KKT False False 1 (1 / 4) 2) \<and>
      dualInit (toyCtrl AUGMENTED_KKT False False 1 (1 / 4) 2)) \<and>
   analyse toyK7 (IPF_sparse_J toyK7 (toyCtrl AUGMENTED_KKT False False 1 (1 / 4) 2) toyA [1] [1] [0, 0])
     = ([2], [2], (), ()) \<and>
   analyse toyK7 (IPF_sparse_J toyK7 (toyCtrl AUGMENTED_KKT False False 1 (1 / 4) 2) toyA [4] [4] [0, 0])
     = ([8], [8], (), ()) \<and>
   IPF_sparse_pass toyK7 (toyCtrl AUGMENTED_KKT False False 1 (1 / 4) 2) toyA [1] [1] 1 1 1 1
     [0, 0] 1 (([1], [0], [1]), ([5], [6], (), ()))
     = Some (([4], [3], [4]), ([5], [6], (), ())) \<and>
   IPF_sparse_iteration toyK7 (toyCtrl AUGMENTED_KKT False False 1 (1 / 4) 2) toyA [1] [1] 1 1 1 1
     [0, 0] 1 (([4], [3], [4]), ([5], [6], (), ()))
     = Continue (([7], [6], [7]), ([5], [6], (), ())) \<and>
   IPF_sparse_loop toyK7 (toyCtrl AUGMENTED_KKT False False 1 (1 / 4) 2) toyA [1] [1] 1 1 1 1
     [0, 0] 0 (([1], [0], [1]), ([5], [6], (), ()))
     = Inr (([7], [6], [7]), ([5], [6], (), ())) \<and>
   IPF_dist_sparse_pass toyK7 (toyCtrl AUGMENTED_KKT False False 1 (1 / 4) 2) toyA [1] [1] 1 1 1 1
     [0, 0] 1 (([1], [0], [1]), ([5], [6], (), ()))
     = Some (([4], [3], [4]), ([5], [6], (), ())) \<and>
   IPF_dist_sparse_iteration toyK7 (toyCtrl AUGMENTED_KKT False False 1 (1 / 4) 2) toyA [1] [1] 1 1 1 1
     [0, 0] 1 (([4], [3], [4]), ([5], [6], (), ()))
     = Continue (([7], [6], [7]), ([5], [6], (), ())) \<and>
   IPF_dist_sparse_loop toyK7 (toyCtrl AUGMENTED_KKT False False 1 (1 / 4) 2) toyA [1] [1] 1 1 1 1
     [0, 0] 0 (([1], [0], [1]), ([5], [6], (), ()))
     = Inr (([7], [6], [7]), ([5], [6], (), ()))"
proof -
  let ?c = "toyCtrl FULL_KKT False True 1 (1 / 4) 2"
  let ?a = "toyCtrl AUGMENTED_KKT False False 1 (1 / 4) 2"
  let ?st0 = "(([1::real], [0::real], [1::real]), ([]::nat list, []::nat list, (), ()))"
  let ?sa0 = "(([1::real], [0::real], [1::real]), ([5::nat], [6::nat], (), ()))"
  have t: "\<not> 1 \<le> targetTol ?c" "1 \<le> minTol ?c" "\<not> (1 = maxIts ?c \<and> 1 > minTol ?c)"
    and sy: "system ?c \<noteq> AUGMENTED_KKT" and le: "(0::int) \<le> maxIts ?c"
    by (simp_all add: toyCtrl_def)
  have ta: "\<not> 3 / 2 \<le> targetTol ?a" "3 / 2 \<le> minTol ?a"
      "\<not> (1 = maxIts ?a \<and> 3 / 2 > minTol ?a)"
    and sa: "system ?a = AUGMENTED_KKT" "\<not> (primalInit ?a \<and> dualInit ?a)"
    by (simp_all add: toyCtrl_def)
  note A1 = IPF_sparse_symbolic_reuse [where K = toyK7 and ctrl = "?c" and A = toyA
             and b = "[1]" and c = "[1]" and ?bNrm2.0 = 1 and ?cNrm2.0 = 1 and m = 1 and n = 1
             and reg = "[0, 0, 0]" and x = "[2]" and y = "[1]" and z = "[2]" and rb = "[1]"
             and rc = "[0]" and relError = 1 and numIts = 1 and symb = "([2], [2], (), ())"
             and used = "([2], [2], (), ())",
             THEN conjunct1]
  note B1 = IPF_sparse_symbolic_reuse [where K = toyK7 and ctrl = "?c" and A = toyA
             and b = "[1]" and c = "[1]" and ?bNrm2.0 = 1 and ?cNrm2.0 = 1 and m = 1 and n = 1
             and reg = "[0, 0, 0]" and k = 1 and ?x0.0 = "[1]" and ?y0.0 = "[0]"
             and ?z0.0 = "[1]" and ?symb0.0 = "([], [], (), ())" and it_k = "([2], [1], [2])"
             and symb_k = "([2], [2], (), ())",
             THEN conjunct2, THEN conjunct1]
  note DA1 = IPF_sparse_symbolic_reuse [where K = toyK7 and ctrl = "?c" and A = toyA
             and b = "[1]" and c = "[1]" and ?bNrm2.0 = 1 and ?cNrm2.0 = 1 and m = 1 and n = 1
             and reg = "[0, 0, 0]" and x = "[2]" and y = "[1]" and z = "[2]" and rb = "[1]"
             and rc = "[0]" and relError = 1 and numIts = 1 and symb = "([2], [2], (), ())"
             and used = "([2], [2], (), ())",
             THEN conjunct2, THEN conjunct2, THEN conjunct2, THEN conjunct2, THEN conjunct2, THEN conjunct1]
  note DB1 = IPF_sparse_symbolic_reuse [where K = toyK7 and ctrl = "?c" and A = toyA
             and b = "[1]" and c = "[1]" and ?bNrm2.0 = 1 and ?cNrm2.0 = 1 and m = 1 and n = 1
             and reg = "[0, 0, 0]" and k = 1 and ?x0.0 = "[1]" and ?y0.0 = "[0]"
             and ?z0.0 = "[1]" and ?symb0.0 = "([], [], (), ())" and it_k = "([2], [1], [2])"
             and symb_k = "([2], [2], (), ())",
             THEN conjunct2, THEN conjunct2, THEN conjunct2, THEN conjunct2, THEN conjunct2, THEN conjunct2, THEN conjunct1]
  note A2 = IPF_sparse_symbolic_reuse [where K = toyK7 and ctrl = "?a" and A = toyA
             and b = "[1]" and c = "[1]" and ?bNrm2.0 = 1 and ?cNrm2.0 = 1 and m = 1 and n = 1
             and reg = "[0, 0]" and x = "[4]" and y = "[3]" and z = "[4]" and rb = "[3]"
             and rc = "[0]" and relError = "3 / 2" and numIts = 1 and symb = "([5], [6], (), ())"
             and used = "([5], [6], (), ())",
             THEN conjunct1]
  note B2 = IPF_sparse_symbolic_reuse [where K = toyK7 and ctrl = "?a" and A = toyA
             and b = "[1]" and c = "[1]" and ?bNrm2.0 = 1 and ?cNrm2.0 = 1 and m = 1 and n = 1
             and reg = "[0, 0]" and k = 1 and ?x0.0 = "[1]" and ?y0.0 = "[0]"
             and ?z0.0 = "[1]" and ?symb0.0 = "([5], [6], (), ())" and it_k = "([4], [3], [4])"
             and symb_k = "([5], [6], (), ())",
             THEN conjunct2, THEN conjunct1]
  note DA2 = IPF_sparse_symbolic_reuse [where K = toyK7 and ctrl = "?a" and A = toyA
             and b = "[1]" and c = "[1]" and ?bNrm2.0 = 1 and ?cNrm2.0 = 1 and m = 1 and n = 1
             and reg = "[0, 0]" and x = "[4]" and y = "[3]" and z = "[4]" and rb = "[3]"
             and rc = "[0]" and relError = "3 / 2" and numIts = 1 and symb = "([5], [6], (), ())"
             and used = "([5], [6], (), ())",
             THEN conjunct2, THEN conjunct2, THEN conjunct2, THEN conjunct2, THEN conjunct2, THEN conjunct1]
  note DB2 = IPF_sparse_symbolic_reuse [where K = toyK7 and ctrl = "?a" and A = toyA
             and b = "[1]" and c = "[1]" and ?bNrm2.0 = 1 and ?cNrm2.0 = 1 and m = 1 and n = 1
             and reg = "[0, 0]" and k = 1 and ?x0.0 = "[1]" and ?y0.0 = "[0]"
             and ?z0.0 = "[1]" and ?symb0.0 = "([5], [6], (), ())" and it_k = "([4], [3], [4])"
             and symb_k = "([5], [6], (), ())",
             THEN conjunct2, THEN conjunct2, THEN conjunct2, THEN conjunct2, THEN conjunct2, THEN conjunct2, THEN conjunct1]
  have i1: "IPF_sparse_iteration toyK7 ?c toyA [1] [1] 1 1 1 1 [0, 0, 0] 1
              (([2], [1], [2]), ([2], [2], (), ())) = Continue (([3], [2], [3]), ([2], [2], (), ()))"
    using A1 toy7_guard toy7_relError1 t
    by (simp add: toy7_solve toy7_step with_sym_def)
  have di1: "IPF_dist_sparse_iteration toyK7 ?c toyA [1] [1] 1 1 1 1 [0, 0, 0] 1
              (([2], [1], [2]), ([2], [2], (), ())) = Continue (([3], [2], [3]), ([2], [2], (), ()))"
    using DA1 toy7_guard toy7_relError1 t
    by (simp add: toy7d_solve toy7_step with_sym_def)
  have a0: "([2], [2], (), ()) = analyse toyK7 (IPF_sparse_J toyK7 ?c toyA [1] [1] [0, 0, 0])"
    using B1 toy7_pass1 sy by simp
  have i2: "IPF_sparse_iteration toyK7 ?a toyA [1] [1] 1 1 1 1 [0, 0] 1
              (([4], [3], [4]), ([5], [6], (), ())) = Continue (([7], [6], [7]), ([5], [6], (), ()))"
    using A2 toy7_guard4 toy7_relError2 ta
    by (simp add: toy7_solve toy7_step6 with_sym_def)
  have di2: "IPF_dist_sparse_iteration toyK7 ?a toyA [1] [1] 1 1 1 1 [0, 0] 1
              (([4], [3], [4]), ([5], [6], (), ())) = Continue (([7], [6], [7]), ([5], [6], (), ()))"
    using DA2 toy7_guard4 toy7_relError2 ta
    by (simp add: toy7d_solve toy7_step6 with_sym_def)
  have l2: "IPF_sparse_loop toyK7 ?a toyA [1] [1] 1 1 1 1 [0, 0] 0 ?sa0
             = IPF_sparse_loop toyK7 ?a toyA [1] [1] 1 1 1 1 [0, 0] 1
                 (([4], [3], [4]), ([5], [6], (), ()))"
    using B2 toy7_aug_pass1 by simp
  have dl2: "IPF_dist_sparse_loop toyK7 ?a toyA [1] [1] 1 1 1 1 [0, 0] 0 ?sa0
             = IPF_dist_sparse_loop toyK7 ?a toyA [1] [1] 1 1 1 1 [0, 0] 1
                 (([4], [3], [4]), ([5], [6], (), ()))"
    using DB2 toy7d_aug_pass1 by simp
  from toy7_guard toy7_relError1 t sy a0 [symmetric] toy7_analyse(2) [of 1 "1 / 4" 2 "[2]"]
    toy7_pass1 i1 toy7_loop toy7d_pass1 di1 toy7d_loop
    toy7_guard4 toy7_relError2 ta sa toy7_analyse_aug [of 1 "1 / 4" 2]
    toy7_aug_pass1 i2 toy7_aug_loop toy7d_aug_pass1 di2 toy7d_aug_loop
  show ?thesis by simp
qed

text \<open>
  Claim C10. When the counter equals \<open>ctrl.maxIts\<close>, the cone guard is passed and
  the relative error lies above \<open>ctrl.targetTol\<close> and at most at \<open>ctrl.minTol\<close>, the
  loop raises no error: the body is run once more (this pass is pass number
  \<open>maxIts + 1\<close>), and \<open>IPF\<close> leaves the loop with the stepped iterate, or with the
  unchanged one when the solve throws. The loop body never runs more than
  \<open>maxIts + 1\<close> times.
\<close>

theorem IPF_budget_soft_exit:
  assumes "numIts = maxIts ctrl"
    and "NumNonPositive x = 0" and "NumNonPositive z = 0"
    and "IPF_relError A b c bNrm2 cNrm2 (x, y, z) = (rb, rc, relError)"
    and "targetTol ctrl < relError" and "relError \<le> minTol ctrl"
  shows "IPF_loop K ctrl A b c bNrm2 cNrm2 m n numIts (x, y, z)
           = Inr (case IPF_direction K ctrl A c m n x z rc rb (IPF_rmu ctrl n x z) of
                    None \<Rightarrow> (x, y, z)
                  | Some dir \<Rightarrow> IPF_stepped K ctrl A b c bNrm2 cNrm2 (x, y, z) dir)
       \<and> IPF_passes K ctrl A b c bNrm2 cNrm2 m n numIts (x, y, z) = 1
       \<and> IPF_passes K ctrl A b c bNrm2 cNrm2 m n 0 it0 \<le> nat (maxIts ctrl + 1)"
proof -
  have le: "numIts \<le> maxIts ctrl" and past: "\<not> numIts + 1 \<le> maxIts ctrl"
    using assms(1) by simp_all
  have a: "\<not> relError \<le> targetTol ctrl" and b: "\<not> (numIts = maxIts ctrl \<and> relError > minTol ctrl)"
    using assms(5,6) by simp_all
  note it = IPF_iteration_direction [OF assms(2-4) a b, of K m n]
  let ?D = "IPF_direction K ctrl A c m n x z rc rb (IPF_rmu ctrl n x z)"
  have "IPF_loop K ctrl A b c bNrm2 cNrm2 m n numIts (x, y, z)
           = Inr (case ?D of None \<Rightarrow> (x, y, z)
                  | Some dir \<Rightarrow> IPF_stepped K ctrl A b c bNrm2 cNrm2 (x, y, z) dir)
       \<and> IPF_passes K ctrl A b c bNrm2 cNrm2 m n numIts (x, y, z) = 1"
  proof (cases ?D)
    case None
    with it assms(6)
    have i: "IPF_iteration K ctrl A b c bNrm2 cNrm2 m n numIts (x, y, z) = Break (x, y, z)"
      by simp
    have "IPF_passes K ctrl A b c bNrm2 cNrm2 m n numIts (x, y, z) = 1"
      using le i by (subst IPF_passes.simps) simp
    with IPF_loop_Break [OF le i] None show ?thesis by simp
  next
    case (Some dir)
    let ?s = "IPF_stepped K ctrl A b c bNrm2 cNrm2 (x, y, z) dir"
    from it Some have i: "IPF_iteration K ctrl A b c bNrm2 cNrm2 m n numIts (x, y, z)
        = IPF_takeStep K ctrl A b c bNrm2 cNrm2 relError (x, y, z) dir" by simp
    from IPF_takeStep_soft [OF assms(6), of K A b c bNrm2 cNrm2 "(x, y, z)" dir]
    show ?thesis
    proof
      assume "IPF_takeStep K ctrl A b c bNrm2 cNrm2 relError (x, y, z) dir = Break ?s"
      with i have j: "IPF_iteration K ctrl A b c bNrm2 cNrm2 m n numIts (x, y, z) = Break ?s"
        by simp
      have "IPF_passes K ctrl A b c bNrm2 cNrm2 m n numIts (x, y, z) = 1"
        using le j by (subst IPF_passes.simps) simp
      with IPF_loop_Break [OF le j] Some show ?thesis by simp
    next
      assume "IPF_takeStep K ctrl A b c bNrm2 cNrm2 relError (x, y, z) dir = Continue ?s"
      with i have j: "IPF_iteration K ctrl A b c bNrm2 cNrm2 m n numIts (x, y, z) = Continue ?s"
        by simp
      have p: "IPF_passes K ctrl A b c bNrm2 cNrm2 m n (numIts + 1) ?s = 0"
        using past by (subst IPF_passes.simps) simp
      have "IPF_passes K ctrl A b c bNrm2 cNrm2 m n numIts (x, y, z) = 1"
        using le j p by (subst IPF_passes.simps) simp
      with IPF_loop_Continue [OF le j] IPF_loop_past [OF past, of K A b c bNrm2 cNrm2 m n ?s] Some
      show ?thesis by simp
    qed
  qed
  moreover have "IPF_passes K ctrl A b c bNrm2 cNrm2 m n 0 it0 \<le> nat (maxIts ctrl + 1)"
    using IPF_passes_bound [of K ctrl A b c bNrm2 cNrm2 m n 0 it0] by simp
  ultimately show ?thesis by blast
qed

theorem IPF_budget_soft_exit_witness:
  "(0::int) = maxIts (toyCtrl FULL_KKT False True 0 (1 / 4) (3 / 4)) \<and>
   NumNonPositive [1] = 0 \<and>
   IPF_relError toyA [1] [1] 1 1 ([1], [0], [1]) = ([0], [0], 1 / 2) \<and>
   targetTol (toyCtrl FULL_KKT False True 0 (1 / 4) (3 / 4)) < 1 / 2 \<and>
   1 / 2 \<le> minTol (toyCtrl FULL_KKT False True 0 (1 / 4) (3 / 4)) \<and>
   IPF_loop (toyK (Some [0]) 1) (toyCtrl FULL_KKT False True 0 (1 / 4) (3 / 4)) toyA [1] [1] 1 1 1 1 0
     ([1], [0], [1]) = Inr ([1], [0], [1]) \<and>
   IPF_passes (toyK (Some [0]) 1) (toyCtrl FULL_KKT False True 0 (1 / 4) (3 / 4)) toyA [1] [1] 1 1 1 1
     0 ([1], [0], [1]) = 1 \<and>
   IPF (toyK (Some [0]) 1) toyA [1] [1] ([1], [0], [1]) (toyCtrl FULL_KKT False True 0 (1 / 4) (3 / 4))
     = Inr ([1], [0], [1]) \<and>
   snd (snd (IPF_relError toyA [1] [1] 1 1 ([1], [0], [1])))
     > targetTol (toyCtrl FULL_KKT False True 0 (1 / 4) (3 / 4))"
proof -
  let ?c = "toyCtrl FULL_KKT False True 0 (1 / 4) (3 / 4)"
  let ?K = "toyK (Some [0]) 1"
  have e: "(0::int) = maxIts ?c" by (simp add: toyCtrl_def)
  have r: "IPF_relError toyA [1] [1] 1 1 ([1], [0], [1]) = ([0], [0], 1 / 2)"
    by (simp add: toy_relError)
  have t: "targetTol ?c < 1 / 2" and b: "1 / 2 \<le> minTol ?c" by (simp_all add: toyCtrl_def)
  have d: "IPF_direction ?K ?c toyA [1] 1 1 [1] [1] [0] [0] (IPF_rmu ?c 1 [1] [1])
             = Some ([0], [0], [0])"
    by (simp add: IPF_direction_def toyK_def toyCtrl_def)
  have s: "IPF_stepped ?K ?c toyA [1] [1] 1 1 ([1], [0], [1]) ([0], [0], [0]) = ([1], [0], [1])"
    by (simp add: IPF_stepped_def toyK_def Axpy_def)
  note T = IPF_budget_soft_exit [OF e toy_guard toy_guard r t b,
             where K = "?K" and m = 1 and n = 1 and ?it0.0 = "([1], [0], [1])"]
  from T d s have l: "IPF_loop ?K ?c toyA [1] [1] 1 1 1 1 0 ([1], [0], [1]) = Inr ([1], [0], [1])"
    by simp
  have "IPF ?K toyA [1] [1] ([1], [0], [1]) ?c = Inr ([1], [0], [1])"
    using l by (simp add: IPF_def Let_def toyCtrl_def toyA_def toyK_def Nrm2_single)
  with T l e toy_guard r t b show ?thesis by simp
qed

section \<open>Properties of the multi-shift Hessenberg solve\<close>

lemma Mk_Suc:
  "Mk givens A (Suc k) i j =
     (if j = k then of_real (gc givens A k) * Mk givens A k i k + gs givens A k * Mk givens A k i (k + 1)
      else if j = k + 1
           then of_real (gc givens A k) * Mk givens A k i (k + 1) - cnj (gs givens A k) * Mk givens A k i k
           else Mk givens A k i j)"
  by (simp add: gc_def gs_def split: prod.splits)

declare Mk.simps(2) [simp del]

lemma givens_ok_gc:
  "givens_ok givens \<Longrightarrow>
   of_real (gc givens A k) * Mk givens A k k (k + 1) - cnj (gs givens A k) * Mk givens A k k k = 0"
  unfolding givens_ok_def gc_def gs_def
  by (metis (mono_tags, lifting) case_prod_unfold)

lemma Mk_later: "k < j \<Longrightarrow> Mk givens A k i j = A i j"
proof (induction k)
  case 0
  show ?case by simp
next
  case (Suc k)
  then show ?case by (simp only: Mk_Suc) simp
qed

lemma Mk_earlier: "j < k \<Longrightarrow> Mk givens A (Suc k) i j = Mk givens A k i j"
  by (simp only: Mk_Suc) simp

lemma Mk_zero:
  assumes ok: "givens_ok givens"
    and hess: "\<forall>i j. i + 1 < j \<and> j < m \<longrightarrow> A i j = 0"
  shows "k < m \<Longrightarrow> i < k \<Longrightarrow> i < j \<Longrightarrow> j < m \<Longrightarrow> Mk givens A k i j = 0"
proof (induction k arbitrary: i j)
  case 0
  then show ?case by simp
next
  case (Suc k)
  from Suc.prems have km: "k < m" and k1: "k + 1 < m" by simp_all
  show ?case
  proof (cases "i < k")
    case True
    have a: "Mk givens A k i j = 0" using Suc.IH [OF km True Suc.prems(3,4)] .
    have b: "Mk givens A k i k = 0" using Suc.IH [OF km True True km] .
    have c: "Mk givens A k i (k + 1) = 0"
      using Suc.IH [OF km True _ k1] True by simp
    show ?thesis using a b c by (simp only: Mk_Suc) simp
  next
    case False
    with Suc.prems have ik: "i = k" by simp
    show ?thesis
    proof (cases "j = k + 1")
      case True
      with ik givens_ok_gc [OF ok, of A k] show ?thesis by (simp only: Mk_Suc) simp
    next
      case False
      with ik Suc.prems have "k + 1 < j" by simp
      then have "Mk givens A k k j = A k j" by (simp add: Mk_later)
      moreover have "A k j = 0" using hess \<open>k + 1 < j\<close> Suc.prems(4) by simp
      ultimately show ?thesis using ik \<open>k + 1 < j\<close> by (simp only: Mk_Suc) simp
    qed
  qed
qed

text \<open>The forward sweep.\<close>

lemma col_forward_inv:
  assumes ok: "givens_ok givens"
    and hess: "\<forall>i j. i + 1 < j \<and> j < m \<longrightarrow> A i j = 0"
    and piv: "\<forall>k<m. col_pivot givens A m b k \<noteq> 0"
  shows "k < m \<Longrightarrow> col_forward givens A m k (col_init A b) = (x, w, c, s) \<Longrightarrow>
         (\<forall>i. k \<le> i \<and> i < m \<longrightarrow> w i = Mk givens A k i k)
       \<and> (\<forall>k'<k. c k' = gc givens A k' \<and> s k' = gs givens A k')
       \<and> (\<forall>i<m. (\<Sum>l<k. Mk givens A k i l * x l) + (if k \<le> i then x i else 0) = b i)"
proof (induction k arbitrary: x w c s)
  case 0
  then show ?case by (auto simp add: col_init_def)
next
  case (Suc k)
  obtain x0 w0 c0 s0 where st: "col_forward givens A m k (col_init A b) = (x0, w0, c0, s0)"
    by (cases "col_forward givens A m k (col_init A b)") auto
  from Suc.prems have km: "k < m" and k1: "k + 1 < m" by simp_all
  from Suc.IH [OF km st]
  have w0: "\<And>i. k \<le> i \<Longrightarrow> i < m \<Longrightarrow> w0 i = Mk givens A k i k"
    and cs0: "\<And>k'. k' < k \<Longrightarrow> c0 k' = gc givens A k' \<and> s0 k' = gs givens A k'"
    and r0: "\<And>i. i < m \<Longrightarrow> (\<Sum>l<k. Mk givens A k i l * x0 l) + (if k \<le> i then x0 i else 0) = b i"
    by auto
  let ?c = "gc givens A k" and ?s = "gs givens A k"
  have wk: "w0 k = Mk givens A k k k" using w0 [of k] km by simp
  have ak: "A i (k + 1) = Mk givens A k i (k + 1)" for i by (simp add: Mk_later)
  obtain rho where g: "givens (w0 k) (A k (k + 1)) = (?c, ?s, rho)"
    unfolding wk ak gc_def gs_def
    by (cases "givens (Mk givens A k k k) (Mk givens A k k (k + 1))") auto
  let ?lam = "of_real ?c * w0 k + ?s * A k (k + 1)"
  have lam: "?lam \<noteq> 0"
  proof -
    from piv km have "col_pivot givens A m b k \<noteq> 0" by simp
    then show ?thesis using k1 g by (simp add: col_pivot_def st)
  qed
  have L: "Mk givens A (Suc k) i k = of_real ?c * Mk givens A k i k + ?s * Mk givens A k i (k + 1)" for i
    by (simp only: Mk_Suc) simp
  from Suc.prems(2) st g
  have x: "x = (\<lambda>i. if i = k then x0 k / ?lam
                    else if k < i \<and> i < m
                         then x0 i - x0 k / ?lam * (of_real ?c * w0 i + ?s * A i (k + 1))
                         else x0 i)"
    and w: "w = (\<lambda>i. if k < i \<and> i < m then of_real ?c * A i (k + 1) - cnj ?s * w0 i else w0 i)"
    and c: "c = c0(k := ?c)" and s: "s = s0(k := ?s)"
    by (auto simp add: col_step_def Let_def)
  have W: "\<forall>i. Suc k \<le> i \<and> i < m \<longrightarrow> w i = Mk givens A (Suc k) i (Suc k)"
  proof (intro allI impI)
    fix i assume i: "Suc k \<le> i \<and> i < m"
    then have "w i = of_real ?c * A i (k + 1) - cnj ?s * w0 i" by (simp add: w)
    also have "\<dots> = of_real ?c * Mk givens A k i (k + 1) - cnj ?s * Mk givens A k i k"
      using i w0 [of i] by (simp add: Mk_later)
    also have "\<dots> = Mk givens A (Suc k) i (Suc k)" by (simp only: Mk_Suc) simp
    finally show "w i = Mk givens A (Suc k) i (Suc k)" .
  qed
  have CS: "\<forall>k'<Suc k. c k' = gc givens A k' \<and> s k' = gs givens A k'"
    using cs0 by (auto simp add: c s less_Suc_eq)
  have R: "\<forall>i<m. (\<Sum>l<Suc k. Mk givens A (Suc k) i l * x l) + (if Suc k \<le> i then x i else 0) = b i"
  proof (intro allI impI)
    fix i assume im: "i < m"
    have "(\<Sum>l<k. Mk givens A (Suc k) i l * x l) = (\<Sum>l<k. Mk givens A k i l * x0 l)"
      by (rule sum.cong) (simp_all add: Mk_earlier x)
    then have S: "(\<Sum>l<Suc k. Mk givens A (Suc k) i l * x l)
                 = (\<Sum>l<k. Mk givens A k i l * x0 l) + Mk givens A (Suc k) i k * (x0 k / ?lam)"
      by (simp add: x)
    consider "i < k" | "i = k" | "k < i" by linarith
    then show "(\<Sum>l<Suc k. Mk givens A (Suc k) i l * x l) + (if Suc k \<le> i then x i else 0) = b i"
    proof cases
      case 1
      have "Mk givens A k i k = 0" "Mk givens A k i (k + 1) = 0"
        using Mk_zero [OF ok hess km 1, of k] Mk_zero [OF ok hess km 1, of "k + 1"] 1 km k1
        by simp_all
      then have "Mk givens A (Suc k) i k = 0" by (simp add: L)
      with S r0 [OF im] 1 show ?thesis by simp
    next
      case 2
      have "Mk givens A (Suc k) k k = ?lam" by (simp add: L wk Mk_later)
      with S r0 [OF im] 2 lam show ?thesis by simp
    next
      case 3
      define q where "q = x0 k / ?lam"
      have xi: "x i = x0 i - q * Mk givens A (Suc k) i k"
        using 3 im w0 [of i] by (simp add: x L Mk_later q_def)
      have S': "(\<Sum>l<Suc k. Mk givens A (Suc k) i l * x l)
                 = (\<Sum>l<k. Mk givens A k i l * x0 l) + Mk givens A (Suc k) i k * q"
        using S by (simp add: q_def)
      have r: "(\<Sum>l<k. Mk givens A k i l * x0 l) + x0 i = b i" using r0 [OF im] 3 by simp
      have "(\<Sum>l<Suc k. Mk givens A (Suc k) i l * x l) + (if Suc k \<le> i then x i else 0)
              = ((\<Sum>l<k. Mk givens A k i l * x0 l) + Mk givens A (Suc k) i k * q)
                + (x0 i - q * Mk givens A (Suc k) i k)"
        using 3 by (simp only: S' xi) simp
      also have "\<dots> = (\<Sum>l<k. Mk givens A k i l * x0 l) + x0 i" by (simp add: algebra_simps)
      also have "\<dots> = b i" by (rule r)
      finally show ?thesis .
    qed
  qed
  from W CS R show ?case by blast
qed


text \<open>The division of the last row.\<close>

lemma col_last_division:
  assumes ok: "givens_ok givens"
    and hess: "\<forall>i j. i + 1 < j \<and> j < m \<longrightarrow> A i j = 0"
    and piv: "\<forall>k<m. col_pivot givens A m b k \<noteq> 0"
    and m: "0 < m"
    and st: "col_forward givens A m (m - 1) (col_init A b) = (x, w, c, s)"
    and i: "i < m"
  shows "(\<Sum>l<m. Mk givens A (m - 1) i l * (x(m - 1 := x (m - 1) / w (m - 1))) l) = b i"
proof -
  from m have m1: "m - 1 < m" by simp
  from col_forward_inv [OF ok hess piv m1 st]
  have w: "w (m - 1) = Mk givens A (m - 1) (m - 1) (m - 1)"
    and r: "(\<Sum>l<m - 1. Mk givens A (m - 1) i l * x l) + (if m - 1 \<le> i then x i else 0) = b i"
    using i m by auto
  from piv m1 have "col_pivot givens A m b (m - 1) \<noteq> 0" by blast
  then have w0: "w (m - 1) \<noteq> 0" using m st by (simp add: col_pivot_def)
  let ?y = "x(m - 1 := x (m - 1) / w (m - 1))"
  have "(\<Sum>l<m. Mk givens A (m - 1) i l * ?y l)
          = (\<Sum>l<Suc (m - 1). Mk givens A (m - 1) i l * ?y l)" using m by simp
  also have "\<dots> = (\<Sum>l<m - 1. Mk givens A (m - 1) i l * ?y l)
                     + Mk givens A (m - 1) i (m - 1) * (x (m - 1) / w (m - 1))"
    by (simp only: sum.lessThan_Suc) simp
  also have "(\<Sum>l<m - 1. Mk givens A (m - 1) i l * ?y l) = (\<Sum>l<m - 1. Mk givens A (m - 1) i l * x l)"
    by (rule sum.cong) simp_all
  also have "Mk givens A (m - 1) i (m - 1) * (x (m - 1) / w (m - 1)) = (if m - 1 \<le> i then x i else 0)"
  proof (cases "i = m - 1")
    case True
    with w w0 show ?thesis by simp
  next
    case False
    with i have lt: "i < m - 1" by simp
    from Mk_zero [OF ok hess m1 lt lt m1] lt show ?thesis by simp
  qed
  finally show ?thesis using r by simp
qed

text \<open>One rotation of the solution against one rotation of the columns.\<close>

lemma Mk_rotate:
  assumes k: "k + 1 < m"
  shows "(\<Sum>l<m. Mk givens A k i l *
            (v(k := of_real (gc givens A k) * v k - cnj (gs givens A k) * v (k + 1),
               k + 1 := of_real (gc givens A k) * v (k + 1) + gs givens A k * v k)) l)
       = (\<Sum>l<m. Mk givens A (Suc k) i l * v l)"
proof -
  let ?c = "of_real (gc givens A k) :: complex" and ?s = "gs givens A k"
  let ?v = "v(k := ?c * v k - cnj ?s * v (k + 1), k + 1 := ?c * v (k + 1) + ?s * v k)"
  let ?d = "\<lambda>l. Mk givens A k i l * ?v l - Mk givens A (Suc k) i l * v l"
  have "(\<Sum>l<m. ?d l) = (\<Sum>l\<in>{k, k + 1}. ?d l)"
  proof (rule sum.mono_neutral_right)
    show "finite {..<m}" by simp
    show "{k, k + 1} \<subseteq> {..<m}" using k by simp
    show "\<forall>l\<in>{..<m} - {k, k + 1}. ?d l = 0"
      by (simp only: Mk_Suc) simp
  qed
  also have "\<dots> = ?d k + ?d (k + 1)" by simp
  also have "\<dots> = 0" by (simp only: Mk_Suc) (simp add: algebra_simps)
  finally have "(\<Sum>l<m. ?d l) = 0" .
  then show ?thesis by (simp add: sum_subtractf)
qed

lemma col_rotate_fold:
  assumes cs: "\<forall>k<m - 1. c k = gc givens A k \<and> s k = gs givens A k"
  shows "K < m \<Longrightarrow> (\<forall>i<m. (\<Sum>l<m. Mk givens A K i l * (x(K := t1)) l) = b i) \<Longrightarrow>
         fold (col_rotate c s) (rev [0..<K]) (x, t1) = (x', t1') \<Longrightarrow>
         \<forall>i<m. (\<Sum>l<m. A i l * (x'(0 := t1')) l) = b i"
proof (induction K arbitrary: x t1)
  case 0
  then show ?case by auto
next
  case (Suc K)
  from Suc.prems(1) have K: "K < m" and K1: "K + 1 < m" and Km: "K < m - 1" by simp_all
  let ?c = "of_real (gc givens A K) :: complex" and ?s = "gs givens A K"
  let ?x1 = "x(K + 1 := ?c * t1 + ?s * x K)" and ?t1 = "?c * x K - cnj ?s * t1"
  have step: "col_rotate c s K (x, t1) = (?x1, ?t1)"
    using cs Km by (simp add: col_rotate_def)
  let ?v = "x(Suc K := t1)"
  have veq: "?x1(K := ?t1)
           = ?v(K := ?c * ?v K - cnj ?s * ?v (K + 1), K + 1 := ?c * ?v (K + 1) + ?s * ?v K)"
    by (rule ext) simp
  have "\<forall>i<m. (\<Sum>l<m. Mk givens A K i l * (?x1(K := ?t1)) l) = b i"
  proof (intro allI impI)
    fix i assume "i < m"
    with Suc.prems(2) have "(\<Sum>l<m. Mk givens A (Suc K) i l * ?v l) = b i" by simp
    then show "(\<Sum>l<m. Mk givens A K i l * (?x1(K := ?t1)) l) = b i"
      unfolding veq by (simp only: Mk_rotate [OF K1])
  qed
  moreover have "fold (col_rotate c s) (rev [0..<K]) (?x1, ?t1) = (x', t1')"
    using Suc.prems(3) by (simp add: step)
  ultimately show ?case using Suc.IH [OF K] by blast
qed

text \<open>The solve of one column is correct.\<close>

lemma col_solve_correct:
  assumes ok: "givens_ok givens"
    and hess: "\<forall>i j. i + 1 < j \<and> j < m \<longrightarrow> A i j = 0"
    and piv: "\<forall>k<m. col_pivot givens A m b k \<noteq> 0"
    and i: "i < m"
  shows "(\<Sum>l<m. A i l * col_solve givens A m b l) = b i"
proof -
  from i have m: "0 < m" and m1: "m - 1 < m" by simp_all
  obtain x w c s where st: "col_forward givens A m (m - 1) (col_init A b) = (x, w, c, s)"
    by (cases "col_forward givens A m (m - 1) (col_init A b)") auto
  let ?y = "x(m - 1 := x (m - 1) / w (m - 1))"
  obtain x' t1' where f: "fold (col_rotate c s) (rev [0..<m - 1]) (?y, ?y (m - 1)) = (x', t1')"
    by (cases "fold (col_rotate c s) (rev [0..<m - 1]) (?y, ?y (m - 1))") auto
  have cs: "\<forall>k<m - 1. c k = gc givens A k \<and> s k = gs givens A k"
    using col_forward_inv [OF ok hess piv m1 st] by blast
  have y: "\<forall>i<m. (\<Sum>l<m. Mk givens A (m - 1) i l * (?y(m - 1 := ?y (m - 1))) l) = b i"
    using col_last_division [OF ok hess piv m st] by simp
  from col_rotate_fold [OF cs m1 y f] i
  have "(\<Sum>l<m. A i l * (x'(0 := t1')) l) = b i" by simp
  moreover have "col_solve givens A m b = x'(0 := t1')"
    using f st by (simp add: col_solve_def Let_def)
  ultimately show ?thesis by simp
qed

lemma Get_Set_entry [simp]:
  "Get (Set_entry M i j v) i' j' = (if i' = i \<and> j' = j then v else Get M i' j')"
  by (simp add: Set_entry_def)

lemma Get_Update_entry [simp]:
  "Get (Update_entry M i j v) i' j' = (if i' = i \<and> j' = j then Get M i j + v else Get M i' j')"
  by (simp add: Update_entry_def)

lemma Get_Axpy_col [simp]:
  "Get (Axpy_col alpha A ja B jb lo hi) i j =
     (if j = jb \<and> lo \<le> i \<and> i < hi then Get B i j + alpha * Get A i ja else Get B i j)"
  by (simp add: Axpy_col_def)

lemma Get_Scale_col [simp]:
  "Get (Scale_col alpha B jb lo hi) i j =
     (if j = jb \<and> lo \<le> i \<and> i < hi then alpha * Get B i j else Get B i j)"
  by (simp add: Scale_col_def)

lemma Get_MemCopy_col [simp]:
  "Get (MemCopy_col B jb A ja m) i j = (if j = jb \<and> i < m then Get A i ja else Get B i j)"
  by (simp add: MemCopy_col_def)

lemma Get_Scale [simp]: "Get (Scale alpha M) i j = alpha * Get M i j"
  by (simp add: Scale_def)

lemma Get_Zeros [simp]: "Get (Zeros m n) i j = 0"
  by (simp add: Zeros_def)

lemma fold_proj:
  assumes "\<And>j j' st. j < n \<Longrightarrow> proj (step j st) j' = (if j' = j then f j (proj st j) else proj st j')"
  shows "proj (fold step [0..<n] st) j = (if j < n then f j (proj st j) else proj st j)"
  using assms
proof (induction n arbitrary: j)
  case 0
  show ?case by simp
next
  case (Suc n)
  have IH: "proj (fold step [0..<n] st) j' = (if j' < n then f j' (proj st j') else proj st j')" for j'
    using Suc.IH Suc.prems by simp
  have "proj (fold step [0..<Suc n] st) j = proj (step n (fold step [0..<n] st)) j" by simp
  also have "\<dots> = (if j = n then f n (proj (fold step [0..<n] st) n)
                     else proj (fold step [0..<n] st) j)"
    using Suc.prems [of n] by simp
  also have "\<dots> = (if j < Suc n then f j (proj st j) else proj st j)"
    by (simp add: IH less_Suc_eq)
  finally show ?case .
qed

lemma LN_eliminate_col:
  assumes k: "k + 1 < m"
  shows "LN_col (LN_eliminate givens H shifts m k j st) j'
           = (if j' = j then col_step givens (A_LN m H (Get shifts j 0)) m k (LN_col st j)
              else LN_col st j')"
proof -
  obtain X W C S where st: "st = (X, W, C, S)" by (cases st) auto
  obtain c s rho where g: "givens (Get W k j) (Get H k (k + 1)) = (c, s, rho)"
    by (cases "givens (Get W k j) (Get H k (k + 1))") auto
  show ?thesis
  proof (cases "j' = j")
    case False
    then show ?thesis using g by (simp add: st LN_col_def LN_eliminate_def Let_def)
  next
    case True
    have "LN_col (LN_eliminate givens H shifts m k j st) j
            = col_step givens (A_LN m H (Get shifts j 0)) m k (LN_col st j)"
      using k g
      by (auto simp add: st LN_col_def LN_eliminate_def col_step_def Let_def fun_eq_iff
            A_LN_def algebra_simps add_divide_distrib)
    with True show ?thesis by simp
  qed
qed


lemma LN_forward_Suc:
  "LN_forward givens H shifts m n (Suc K) st
     = fold (\<lambda>j st. LN_eliminate givens H shifts m K j st) [0..<n]
         (LN_forward givens H shifts m n K st)"
  by (simp add: LN_forward_def)

lemma LN_forward_col:
  "K < m \<Longrightarrow> j < n \<Longrightarrow>
   LN_col (LN_forward givens H shifts m n K st) j
     = col_forward givens (A_LN m H (Get shifts j 0)) m K (LN_col st j)"
proof (induction K)
  case 0
  show ?case by (simp add: LN_forward_def)
next
  case (Suc K)
  from Suc.prems have K: "K < m" and K1: "K + 1 < m" by simp_all
  have "LN_col (LN_forward givens H shifts m n (Suc K) st) j
          = col_step givens (A_LN m H (Get shifts j 0)) m K
              (LN_col (LN_forward givens H shifts m n K st) j)"
    unfolding LN_forward_Suc
    using fold_proj [of n LN_col "\<lambda>j st. LN_eliminate givens H shifts m K j st"
            "\<lambda>j. col_step givens (A_LN m H (Get shifts j 0)) m K", OF LN_eliminate_col [OF K1]]
          Suc.prems(2)
    by simp
  then show ?case using Suc.IH [OF K Suc.prems(2)] by simp
qed

lemma LN_init_col:
  assumes m: "0 < Height X" and j: "j < Width X"
  shows "LN_col (LN_init H shifts X) j
           = col_init (A_LN (Height X) H (Get shifts j 0)) (\<lambda>i. Get X i j)"
proof -
  let ?m = "Height X" and ?n = "Width X"
  let ?step = "\<lambda>j W. Update_entry (MemCopy_col W j H 0 ?m) 0 j (- Get shifts j 0)"
  let ?proj = "\<lambda>(W::complex Matrix) j i. Get W i j"
  let ?f = "\<lambda>j (col :: nat \<Rightarrow> complex) i.
              if i < ?m then A_LN ?m H (Get shifts j 0) i 0 else col i"
  have "?proj (fold ?step [0..<?n] (Zeros ?m ?n)) j
          = (if j < ?n then ?f j (?proj (Zeros ?m ?n) j) else ?proj (Zeros ?m ?n) j)"
  proof (rule fold_proj [of ?n ?proj ?step ?f])
    fix j j' :: nat and W :: "complex Matrix"
    show "?proj (?step j W) j' = (if j' = j then ?f j (?proj W j) else ?proj W j')"
      using m by (auto simp add: fun_eq_iff A_LN_def)
  qed
  then have "(\<lambda>i. Get (fold ?step [0..<?n] (Zeros ?m ?n)) i j)
               = (\<lambda>i. A_LN ?m H (Get shifts j 0) i 0)"
    using j by (auto simp add: fun_eq_iff A_LN_def)
  then show ?thesis
    by (simp add: LN_init_def LN_col_def col_init_def Let_def)
qed

lemma LN_pivot_col:
  assumes k: "k < Height X0" and j: "j < Width X0"
  shows "LN_pivot givens alpha H shifts X0 k j
           = col_pivot givens (A_LN (Height X0) H (Get shifts j 0)) (Height X0)
               (\<lambda>i. alpha * Get X0 i j) k"
proof -
  let ?X = "Scale alpha X0"
  have hw: "Height ?X = Height X0" "Width ?X = Width X0" by (simp_all add: Scale_def)
  let ?st = "LN_forward givens H shifts (Height X0) (Width X0) k (LN_init H shifts ?X)"
  obtain X W C S where st: "?st = (X, W, C, S)" by (cases ?st) auto
  have "LN_col ?st j = col_forward givens (A_LN (Height X0) H (Get shifts j 0)) (Height X0) k
                         (col_init (A_LN (Height X0) H (Get shifts j 0)) (\<lambda>i. alpha * Get X0 i j))"
    using LN_forward_col [OF k j, of givens H shifts "LN_init H shifts ?X"]
          LN_init_col [of ?X j H shifts] k j
    by (simp add: hw)
  then have c: "col_forward givens (A_LN (Height X0) H (Get shifts j 0)) (Height X0) k
                  (col_init (A_LN (Height X0) H (Get shifts j 0)) (\<lambda>i. alpha * Get X0 i j))
                = ((\<lambda>i. Get X i j), (\<lambda>i. Get W i j), (\<lambda>k. Get C k j), (\<lambda>k. Get S k j))"
    by (simp add: st LN_col_def)
  have a: "A_LN (Height X0) H (Get shifts j 0) k (Suc k) = Get H k (Suc k)"
    using k by (simp add: A_LN_def)
  show ?thesis using k st
    by (simp add: LN_pivot_def col_pivot_def c hw Let_def a)
qed


lemma LN_rotate_col:
  "back_col (LN_rotate C S k j st) j'
     = (if j' = j then col_rotate (\<lambda>k. Get C k j) (\<lambda>k. Get S k j) k (back_col st j)
        else back_col st j')"
  by (cases st) (auto simp add: back_col_def LN_rotate_def col_rotate_def Let_def fun_eq_iff)

lemma LN_rotate_fold_col:
  "j < n \<Longrightarrow>
   back_col (fold (\<lambda>k st. fold (\<lambda>j st. LN_rotate C S k j st) [0..<n] st) ks st) j
     = fold (col_rotate (\<lambda>k. Get C k j) (\<lambda>k. Get S k j)) ks (back_col st j)"
proof (induction ks arbitrary: st)
  case Nil
  show ?case by simp
next
  case (Cons k ks)
  have "back_col (fold (\<lambda>j st. LN_rotate C S k j st) [0..<n] st) j
          = col_rotate (\<lambda>k. Get C k j) (\<lambda>k. Get S k j) k (back_col st j)"
    using fold_proj [of n back_col "\<lambda>j st. LN_rotate C S k j st"
            "\<lambda>j. col_rotate (\<lambda>k. Get C k j) (\<lambda>k. Get S k j) k", OF LN_rotate_col]
          Cons.prems
    by simp
  then show ?case using Cons.IH [OF Cons.prems] by simp
qed

lemma fold_Set_row:
  "Get (fold (\<lambda>j X. Set_entry X r j (g X j)) [0..<n] X) i j
     = (if j < n \<and> i = r then g X j else Get X i j)"
  if "\<And>X j v j'. j' \<noteq> j \<Longrightarrow> g (Set_entry X r j' v) j = g X j"
proof -
  have "n' \<le> n \<Longrightarrow> Get (fold (\<lambda>j X. Set_entry X r j (g X j)) [0..<n'] X) i j
     = (if j < n' \<and> i = r then g X j else Get X i j)
     \<and> (\<forall>j\<ge>n'. g (fold (\<lambda>j X. Set_entry X r j (g X j)) [0..<n'] X) j = g X j)" for n'
  proof (induction n')
    case 0
    show ?case by simp
  next
    case (Suc n')
    then show ?case using that by (auto simp add: less_Suc_eq)
  qed
  then show ?thesis by blast
qed


lemma fold_t1:
  "Get (fold (\<lambda>j t1. Set_entry t1 j 0 (v j)) [0..<n] T) j 0 = (if j < n then v j else Get T j 0)"
  using fold_proj [of n "\<lambda>T j. Get T j 0" "\<lambda>j t1. Set_entry t1 j 0 (v j)" "\<lambda>j old. v j" T j]
  by simp

lemma LN_col_solve:
  assumes m: "0 < Height X0" and j: "j < Width X0"
  shows "(\<lambda>i. Get (mshs_LN givens alpha H shifts X0) i j)
           = col_solve givens (A_LN (Height X0) H (Get shifts j 0)) (Height X0)
               (\<lambda>i. alpha * Get X0 i j)"
proof -
  let ?m = "Height X0" and ?n = "Width X0"
  let ?X = "Scale alpha X0"
  let ?A = "A_LN ?m H (Get shifts j 0)"
  have hw: "Height ?X = ?m" "Width ?X = ?n" by (simp_all add: Scale_def)
  let ?st = "LN_forward givens H shifts ?m ?n (?m - 1) (LN_init H shifts ?X)"
  obtain X W C S where st: "?st = (X, W, C, S)" by (cases ?st) auto
  have m1: "?m - 1 < ?m" using m by simp
  have "LN_col ?st j = col_forward givens ?A ?m (?m - 1) (col_init ?A (\<lambda>i. alpha * Get X0 i j))"
    using LN_forward_col [OF m1 j, of givens H shifts "LN_init H shifts ?X"]
          LN_init_col [of ?X j H shifts] m j
    by (simp add: hw)
  then have c: "col_forward givens ?A ?m (?m - 1) (col_init ?A (\<lambda>i. alpha * Get X0 i j))
                = ((\<lambda>i. Get X i j), (\<lambda>i. Get W i j), (\<lambda>k. Get C k j), (\<lambda>k. Get S k j))"
    using st by (simp add: LN_col_def)
  define r where "r = ?m - 1"
  define X1 where
    "X1 = fold (\<lambda>j X. Set_entry X r j (Get X r j / Get W r j)) [0..<?n] X"
  define T1 where
    "T1 = fold (\<lambda>j t1. Set_entry t1 j 0 (Get X1 r j)) [0..<?n] (Zeros ?n 1)"
  define y where "y = (\<lambda>i. Get X i j)(r := Get X r j / Get W r j)"
  have fs: "Get X1 i j = (if j < ?n \<and> i = r then Get X r j / Get W r j else Get X i j)" for i
    unfolding X1_def by (rule fold_Set_row) simp
  have X1: "(\<lambda>i. Get X1 i j) = y"
    using j fs by (auto simp add: fun_eq_iff y_def)
  have t1: "Get T1 j 0 = y r"
    unfolding T1_def using j fs by (simp add: fold_t1 y_def)
  define B where
    "B = fold (\<lambda>k st. fold (\<lambda>j st. LN_rotate C S k j st) [0..<?n] st)
           (rev [0..<r]) (X1, T1, Zeros ?n 1)"
  obtain X2 t12 t22 where bk: "B = (X2, t12, t22)" by (cases B) auto
  have "back_col B j
          = fold (col_rotate (\<lambda>k. Get C k j) (\<lambda>k. Get S k j)) (rev [0..<r])
              (back_col (X1, T1, Zeros ?n 1) j)"
    unfolding B_def by (rule LN_rotate_fold_col [OF j])
  then have b: "fold (col_rotate (\<lambda>k. Get C k j) (\<lambda>k. Get S k j)) (rev [0..<r]) (y, y r)
                  = ((\<lambda>i. Get X2 i j), Get t12 j 0)"
    using X1 t1 by (simp add: bk back_col_def)
  have L: "mshs_LN givens alpha H shifts X0 = fold (\<lambda>j X. Set_entry X 0 j (Get t12 j 0)) [0..<?n] X2"
    using m st bk [unfolded B_def T1_def X1_def r_def]
    by (simp add: mshs_LN_def Let_def hw)
  have fl: "Get (fold (\<lambda>j X. Set_entry X 0 j (Get t12 j 0)) [0..<?n] X2) i j
              = (if j < ?n \<and> i = 0 then Get t12 j 0 else Get X2 i j)" for i
    by (rule fold_Set_row) simp
  have "(\<lambda>i. Get (mshs_LN givens alpha H shifts X0) i j) = (\<lambda>i. Get X2 i j)(0 := Get t12 j 0)"
    unfolding L using j fl by (auto simp add: fun_eq_iff)
  also have "\<dots> = col_solve givens ?A ?m (\<lambda>i. alpha * Get X0 i j)"
    using c b [unfolded y_def r_def] by (simp add: col_solve_def Let_def)
  finally show ?thesis .
qed

lemma UN_eliminate_col_aux:
  "UN_col (\<kappa> + 2 + d) (UN_eliminate givens H shifts (Suc d) j st) j'
     = (if j' = j
        then col_step givens (A_UN (\<kappa> + 2 + d) H (Get shifts j 0)) (\<kappa> + 2 + d) \<kappa>
               (UN_col (\<kappa> + 2 + d) st j)
        else UN_col (\<kappa> + 2 + d) st j')"
proof -
  obtain X W C S where st: "st = (X, W, C, S)" by (cases st) auto
  obtain c s rho where g: "givens (Get W (Suc d) j) (Get H (Suc d) d) = (c, s, rho)"
    by (cases "givens (Get W (Suc d) j) (Get H (Suc d) d)") auto
  show ?thesis
  proof (cases "j' = j")
    case False
    then show ?thesis using g
      by (auto simp add: st UN_col_def UN_eliminate_def Let_def fun_eq_iff)
  next
    case True
    have "UN_col (\<kappa> + 2 + d) (UN_eliminate givens H shifts (Suc d) j st) j
            = col_step givens (A_UN (\<kappa> + 2 + d) H (Get shifts j 0)) (\<kappa> + 2 + d) \<kappa>
                (UN_col (\<kappa> + 2 + d) st j)"
      using g
      by (auto simp add: st UN_col_def UN_eliminate_def col_step_def Let_def fun_eq_iff
            A_UN_def algebra_simps add_divide_distrib)
    with True show ?thesis by simp
  qed
qed


lemma UN_eliminate_col:
  assumes k: "\<kappa> + 1 < m"
  shows "UN_col m (UN_eliminate givens H shifts (m - 1 - \<kappa>) j st) j'
           = (if j' = j then col_step givens (A_UN m H (Get shifts j 0)) m \<kappa> (UN_col m st j)
              else UN_col m st j')"
proof -
  define d where "d = m - \<kappa> - 2"
  have m: "m = \<kappa> + 2 + d" and k1: "m - 1 - \<kappa> = Suc d" using k by (simp_all add: d_def)
  show ?thesis unfolding k1 unfolding m by (rule UN_eliminate_col_aux)
qed

lemma UN_forward_Suc:
  assumes K: "K < m"
  shows "UN_forward givens H shifts m n (Suc K) st
           = fold (\<lambda>j st. UN_eliminate givens H shifts (m - 1 - K) j st) [0..<n]
               (UN_forward givens H shifts m n K st)"
proof -
  have "[m - Suc K..<m] = (m - Suc K) # [m - K..<m]"
    using K by (simp add: upt_conv_Cons Suc_diff_Suc)
  then show ?thesis using K by (simp add: UN_forward_def)
qed

lemma UN_forward_col:
  "K < m \<Longrightarrow> j < n \<Longrightarrow>
   UN_col m (UN_forward givens H shifts m n K st) j
     = col_forward givens (A_UN m H (Get shifts j 0)) m K (UN_col m st j)"
proof (induction K)
  case 0
  show ?case by (simp add: UN_forward_def)
next
  case (Suc K)
  from Suc.prems have K: "K < m" and K1: "K + 1 < m" by simp_all
  have "UN_col m (UN_forward givens H shifts m n (Suc K) st) j
          = col_step givens (A_UN m H (Get shifts j 0)) m K
              (UN_col m (UN_forward givens H shifts m n K st) j)"
    unfolding UN_forward_Suc [OF K]
    using fold_proj [of n "UN_col m" "\<lambda>j st. UN_eliminate givens H shifts (m - 1 - K) j st"
            "\<lambda>j. col_step givens (A_UN m H (Get shifts j 0)) m K", OF UN_eliminate_col [OF K1]]
          Suc.prems(2)
    by simp
  then show ?case using Suc.IH [OF K Suc.prems(2)] by simp
qed

lemma UN_init_col:
  assumes m: "0 < Height X" and j: "j < Width X"
  shows "UN_col (Height X) (UN_init H shifts X) j
           = col_init (A_UN (Height X) H (Get shifts j 0))
               (\<lambda>a. if a < Height X then Get X (Height X - 1 - a) j else 0)"
proof -
  let ?m = "Height X" and ?n = "Width X"
  let ?step = "\<lambda>j W. Update_entry (MemCopy_col W j H (?m - 1) ?m) (?m - 1) j (- Get shifts j 0)"
  let ?proj = "\<lambda>(W::complex Matrix) j i. Get W i j"
  let ?f = "\<lambda>j (col :: nat \<Rightarrow> complex) i.
              if i < ?m then Get H i (?m - 1) - (if i = ?m - 1 then Get shifts j 0 else 0)
              else col i"
  have "?proj (fold ?step [0..<?n] (Zeros ?m ?n)) j
          = (if j < ?n then ?f j (?proj (Zeros ?m ?n) j) else ?proj (Zeros ?m ?n) j)"
  proof (rule fold_proj [of ?n ?proj ?step ?f])
    fix j j' :: nat and W :: "complex Matrix"
    show "?proj (?step j W) j' = (if j' = j then ?f j (?proj W j) else ?proj W j')"
      using m by (auto simp add: fun_eq_iff)
  qed
  then have "Get (fold ?step [0..<?n] (Zeros ?m ?n)) i j
               = (if i < ?m then Get H i (?m - 1) - (if i = ?m - 1 then Get shifts j 0 else 0)
                  else 0)" for i
    using j by (auto simp add: fun_eq_iff)
  then have "(\<lambda>a. if a < ?m then Get (fold ?step [0..<?n] (Zeros ?m ?n)) (?m - 1 - a) j else 0)
               = (\<lambda>a. A_UN ?m H (Get shifts j 0) a 0)"
    using m by (auto simp add: fun_eq_iff A_UN_def)
  then show ?thesis
    by (simp add: UN_init_def UN_col_def col_init_def Let_def cong: if_cong)
qed

lemma UN_pivot_col:
  assumes k: "k < Height X0" and j: "j < Width X0"
  shows "UN_pivot givens alpha H shifts X0 k j
           = col_pivot givens (A_UN (Height X0) H (Get shifts j 0)) (Height X0)
               (\<lambda>a. if a < Height X0 then alpha * Get X0 (Height X0 - 1 - a) j else 0)
               (Height X0 - 1 - k)"
proof -
  let ?m = "Height X0" and ?n = "Width X0"
  let ?X = "Scale alpha X0"
  let ?A = "A_UN ?m H (Get shifts j 0)"
  let ?b = "\<lambda>a. if a < ?m then alpha * Get X0 (?m - 1 - a) j else 0"
  define \<kappa> where "\<kappa> = ?m - 1 - k"
  have kk: "\<kappa> < ?m" "?m - 1 - \<kappa> = k" "\<kappa> + 1 < ?m \<longleftrightarrow> 0 < k" using k by (auto simp add: \<kappa>_def)
  have hw: "Height ?X = ?m" "Width ?X = ?n" by (simp_all add: Scale_def)
  define st where "st = UN_forward givens H shifts ?m ?n \<kappa> (UN_init H shifts ?X)"
  obtain X W C S where st: "st = (X, W, C, S)" by (cases st) auto
  have b: "(\<lambda>a. if a < ?m then Get ?X (?m - 1 - a) j else 0) = ?b" by (simp add: fun_eq_iff)
  have i0: "UN_col ?m (UN_init H shifts ?X) j = col_init ?A ?b"
    using UN_init_col [of ?X j H shifts] k j unfolding hw b by simp
  have "UN_col ?m st j = col_forward givens ?A ?m \<kappa> (col_init ?A ?b)"
    unfolding st_def
    using UN_forward_col [OF kk(1) j, of givens H shifts "UN_init H shifts ?X"] i0
    by simp
  then have c: "col_forward givens ?A ?m \<kappa> (col_init ?A ?b)
                = ((\<lambda>a. if a < ?m then Get X (?m - 1 - a) j else 0),
                   (\<lambda>a. if a < ?m then Get W (?m - 1 - a) j else 0),
                   (\<lambda>a. if a < ?m then Get C (?m - 1 - a) j else 0),
                   (\<lambda>a. if a < ?m then Get S (?m - 1 - a) j else 0))"
    by (simp add: st UN_col_def)
  have a: "?A \<kappa> (\<kappa> + 1) = Get H k (k - 1)" if "0 < k"
  proof -
    have "?m - 1 - (\<kappa> + 1) = k - 1" using k that by (simp add: \<kappa>_def)
    then show ?thesis using kk by (simp add: A_UN_def)
  qed
  have p: "UN_pivot givens alpha H shifts X0 k j
             = (if 0 < k
                then (case givens (Get W k j) (Get H k (k - 1)) of
                        (c, s, gamma) \<Rightarrow> of_real c * Get W k j + s * Get H k (k - 1))
                else Get W k j)"
    using st [unfolded st_def \<kappa>_def] by (simp add: UN_pivot_def Let_def hw)
  have q: "col_pivot givens ?A ?m ?b \<kappa>
             = (if 0 < k
                then (case givens (Get W k j) (?A \<kappa> (\<kappa> + 1)) of
                        (c, s, gamma) \<Rightarrow> of_real c * Get W k j + s * ?A \<kappa> (\<kappa> + 1))
                else Get W k j)"
    unfolding col_pivot_def c using kk by simp
  show ?thesis unfolding p q \<kappa>_def [symmetric] using a by simp
qed

lemma UN_rotate_col_aux:
  "UN_back_col (\<kappa> + 2 + d) (UN_rotate C S (Suc d) j st) j'
     = (if j' = j
        then col_rotate (\<lambda>a. if a < \<kappa> + 2 + d then Get C (\<kappa> + 2 + d - 1 - a) j else 0)
               (\<lambda>a. if a < \<kappa> + 2 + d then Get S (\<kappa> + 2 + d - 1 - a) j else 0) \<kappa>
               (UN_back_col (\<kappa> + 2 + d) st j)
        else UN_back_col (\<kappa> + 2 + d) st j')"
  by (cases st) (auto simp add: UN_back_col_def UN_rotate_def col_rotate_def Let_def fun_eq_iff)

lemma UN_rotate_col:
  assumes k: "\<kappa> + 1 < m"
  shows "UN_back_col m (UN_rotate C S (m - 1 - \<kappa>) j st) j'
     = (if j' = j
        then col_rotate (\<lambda>a. if a < m then Get C (m - 1 - a) j else 0)
               (\<lambda>a. if a < m then Get S (m - 1 - a) j else 0) \<kappa> (UN_back_col m st j)
        else UN_back_col m st j')"
proof -
  define d where "d = m - \<kappa> - 2"
  have m: "m = \<kappa> + 2 + d" and k1: "m - 1 - \<kappa> = Suc d" using k by (simp_all add: d_def)
  show ?thesis unfolding k1 unfolding m by (rule UN_rotate_col_aux)
qed

lemma UN_rotate_fold_col:
  "j < n \<Longrightarrow> \<forall>\<kappa>\<in>set ks. \<kappa> + 1 < m \<Longrightarrow>
   UN_back_col m (fold (\<lambda>k st. fold (\<lambda>j st. UN_rotate C S k j st) [0..<n] st)
                    (map (\<lambda>\<kappa>. m - 1 - \<kappa>) ks) st) j
     = fold (col_rotate (\<lambda>a. if a < m then Get C (m - 1 - a) j else 0)
               (\<lambda>a. if a < m then Get S (m - 1 - a) j else 0)) ks (UN_back_col m st j)"
proof (induction ks arbitrary: st)
  case Nil
  show ?case by simp
next
  case (Cons k ks)
  from Cons.prems have k: "k + 1 < m" and ks: "\<forall>\<kappa>\<in>set ks. \<kappa> + 1 < m" by simp_all
  have "UN_back_col m (fold (\<lambda>j st. UN_rotate C S (m - 1 - k) j st) [0..<n] st) j
          = col_rotate (\<lambda>a. if a < m then Get C (m - 1 - a) j else 0)
              (\<lambda>a. if a < m then Get S (m - 1 - a) j else 0) k (UN_back_col m st j)"
    using fold_proj [of n "UN_back_col m" "\<lambda>j st. UN_rotate C S (m - 1 - k) j st"
            "\<lambda>j. col_rotate (\<lambda>a. if a < m then Get C (m - 1 - a) j else 0)
                    (\<lambda>a. if a < m then Get S (m - 1 - a) j else 0) k", OF UN_rotate_col [OF k]]
          Cons.prems(1)
    by simp
  then show ?case using Cons.IH [OF Cons.prems(1) ks] by simp
qed

lemma upt_reflect: "[1..<m] = map (\<lambda>\<kappa>. m - 1 - \<kappa>) (rev [0..<m - 1])"
  by (rule nth_equalityI) (auto simp add: rev_nth)

lemma UN_col_solve:
  assumes m: "0 < Height X0" and j: "j < Width X0"
  shows "(\<lambda>a. if a < Height X0 then Get (mshs_UN givens alpha H shifts X0) (Height X0 - 1 - a) j
               else 0)
           = col_solve givens (A_UN (Height X0) H (Get shifts j 0)) (Height X0)
               (\<lambda>a. if a < Height X0 then alpha * Get X0 (Height X0 - 1 - a) j else 0)"
proof -
  let ?m = "Height X0" and ?n = "Width X0"
  let ?X = "Scale alpha X0"
  let ?A = "A_UN ?m H (Get shifts j 0)"
  let ?b = "\<lambda>a. if a < ?m then alpha * Get X0 (?m - 1 - a) j else 0"
  have hw: "Height ?X = ?m" "Width ?X = ?n" by (simp_all add: Scale_def)
  define r where "r = ?m - 1"
  have r: "r < ?m" "?m - 1 = r" "?m - 1 - r = 0" using m by (simp_all add: r_def)
  define st where "st = UN_forward givens H shifts ?m ?n r (UN_init H shifts ?X)"
  obtain X W C S where st: "st = (X, W, C, S)" by (cases st) auto
  have bb: "(\<lambda>a. if a < ?m then Get ?X (?m - 1 - a) j else 0) = ?b" by (simp add: fun_eq_iff)
  have i0: "UN_col ?m (UN_init H shifts ?X) j = col_init ?A ?b"
    using UN_init_col [of ?X j H shifts] m j unfolding hw bb by simp
  have "UN_col ?m st j = col_forward givens ?A ?m r (col_init ?A ?b)"
    unfolding st_def
    using UN_forward_col [OF r(1) j, of givens H shifts "UN_init H shifts ?X"] i0
    by simp
  then have c: "col_forward givens ?A ?m r (col_init ?A ?b)
                = ((\<lambda>a. if a < ?m then Get X (?m - 1 - a) j else 0),
                   (\<lambda>a. if a < ?m then Get W (?m - 1 - a) j else 0),
                   (\<lambda>a. if a < ?m then Get C (?m - 1 - a) j else 0),
                   (\<lambda>a. if a < ?m then Get S (?m - 1 - a) j else 0))"
    by (simp add: st UN_col_def)
  define X1 where
    "X1 = fold (\<lambda>j X. Set_entry X 0 j (Get X 0 j / Get W 0 j)) [0..<?n] X"
  define T1 where
    "T1 = fold (\<lambda>j t1. Set_entry t1 j 0 (Get X1 0 j)) [0..<?n] (Zeros ?n 1)"
  define y where "y = (\<lambda>a. if a < ?m then Get X (?m - 1 - a) j else 0)(r := Get X 0 j / Get W 0 j)"
  have fs: "Get X1 i j = (if j < ?n \<and> i = 0 then Get X 0 j / Get W 0 j else Get X i j)" for i
    unfolding X1_def by (rule fold_Set_row) simp
  have X1: "(\<lambda>a. if a < ?m then Get X1 (?m - 1 - a) j else 0) = y"
    using j fs m by (auto simp add: fun_eq_iff y_def r_def)
  have t1: "Get T1 j 0 = y r"
    unfolding T1_def using j fs by (simp add: fold_t1 y_def)
  define B where
    "B = fold (\<lambda>k st. fold (\<lambda>j st. UN_rotate C S k j st) [0..<?n] st)
           [1..<?m] (X1, T1, Zeros ?n 1)"
  obtain X2 t12 t22 where bk: "B = (X2, t12, t22)" by (cases B) auto
  let ?c = "\<lambda>a. if a < ?m then Get C (?m - 1 - a) j else 0"
  let ?s = "\<lambda>a. if a < ?m then Get S (?m - 1 - a) j else 0"
  have "UN_back_col ?m B j
          = fold (col_rotate ?c ?s) (rev [0..<?m - 1]) (UN_back_col ?m (X1, T1, Zeros ?n 1) j)"
    unfolding B_def upt_reflect [of ?m]
    by (rule UN_rotate_fold_col [OF j]) auto
  then have b: "fold (col_rotate ?c ?s) (rev [0..<?m - 1]) (y, y (?m - 1))
                  = ((\<lambda>a. if a < ?m then Get X2 (?m - 1 - a) j else 0), Get t12 j 0)"
    using X1 t1 [unfolded r_def] by (simp add: bk UN_back_col_def)
  have L: "mshs_UN givens alpha H shifts X0
             = fold (\<lambda>j X. Set_entry X r j (Get t12 j 0)) [0..<?n] X2"
    using m st [unfolded st_def] bk [unfolded B_def T1_def X1_def]
    by (simp add: mshs_UN_def Let_def hw r_def)
  have fl: "Get (fold (\<lambda>j X. Set_entry X r j (Get t12 j 0)) [0..<?n] X2) i j
              = (if j < ?n \<and> i = r then Get t12 j 0 else Get X2 i j)" for i
    by (rule fold_Set_row) simp
  have "(\<lambda>a. if a < ?m then Get (mshs_UN givens alpha H shifts X0) (?m - 1 - a) j else 0)
          = (\<lambda>a. if a < ?m then Get X2 (?m - 1 - a) j else 0)(0 := Get t12 j 0)"
    unfolding L using j fl m by (auto simp add: fun_eq_iff r_def)
  also have "\<dots> = col_solve givens ?A ?m ?b"
    using c [unfolded r_def] b [unfolded y_def r_def] m by (simp add: col_solve_def Let_def)
  finally show ?thesis .
qed

lemma givens_zeroing:
  fixes f g :: complex and r :: real
  assumes f: "f \<noteq> 0"
  shows "of_real (cmod f / r) * g - cnj (f / of_real (cmod f) * cnj g / of_real r) * f = 0"
proof -
  have "cnj f * f = of_real (cmod f) * of_real (cmod f)"
    using complex_norm_square [of f] by (simp add: power2_eq_square mult.commute)
  then have e: "cnj f * f / of_real (cmod f) = of_real (cmod f)"
    using f by simp
  have "cnj (f / of_real (cmod f) * cnj g / of_real r) * f
          = (cnj f * f / of_real (cmod f)) * g / of_real r"
    by (simp add: divide_inverse mult_ac)
  also have "\<dots> = of_real (cmod f) * g / of_real r"
    by (simp only: e)
  also have "\<dots> = of_real (cmod f / r) * g"
    by simp
  finally show ?thesis by simp
qed

lemma givens_ok_ComputeGivens: "givens_ok ComputeGivens"
  unfolding givens_ok_def
proof (intro allI)
  fix f g :: complex
  consider "g = 0" | "g \<noteq> 0" "f = 0" | "g \<noteq> 0" "f \<noteq> 0" by blast
  then show "case ComputeGivens f g of (c, s, rho) \<Rightarrow> of_real c * g - cnj s * f = 0"
  proof cases
    case 1
    then show ?thesis by (simp add: ComputeGivens_def)
  next
    case 2
    then show ?thesis by (simp add: ComputeGivens_def)
  next
    case 3
    define r where "r = sqrt ((cmod f)\<^sup>2 + (cmod g)\<^sup>2)"
    have "ComputeGivens f g
            = (cmod f / r, f / of_real (cmod f) * cnj g / of_real r,
               f / of_real (cmod f) * of_real r)"
      using 3 by (simp add: ComputeGivens_def Let_def r_def)
    then show ?thesis
      by (simp only: prod.case givens_zeroing [OF 3(2)])
  qed
qed

lemma sqrt_25: "sqrt 25 = 5"
  using real_sqrt_abs [of 5] by simp

lemma ComputeGivens_zero: "ComputeGivens f 0 = (1, 0, f)"
  by (simp add: ComputeGivens_def)

lemma ComputeGivens_3_4: "ComputeGivens 3 4 = (3 / 5, 4 / 5, 5)"
  by (simp add: ComputeGivens_def Let_def sqrt_25)

lemma lower_Hessenberg_iff:
  "lower_Hessenberg m H \<longleftrightarrow> (\<forall>i l. i < m \<and> l < m \<and> i + 1 < l \<longrightarrow> Get H i l = 0)"
  by (auto simp add: lower_Hessenberg_def list_all_iff)

lemma upper_Hessenberg_iff:
  "upper_Hessenberg m H \<longleftrightarrow> (\<forall>i l. i < m \<and> l < m \<and> l + 1 < i \<longrightarrow> Get H i l = 0)"
  by (auto simp add: upper_Hessenberg_def list_all_iff)

lemma LN_solve_correct:
  assumes ok: "givens_ok givens"
    and hess: "lower_Hessenberg (Height X) H"
    and piv: "LN_pivots_nonzero givens alpha H shifts X"
    and i: "i < Height X" and j: "j < Width X"
  shows "(\<Sum>l<Height X. (Get H i l - (if i = l then Get shifts j 0 else 0))
                          * Get (mshs_LN givens alpha H shifts X) l j)
           = alpha * Get X i j"
proof -
  let ?m = "Height X"
  let ?A = "A_LN ?m H (Get shifts j 0)"
  let ?b = "\<lambda>i. alpha * Get X i j"
  have m: "0 < ?m" using i by simp
  have h: "\<forall>i l. i + 1 < l \<and> l < ?m \<longrightarrow> ?A i l = 0"
    using hess by (auto simp add: lower_Hessenberg_iff A_LN_def)
  have p: "\<forall>k<?m. col_pivot givens ?A ?m ?b k \<noteq> 0"
  proof (intro allI impI)
    fix k assume k: "k < ?m"
    have "LN_pivot givens alpha H shifts X k j \<noteq> 0"
      using piv j k by (auto simp add: LN_pivots_nonzero_def list_all_iff)
    then show "col_pivot givens ?A ?m ?b k \<noteq> 0"
      unfolding LN_pivot_col [OF k j] .
  qed
  have s: "Get (mshs_LN givens alpha H shifts X) l j = col_solve givens ?A ?m ?b l" for l
    using LN_col_solve [OF m j, of givens alpha H shifts] by (simp add: fun_eq_iff)
  have "(\<Sum>l<?m. ?A i l * col_solve givens ?A ?m ?b l) = ?b i"
    by (rule col_solve_correct [OF ok h p i])
  then show ?thesis using i by (simp add: s A_LN_def)
qed

lemma UN_solve_correct:
  assumes ok: "givens_ok givens"
    and hess: "upper_Hessenberg (Height X) H"
    and piv: "UN_pivots_nonzero givens alpha H shifts X"
    and i: "i < Height X" and j: "j < Width X"
  shows "(\<Sum>l<Height X. (Get H i l - (if i = l then Get shifts j 0 else 0))
                          * Get (mshs_UN givens alpha H shifts X) l j)
           = alpha * Get X i j"
proof -
  let ?m = "Height X"
  let ?A = "A_UN ?m H (Get shifts j 0)"
  let ?b = "\<lambda>a. if a < ?m then alpha * Get X (?m - 1 - a) j else 0"
  let ?U = "mshs_UN givens alpha H shifts X"
  have m: "0 < ?m" using i by simp
  define a where "a = ?m - 1 - i"
  have a: "a < ?m" "?m - 1 - a = i" using i by (simp_all add: a_def)
  have h: "\<forall>i l. i + 1 < l \<and> l < ?m \<longrightarrow> ?A i l = 0"
  proof (intro allI impI)
    fix i l assume il: "i + 1 < l \<and> l < ?m"
    then have "?m - 1 - l + 1 < ?m - 1 - i" "?m - 1 - i < ?m" "?m - 1 - l < ?m" by auto
    then have "Get H (?m - 1 - i) (?m - 1 - l) = 0"
      using hess unfolding upper_Hessenberg_iff by blast
    then show "?A i l = 0" using il by (simp add: A_UN_def)
  qed
  have p: "\<forall>k<?m. col_pivot givens ?A ?m ?b k \<noteq> 0"
  proof (intro allI impI)
    fix k assume k: "k < ?m"
    then have k': "?m - 1 - k < ?m" "?m - 1 - (?m - 1 - k) = k" by auto
    have "UN_pivot givens alpha H shifts X (?m - 1 - k) j \<noteq> 0"
      using piv j k'(1) by (auto simp add: UN_pivots_nonzero_def list_all_iff)
    then show "col_pivot givens ?A ?m ?b k \<noteq> 0"
      unfolding UN_pivot_col [OF k'(1) j] k'(2) .
  qed
  have s: "col_solve givens ?A ?m ?b l = Get ?U (?m - 1 - l) j" if "l < ?m" for l
    using UN_col_solve [OF m j, of givens alpha H shifts, THEN fun_cong, of l] that by simp
  have e: "(\<Sum>l<?m. ?A a l * col_solve givens ?A ?m ?b l)
             = (\<Sum>l<?m. (Get H i (?m - Suc l) - (if i = ?m - Suc l then Get shifts j 0 else 0))
                             * Get ?U (?m - Suc l) j)"
  proof (rule sum.cong [OF refl])
    fix l assume "l \<in> {..<?m}"
    then have l: "l < ?m" by simp
    have "?A a l = Get H i (?m - Suc l) - (if i = ?m - Suc l then Get shifts j 0 else 0)"
      using l i by (auto simp add: A_UN_def a_def)
    moreover have "col_solve givens ?A ?m ?b l = Get ?U (?m - Suc l) j"
      using s [OF l] by simp
    ultimately show "?A a l * col_solve givens ?A ?m ?b l
                       = (Get H i (?m - Suc l) - (if i = ?m - Suc l then Get shifts j 0 else 0))
                           * Get ?U (?m - Suc l) j"
      by (simp only:)
  qed
  have "(\<Sum>l<?m. ?A a l * col_solve givens ?A ?m ?b l) = ?b a"
    by (rule col_solve_correct [OF ok h p a(1)])
  moreover have "?b a = alpha * Get X i j" using a by simp
  moreover have "(\<Sum>l<?m. (Get H i (?m - Suc l) - (if i = ?m - Suc l then Get shifts j 0 else 0))
                             * Get ?U (?m - Suc l) j)
        = (\<Sum>l<?m. (Get H i l - (if i = l then Get shifts j 0 else 0)) * Get ?U l j)"
    by (rule sum.nat_diff_reindex)
  ultimately show ?thesis using e by (simp only:)
qed

lemma upt_3: "[0..<3] = [0, 1, 2]"
  by (simp add: upt_rec)

lemma upt_2: "[0..<2] = [0, 1]"
  by (simp add: upt_rec)

lemma exL_pivot0: "LN_pivot ComputeGivens 1 exL exS exB 0 0 = 5"
  by (simp add: LN_pivot_def LN_forward_def LN_init_def Let_def exL_def exS_def exB_def
        Scale_def ComputeGivens_3_4)

lemma exL_pivot1: "LN_pivot ComputeGivens 1 exL exS exB 1 0 = 3"
  by (simp add: LN_pivot_def LN_forward_def LN_init_def LN_eliminate_def Let_def
        exL_def exS_def exB_def Scale_def ComputeGivens_3_4 ComputeGivens_zero)

lemma exL_pivot2: "LN_pivot ComputeGivens 1 exL exS exB 2 0 = 2"
  by (simp add: LN_pivot_def LN_forward_def LN_init_def LN_eliminate_def Let_def upt_2
        exL_def exS_def exB_def Scale_def ComputeGivens_3_4 ComputeGivens_zero)


lemma sum_lessThan_3: "(\<Sum>l<(3::nat). f l) = f 0 + f 1 + (f 2 :: complex)"
  by (simp add: numeral_3_eq_3 numeral_2_eq_2)

lemma upt_2_3: "[2..<3] = [2]"
  by (simp add: upt_rec)

lemma upt_1_3: "[Suc 0..<3] = [Suc 0, 2]"
  by (simp add: upt_rec)

lemma exU_pivot2: "UN_pivot ComputeGivens 1 exU exS exB 2 0 = 5"
  by (simp add: UN_pivot_def UN_forward_def UN_init_def Let_def exU_def exS_def exB_def
        Scale_def ComputeGivens_3_4)

lemma exU_pivot1: "UN_pivot ComputeGivens 1 exU exS exB 1 0 = 3"
  by (simp add: UN_pivot_def UN_forward_def UN_init_def UN_eliminate_def Let_def upt_2_3
        exU_def exS_def exB_def Scale_def ComputeGivens_3_4 ComputeGivens_zero)

lemma exU_pivot0: "UN_pivot ComputeGivens 1 exU exS exB 0 0 = 2"
  by (simp add: UN_pivot_def UN_forward_def UN_init_def UN_eliminate_def Let_def upt_1_3
        exU_def exS_def exB_def Scale_def ComputeGivens_3_4 ComputeGivens_zero)

lemma exB_shape: "Height exB = 3" "Width exB = 1"
  by (simp_all add: exB_def)

lemma exL_lower_Hessenberg: "lower_Hessenberg 3 exL"
  by (simp add: lower_Hessenberg_def upt_3 exL_def)

lemma exU_upper_Hessenberg: "upper_Hessenberg 3 exU"
  by (simp add: upper_Hessenberg_def upt_3 exU_def)

lemma exL_pivots: "LN_pivots_nonzero ComputeGivens 1 exL exS exB"
  using exL_pivot0 exL_pivot1 exL_pivot2
  by (simp add: LN_pivots_nonzero_def exB_shape upt_3)

lemma exU_pivots: "UN_pivots_nonzero ComputeGivens 1 exU exS exB"
  using exU_pivot0 exU_pivot1 exU_pivot2
  by (simp add: UN_pivots_nonzero_def exB_shape upt_3)

lemma exL_solution:
  "Get (mshs_LN ComputeGivens 1 exL exS exB) 0 0 = - 1 / 5"
  "Get (mshs_LN ComputeGivens 1 exL exS exB) 1 0 = 7 / 5"
  "Get (mshs_LN ComputeGivens 1 exL exS exB) 2 0 = 8 / 5"
  by (simp_all add: mshs_LN_def LN_forward_def LN_init_def LN_eliminate_def LN_rotate_def
        Let_def upt_2 exL_def exS_def exB_def Scale_def ComputeGivens_3_4 ComputeGivens_zero)

lemma exU_solution:
  "Get (mshs_UN ComputeGivens 1 exU exS exB) 0 0 = 44 / 15"
  "Get (mshs_UN ComputeGivens 1 exU exS exB) 1 0 = 7 / 5"
  "Get (mshs_UN ComputeGivens 1 exU exS exB) 2 0 = - 13 / 15"
  by (simp_all add: mshs_UN_def UN_forward_def UN_init_def UN_eliminate_def UN_rotate_def
        Let_def upt_1_3 exU_def exS_def exB_def Scale_def ComputeGivens_3_4 ComputeGivens_zero)

lemma cexX_shape: "Height cexX = 3" "Width cexX = 1"
  by (simp_all add: cexX_def)

lemma cexH_upper_Hessenberg: "upper_Hessenberg 3 cexH"
  by (simp add: upper_Hessenberg_def upt_3 cexH_def)

lemma cexH_pivot0: "LN_pivot ComputeGivens 1 cexH exS cexX 0 0 = 1"
  by (simp add: LN_pivot_def LN_forward_def LN_init_def Let_def cexH_def exS_def cexX_def
        Scale_def ComputeGivens_zero)

lemma cexH_pivot1: "LN_pivot ComputeGivens 1 cexH exS cexX 1 0 = 1"
  by (simp add: LN_pivot_def LN_forward_def LN_init_def LN_eliminate_def Let_def
        cexH_def exS_def cexX_def Scale_def ComputeGivens_zero)

lemma cexH_pivot2: "LN_pivot ComputeGivens 1 cexH exS cexX 2 0 = 1"
  by (simp add: LN_pivot_def LN_forward_def LN_init_def LN_eliminate_def Let_def upt_2
        cexH_def exS_def cexX_def Scale_def ComputeGivens_zero)

lemma cexH_pivots: "LN_pivots_nonzero ComputeGivens 1 cexH exS cexX"
  using cexH_pivot0 cexH_pivot1 cexH_pivot2
  by (simp add: LN_pivots_nonzero_def cexX_shape upt_3)

lemma cexH_solution:
  "Get (mshs_LN ComputeGivens 1 cexH exS cexX) 0 0 = 0"
  "Get (mshs_LN ComputeGivens 1 cexH exS cexX) 1 0 = 0"
  "Get (mshs_LN ComputeGivens 1 cexH exS cexX) 2 0 = 1"
  by (simp_all add: mshs_LN_def LN_forward_def LN_init_def LN_eliminate_def LN_rotate_def
        Let_def upt_2 cexH_def exS_def cexX_def Scale_def ComputeGivens_zero)

text \<open>
  Claim C1. Let \<open>givens\<close> zero the second component of the pair it is given, and let
  every divisor met by the solve be nonzero. For \<open>H\<close> lower Hessenberg, \<open>mshs::LN\<close>
  overwrites each column \<open>j\<close> of \<open>X\<close> with a solution of
  \<open>(H - shifts(j) I) x = alpha X(:,j)\<close>: substituting the output back into the shifted
  system reproduces \<open>alpha\<close> times the original column, row by row. For \<open>H\<close> upper
  Hessenberg, \<open>mshs::UN\<close> does the same.
\<close>

theorem mshs_solves_shifted_systems:
  assumes "givens_ok givens" and "i < Height X" and "j < Width X"
  shows "(lower_Hessenberg (Height X) H \<and> LN_pivots_nonzero givens alpha H shifts X
            \<longrightarrow> (\<Sum>l<Height X. (Get H i l - (if i = l then Get shifts j 0 else 0))
                                    * Get (mshs_LN givens alpha H shifts X) l j)
                  = alpha * Get X i j)
       \<and> (upper_Hessenberg (Height X) H \<and> UN_pivots_nonzero givens alpha H shifts X
            \<longrightarrow> (\<Sum>l<Height X. (Get H i l - (if i = l then Get shifts j 0 else 0))
                                    * Get (mshs_UN givens alpha H shifts X) l j)
                  = alpha * Get X i j)"
  using LN_solve_correct [OF assms(1) _ _ assms(2,3)] UN_solve_correct [OF assms(1) _ _ assms(2,3)]
  by blast

theorem mshs_solves_shifted_systems_witness:
  "givens_ok ComputeGivens
   \<and> lower_Hessenberg (Height exB) exL \<and> LN_pivots_nonzero ComputeGivens 1 exL exS exB
   \<and> (\<Sum>l<Height exB. (Get exL 2 l - (if 2 = l then Get exS 0 0 else 0))
                          * Get (mshs_LN ComputeGivens 1 exL exS exB) l 0)
       = 1 * Get exB 2 0
   \<and> map (\<lambda>l. Get (mshs_LN ComputeGivens 1 exL exS exB) l 0) [0, 1, 2] = [- 1 / 5, 7 / 5, 8 / 5]
   \<and> upper_Hessenberg (Height exB) exU \<and> UN_pivots_nonzero ComputeGivens 1 exU exS exB
   \<and> (\<Sum>l<Height exB. (Get exU 0 l - (if 0 = l then Get exS 0 0 else 0))
                          * Get (mshs_UN ComputeGivens 1 exU exS exB) l 0)
       = 1 * Get exB 0 0
   \<and> map (\<lambda>l. Get (mshs_UN ComputeGivens 1 exU exS exB) l 0) [0, 1, 2]
       = [44 / 15, 7 / 5, - 13 / 15]"
proof -
  have i0: "0 < Height exB" and i2: "2 < Height exB" and j: "0 < Width exB"
    by (simp_all add: exB_shape)
  have l: "lower_Hessenberg (Height exB) exL" and u: "upper_Hessenberg (Height exB) exU"
    by (simp_all add: exB_shape exL_lower_Hessenberg exU_upper_Hessenberg)
  have s: "map (\<lambda>l. Get (mshs_LN ComputeGivens 1 exL exS exB) l 0) [0, 1, 2]
             = [- 1 / 5, 7 / 5, 8 / 5]"
    "map (\<lambda>l. Get (mshs_UN ComputeGivens 1 exU exS exB) l 0) [0, 1, 2]
             = [44 / 15, 7 / 5, - 13 / 15]"
    using exL_solution exU_solution by simp_all
  from mshs_solves_shifted_systems [OF givens_ok_ComputeGivens i2 j, where H = exL]
    mshs_solves_shifted_systems [OF givens_ok_ComputeGivens i0 j, where H = exU]
    l u exL_pivots exU_pivots givens_ok_ComputeGivens s
  show ?thesis by blast
qed

text \<open>
  The claim C1 as it is worded takes \<open>H\<close> upper Hessenberg for \<open>mshs::LN\<close> as well.
  \<open>LN\<close> reads the first column, the superdiagonal and the part of \<open>H\<close> below it, and
  never an entry above the superdiagonal: for the upper triangular \<open>cexH\<close>, whose entry
  \<open>(0,2)\<close> is 1, and the right-hand side \<open>(0, 0, 1)\<close> all divisors are 1 and \<open>LN\<close>
  returns \<open>(0, 0, 1)\<close>, for which row 0 of the system gives 1 and not 0.
\<close>

theorem mshs_LN_upper_Hessenberg_counterexample:
  "givens_ok ComputeGivens
   \<and> upper_Hessenberg (Height cexX) cexH \<and> LN_pivots_nonzero ComputeGivens 1 cexH exS cexX
   \<and> map (\<lambda>l. Get (mshs_LN ComputeGivens 1 cexH exS cexX) l 0) [0, 1, 2] = [0, 0, 1]
   \<and> (\<Sum>l<Height cexX. (Get cexH 0 l - (if 0 = l then Get exS 0 0 else 0))
                          * Get (mshs_LN ComputeGivens 1 cexH exS cexX) l 0)
       \<noteq> 1 * Get cexX 0 0"
proof -
  have "(\<Sum>l<Height cexX. (Get cexH 0 l - (if 0 = l then Get exS 0 0 else 0))
                          * Get (mshs_LN ComputeGivens 1 cexH exS cexX) l 0) = 1"
    using cexH_solution by (simp add: cexX_shape sum_lessThan_3 cexH_def exS_def)
  moreover have "1 * Get cexX 0 0 = 0" by (simp add: cexX_def)
  moreover have "map (\<lambda>l. Get (mshs_LN ComputeGivens 1 cexH exS cexX) l 0) [0, 1, 2] = [0, 0, 1]"
    using cexH_solution by simp
  ultimately show ?thesis
    using givens_ok_ComputeGivens cexH_upper_Hessenberg cexH_pivots
    by (simp add: cexX_shape)
qed

end
